(* ===== verification/Prelude.thy ===== *)
theory Prelude
  imports Main "HOL-Library.Word"
begin

text \<open>
  Shared vocabulary of the development: machine integers, the outcome of a Rust call, slices of
  byte buffers and big-endian encodings.

  \<^item> An outcome of type \<open>('a, 'e) result\<close> is \<open>Ok\<close> or \<open>Err\<close> as in Rust, \<open>Panic\<close> where the
    source panics (a failed \<open>assert!\<close>, \<open>unwrap\<close>, \<open>expect\<close>, an index out of range), and
    \<open>Diverge\<close> where a recursion with a fuel argument has run out of fuel.
  \<^item> Bytes are \<open>8 word\<close>. Indices and sizes of type \<open>usize\<close>, \<open>u8\<close> and \<open>u16\<close> that only take
    part in arithmetic are natural numbers, with the wrap-around of their width written out
    (\<open>u8_add\<close>, \<open>u16_add\<close>, \<open>u16_sub\<close>, \<open>usize_sub\<close>): the release profile of the crate
    does not enable overflow checks.
\<close>

unbundle bit_operations_syntax

named_theorems slice_simps \<open>reading back a buffer after a write\<close>

subsection \<open>Machine integers\<close>

type_synonym byte = "8 word"
type_synonym u16 = "16 word"
type_synonym u32 = "32 word"
type_synonym u64 = "64 word"
type_synonym u256 = "256 word"
type_synonym bytes = "byte list"

definition u8_add :: "nat \<Rightarrow> nat \<Rightarrow> nat" where
  "u8_add a b = (a + b) mod 2 ^ 8"

definition u16_add :: "nat \<Rightarrow> nat \<Rightarrow> nat" where
  "u16_add a b = (a + b) mod 2 ^ 16"

definition u16_sub :: "nat \<Rightarrow> nat \<Rightarrow> nat" where
  "u16_sub a b = (if b \<le> a then a - b else 2 ^ 16 + a - b)"

definition usize_sub :: "nat \<Rightarrow> nat \<Rightarrow> nat" where
  "usize_sub a b = (if b \<le> a then a - b else 2 ^ 64 + a - b)"

definition checked_add_u32 :: "u32 \<Rightarrow> u32 \<Rightarrow> u32 option" where
  "checked_add_u32 a b = (if unat a + unat b < 2 ^ 32 then Some (a + b) else None)"

definition checked_add_u64 :: "u64 \<Rightarrow> u64 \<Rightarrow> u64 option" where
  "checked_add_u64 a b = (if unat a + unat b < 2 ^ 64 then Some (a + b) else None)"

lemma u8_add_small [simp]: "a + b < 256 \<Longrightarrow> u8_add a b = a + b"
  by (simp add: u8_add_def)

lemma u16_add_small [simp]: "a + b < 65536 \<Longrightarrow> u16_add a b = a + b"
  by (simp add: u16_add_def)

lemma u16_sub_small [simp]: "b \<le> a \<Longrightarrow> u16_sub a b = a - b"
  by (simp add: u16_sub_def)

lemma usize_sub_small [simp]: "b \<le> a \<Longrightarrow> usize_sub a b = a - b"
  by (simp add: usize_sub_def)

lemma unat_byte_less [simp]: "unat (b :: byte) < 256"
  using unsigned_less [of b, where ?'a = nat] by simp

lemma checked_add_u32_unat:
  "checked_add_u32 a b = Some c \<Longrightarrow> unat c = unat a + unat b"
  by (auto simp: checked_add_u32_def unat_word_ariths split: if_splits)

lemma checked_add_u64_unat:
  "checked_add_u64 a b = Some c \<Longrightarrow> unat c = unat a + unat b"
  by (auto simp: checked_add_u64_def unat_word_ariths split: if_splits)

subsection \<open>Outcomes\<close>

datatype ('a, 'e) result = Ok 'a | Err 'e | Panic | Diverge

fun bind_result :: "('a, 'e) result \<Rightarrow> ('a \<Rightarrow> ('b, 'e) result) \<Rightarrow> ('b, 'e) result" where
  "bind_result (Ok x) f = f x"
| "bind_result (Err e) f = Err e"
| "bind_result Panic f = Panic"
| "bind_result Diverge f = Diverge"

fun map_err :: "('e \<Rightarrow> 'f) \<Rightarrow> ('a, 'e) result \<Rightarrow> ('a, 'f) result" where
  "map_err g (Ok x) = Ok x"
| "map_err g (Err e) = Err (g e)"
| "map_err g Panic = Panic"
| "map_err g Diverge = Diverge"

definition unwrap :: "('a, 'e) result \<Rightarrow> ('a, 'f) result" where
  "unwrap r = (case r of Ok x \<Rightarrow> Ok x | Err _ \<Rightarrow> Panic | Panic \<Rightarrow> Panic | Diverge \<Rightarrow> Diverge)"

definition unwrap_option :: "'a option \<Rightarrow> ('a, 'e) result" where
  "unwrap_option x = (case x of Some v \<Rightarrow> Ok v | None \<Rightarrow> Panic)"

lemma unwrap_simps [simp]:
  "unwrap (Ok x) = Ok x" "unwrap (Err e) = Panic" "unwrap Panic = Panic" "unwrap Diverge = Diverge"
  by (simp_all add: unwrap_def)

lemma unwrap_option_simps [simp]:
  "unwrap_option (Some x) = Ok x" "unwrap_option None = Panic"
  by (simp_all add: unwrap_option_def)

lemma bind_result_eq_Ok:
  "bind_result r f = Ok y \<longleftrightarrow> (\<exists>x. r = Ok x \<and> f x = Ok y)"
  by (cases r) auto

text \<open>
  An operation on a mutable object returns its outcome together with the object, also when the
  outcome is an error: the source keeps the modifications made before an early return.
\<close>

definition bind_state ::
  "('a, 'e) result \<times> 's \<Rightarrow> ('a \<Rightarrow> 's \<Rightarrow> ('b, 'e) result \<times> 's) \<Rightarrow> ('b, 'e) result \<times> 's" where
  "bind_state m f = (case m of (r, s) \<Rightarrow>
     (case r of Ok x \<Rightarrow> f x s | Err e \<Rightarrow> (Err e, s) | Panic \<Rightarrow> (Panic, s) | Diverge \<Rightarrow> (Diverge, s)))"

lemma bind_state_simps [simp]:
  "bind_state (Ok x, s) f = f x s"
  "bind_state (Err e, s) f = (Err e, s)"
  "bind_state (Panic, s) f = (Panic, s)"
  "bind_state (Diverge, s) f = (Diverge, s)"
  by (simp_all add: bind_state_def)

lemma bind_state_eq_Ok:
  "bind_state m f = (Ok y, t) \<longleftrightarrow> (\<exists>x s. m = (Ok x, s) \<and> f x s = (Ok y, t))"
  by (auto simp: bind_state_def split: prod.splits result.splits)

subsection \<open>Slices of buffers\<close>

definition subl :: "'a list \<Rightarrow> nat \<Rightarrow> nat \<Rightarrow> 'a list" where
  "subl xs p n = take n (drop p xs)"

definition slice_range :: "'a list \<Rightarrow> nat \<Rightarrow> nat \<Rightarrow> 'a list option" where
  "slice_range xs a b = (if a \<le> b \<and> b \<le> length xs then Some (subl xs a (b - a)) else None)"

definition write_at :: "'a list \<Rightarrow> nat \<Rightarrow> 'a list \<Rightarrow> 'a list" where
  "write_at xs p ys = take p xs @ ys @ drop (p + length ys) xs"

lemma length_subl [simp]: "p + n \<le> length xs \<Longrightarrow> length (subl xs p n) = n"
  by (simp add: subl_def)

lemma length_write_at [simp]: "p + length ys \<le> length xs \<Longrightarrow> length (write_at xs p ys) = length xs"
  by (simp add: write_at_def)

lemma subl_nth: "p + n \<le> length xs \<Longrightarrow> i < n \<Longrightarrow> subl xs p n ! i = xs ! (p + i)"
  by (simp add: subl_def)

lemma write_at_nth:
  "p + length ys \<le> length xs \<Longrightarrow> i < length xs \<Longrightarrow>
   write_at xs p ys ! i = (if p \<le> i \<and> i < p + length ys then ys ! (i - p) else xs ! i)"
  by (auto simp: write_at_def nth_append)

lemma subl_write_at_same [slice_simps]:
  "p + length ys \<le> length xs \<Longrightarrow> n = length ys \<Longrightarrow> subl (write_at xs p ys) p n = ys"
  by (simp add: subl_def write_at_def)

lemma subl_write_at_disjoint [slice_simps]:
  assumes "p + length ys \<le> length xs" and "q + n \<le> length xs" and "q + n \<le> p \<or> p + length ys \<le> q"
  shows "subl (write_at xs p ys) q n = subl xs q n"
  using assms by (intro nth_equalityI) (auto simp: subl_nth write_at_nth)

lemma subl_append_left [slice_simps]: "n \<le> length xs \<Longrightarrow> subl (xs @ ys) 0 n = take n xs"
  by (simp add: subl_def)

lemma subl_append_right [slice_simps]:
  "length xs \<le> p \<Longrightarrow> subl (xs @ ys) p n = subl ys (p - length xs) n"
  by (simp add: subl_def)

lemma subl_zero_all [slice_simps]: "length xs \<le> n \<Longrightarrow> subl xs 0 n = xs"
  by (simp add: subl_def)

lemma slice_range_Some [simp]:
  "a \<le> b \<Longrightarrow> b \<le> length xs \<Longrightarrow> slice_range xs a b = Some (subl xs a (b - a))"
  by (simp add: slice_range_def)

subsection \<open>Big-endian integers\<close>

definition to_be_bytes_u16 :: "u16 \<Rightarrow> bytes" where
  "to_be_bytes_u16 x = [ucast (drop_bit 8 x), ucast x]"

definition from_be_bytes_u16 :: "bytes \<Rightarrow> u16" where
  "from_be_bytes_u16 b = push_bit 8 (ucast (b ! 0)) OR ucast (b ! 1)"

definition to_be_bytes_u32 :: "u32 \<Rightarrow> bytes" where
  "to_be_bytes_u32 x = [ucast (drop_bit 24 x), ucast (drop_bit 16 x), ucast (drop_bit 8 x), ucast x]"

definition from_be_bytes_u32 :: "bytes \<Rightarrow> u32" where
  "from_be_bytes_u32 b =
     push_bit 24 (ucast (b ! 0)) OR push_bit 16 (ucast (b ! 1)) OR push_bit 8 (ucast (b ! 2)) OR ucast (b ! 3)"

lemma length_to_be_bytes [simp]:
  "length (to_be_bytes_u16 x) = 2" "length (to_be_bytes_u32 y) = 4"
  by (simp_all add: to_be_bytes_u16_def to_be_bytes_u32_def)

lemma from_to_be_bytes_u16: "from_be_bytes_u16 (to_be_bytes_u16 x) = x"
  by (rule bit_word_eqI)
     (auto simp: from_be_bytes_u16_def to_be_bytes_u16_def bit_simps not_le less_diff_conv2)

lemma from_to_be_bytes_u32: "from_be_bytes_u32 (to_be_bytes_u32 x) = x"
  by (rule bit_word_eqI, auto simp: from_be_bytes_u32_def to_be_bytes_u32_def bit_simps not_le less_diff_conv2)
     (metis le_add_diff_inverse linorder_not_less)+

end
