(* ===== verification/Raw_Path.thy ===== *)
theory Raw_Path
  imports Prelude "HOL-Library.List_Lexorder" "HOL-Library.Sublist"
begin

text \<open>
  Paths of the trie (\<open>src/src/path.rs\<close>): \<open>RawPath\<close> as the fixed array of 128 nibbles with its
  length, with every operation of its \<open>impl\<close> block and its derived order; a value of the library
  type \<open>Nibbles\<close> is the sequence of its nibbles. \<open>raw_path_wf\<close> is the representation invariant
  (every nibble below 16, zero padding after the length); under it the operations are the list
  operations on \<open>raw_path_nibbles\<close>, and the derived order of the padded arrays is the
  lexicographic order of the paths.
\<close>

subsection \<open>Representation\<close>

type_synonym nibbles = "byte list"

datatype raw_path = RawPath (rp_nibbles: "byte list") (rp_len: nat)

definition ADDRESS_PATH_LENGTH :: nat where
  "ADDRESS_PATH_LENGTH = 64"

definition STORAGE_PATH_LENGTH :: nat where
  "STORAGE_PATH_LENGTH = ADDRESS_PATH_LENGTH * 2"

definition RAW_PATH_MAX_LEN :: nat where
  "RAW_PATH_MAX_LEN = 128"

definition is_nibble :: "byte \<Rightarrow> bool" where
  "is_nibble x \<longleftrightarrow> x \<le> 0x0f"

instantiation raw_path :: linorder
begin

definition less_eq_raw_path :: "raw_path \<Rightarrow> raw_path \<Rightarrow> bool" where
  "p \<le> q \<longleftrightarrow> rp_nibbles p < rp_nibbles q \<or> (rp_nibbles p = rp_nibbles q \<and> rp_len p \<le> rp_len q)"

definition less_raw_path :: "raw_path \<Rightarrow> raw_path \<Rightarrow> bool" where
  "p < q \<longleftrightarrow> rp_nibbles p < rp_nibbles q \<or> (rp_nibbles p = rp_nibbles q \<and> rp_len p < rp_len q)"

instance
  by standard (auto simp: less_eq_raw_path_def less_raw_path_def raw_path.expand)

end

subsection \<open>Operations\<close>

definition raw_path_new :: raw_path where
  "raw_path_new = RawPath (replicate RAW_PATH_MAX_LEN 0) 0"

definition raw_path_from_nibbles :: "byte list \<Rightarrow> (raw_path, 'e) result" where
  "raw_path_from_nibbles ns =
     (if length ns \<le> RAW_PATH_MAX_LEN then
        if list_all is_nibble ns then
          Ok (RawPath (write_at (rp_nibbles raw_path_new) 0 ns) (length ns))
        else Panic
      else Panic)"

definition raw_path_is_empty :: "raw_path \<Rightarrow> bool" where
  "raw_path_is_empty p \<longleftrightarrow> rp_len p = 0"

definition raw_path_nibbles :: "raw_path \<Rightarrow> byte list" where
  "raw_path_nibbles p = take (rp_len p) (rp_nibbles p)"

definition raw_path_get :: "raw_path \<Rightarrow> nat \<Rightarrow> byte option" where
  "raw_path_get p i = (if i < rp_len p then Some (rp_nibbles p ! i) else None)"

definition raw_path_get_unchecked :: "raw_path \<Rightarrow> nat \<Rightarrow> (byte, 'e) result" where
  "raw_path_get_unchecked p i = unwrap_option (raw_path_get p i)"

text \<open>\<open>slice(a..b)\<close>; the source's \<open>slice(a..)\<close> is \<open>raw_path_slice_from\<close>.\<close>

definition raw_path_slice :: "raw_path \<Rightarrow> nat \<Rightarrow> nat \<Rightarrow> (raw_path, 'e) result" where
  "raw_path_slice p a b =
     (case slice_range (raw_path_nibbles p) a b of
        None \<Rightarrow> Panic
      | Some ns \<Rightarrow> raw_path_from_nibbles ns)"

definition raw_path_slice_from :: "raw_path \<Rightarrow> nat \<Rightarrow> (raw_path, 'e) result" where
  "raw_path_slice_from p a = raw_path_slice p a (length (raw_path_nibbles p))"

definition raw_path_push :: "byte \<Rightarrow> raw_path \<Rightarrow> (raw_path, 'e) result" where
  "raw_path_push n p =
     (if \<not> is_nibble n then Panic
      else if rp_len p < length (rp_nibbles p) then
        Ok (RawPath ((rp_nibbles p)[rp_len p := n]) (u8_add (rp_len p) 1))
      else Panic)"

definition raw_path_pop :: "raw_path \<Rightarrow> (byte \<times> raw_path, 'e) result" where
  "raw_path_pop p =
     (if raw_path_nibbles p = [] then Panic
      else let i = length (raw_path_nibbles p) - 1 in
        Ok (rp_nibbles p ! i, RawPath ((rp_nibbles p)[i := 0]) (rp_len p - 1)))"

definition raw_path_extend :: "raw_path \<Rightarrow> raw_path \<Rightarrow> (raw_path, 'e) result" where
  "raw_path_extend p other =
     (if rp_len other \<le> length (rp_nibbles p) - rp_len p then
        Ok (RawPath (write_at (rp_nibbles p) (rp_len p) (raw_path_nibbles other))
              (u8_add (rp_len p) (rp_len other)))
      else Panic)"

definition raw_path_join :: "raw_path \<Rightarrow> raw_path \<Rightarrow> (raw_path, 'e) result" where
  "raw_path_join p other = raw_path_extend p other"

definition raw_path_starts_with :: "raw_path \<Rightarrow> raw_path \<Rightarrow> bool" where
  "raw_path_starts_with p other =
     (if rp_len p < rp_len other then False
      else take (rp_len other) (rp_nibbles p) = take (rp_len other) (rp_nibbles other))"

definition common_prefix_length :: "raw_path \<Rightarrow> raw_path \<Rightarrow> nat" where
  "common_prefix_length p other =
     length (takeWhile (\<lambda>(a, b). a = b) (zip (raw_path_nibbles p) (raw_path_nibbles other)))"

definition raw_path_truncate :: "nat \<Rightarrow> raw_path \<Rightarrow> (raw_path, 'e) result" where
  "raw_path_truncate n p =
     (if n \<le> RAW_PATH_MAX_LEN then
        Ok (RawPath (take n (rp_nibbles p) @ replicate (RAW_PATH_MAX_LEN - n) 0) n)
      else Panic)"

fun pack_nibbles :: "byte list \<Rightarrow> bytes" where
  "pack_nibbles (a # b # ns) = (push_bit 4 a OR b) # pack_nibbles ns"
| "pack_nibbles _ = []"

definition raw_path_pack :: "nat \<Rightarrow> raw_path \<Rightarrow> (bytes, 'e) result" where
  "raw_path_pack n p =
     (if 2 * n = rp_len p then Ok (pack_nibbles (raw_path_nibbles p)) else Panic)"

definition unpack_nibbles :: "bytes \<Rightarrow> byte list" where
  "unpack_nibbles bs = concat (map (\<lambda>b. [drop_bit 4 b, b AND 0x0f]) bs)"

definition raw_path_unpack :: "bytes \<Rightarrow> (raw_path, 'e) result" where
  "raw_path_unpack bs =
     (if length bs * 2 \<le> RAW_PATH_MAX_LEN then
        Ok (RawPath (write_at (rp_nibbles raw_path_new) 0 (unpack_nibbles bs)) (length bs * 2))
      else Panic)"

definition lower_64_nibbles :: "raw_path \<Rightarrow> nibbles" where
  "lower_64_nibbles p = take (min (length (raw_path_nibbles p)) 64) (raw_path_nibbles p)"

definition higher_64_nibbles :: "raw_path \<Rightarrow> nibbles" where
  "higher_64_nibbles p =
     (if 64 \<le> length (raw_path_nibbles p) then drop 64 (raw_path_nibbles p) else [])"

text \<open>\<open>FromIterator\<close> writes the items one by one, without the nibble check of \<open>from_nibbles\<close>.\<close>

fun raw_path_from_iter_loop :: "byte list \<Rightarrow> raw_path \<Rightarrow> (raw_path, 'e) result" where
  "raw_path_from_iter_loop [] p = Ok p"
| "raw_path_from_iter_loop (n # ns) p =
     (if rp_len p < length (rp_nibbles p) then
        raw_path_from_iter_loop ns
          (RawPath ((rp_nibbles p)[rp_len p := n]) (u8_add (rp_len p) 1))
      else Panic)"

definition raw_path_from_iter :: "byte list \<Rightarrow> (raw_path, 'e) result" where
  "raw_path_from_iter ns = raw_path_from_iter_loop ns raw_path_new"

definition raw_path_of_nibbles :: "nibbles \<Rightarrow> (raw_path, 'e) result" where
  "raw_path_of_nibbles ns = raw_path_from_iter ns"

datatype path_error = TryFromRawPathError raw_path

definition nibbles_try_from :: "raw_path \<Rightarrow> (nibbles, path_error) result" where
  "nibbles_try_from p =
     (if rp_len p \<le> 64 then Ok (raw_path_nibbles p) else Err (TryFromRawPathError p))"

subsection \<open>Address and storage paths\<close>

record address_path =
  ap_path :: nibbles

record storage_path =
  sp_address :: address_path
  sp_slot :: nibbles

definition address_path_new :: "nibbles \<Rightarrow> (address_path, 'e) result" where
  "address_path_new ns = (if length ns = ADDRESS_PATH_LENGTH then Ok \<lparr>ap_path = ns\<rparr> else Panic)"

text \<open>\<open>keccak256\<close> and \<open>Nibbles::unpack\<close> of the alloy crates are arguments.\<close>

definition address_path_for_address ::
  "(bytes \<Rightarrow> bytes) \<Rightarrow> (bytes \<Rightarrow> nibbles) \<Rightarrow> bytes \<Rightarrow> address_path" where
  "address_path_for_address keccak unpack address = \<lparr>ap_path = unpack (keccak address)\<rparr>"

definition storage_path_for_address_and_slot ::
  "(bytes \<Rightarrow> bytes) \<Rightarrow> (bytes \<Rightarrow> nibbles) \<Rightarrow> bytes \<Rightarrow> bytes \<Rightarrow> storage_path" where
  "storage_path_for_address_and_slot keccak unpack address slot =
     \<lparr>sp_address = address_path_for_address keccak unpack address, sp_slot = unpack (keccak slot)\<rparr>"

definition storage_path_for_address_path_and_slot ::
  "(bytes \<Rightarrow> bytes) \<Rightarrow> (bytes \<Rightarrow> nibbles) \<Rightarrow> address_path \<Rightarrow> bytes \<Rightarrow> storage_path" where
  "storage_path_for_address_path_and_slot keccak unpack a slot =
     \<lparr>sp_address = a, sp_slot = unpack (keccak slot)\<rparr>"

definition storage_path_for_address_path_and_slot_hash :: "address_path \<Rightarrow> nibbles \<Rightarrow> storage_path" where
  "storage_path_for_address_path_and_slot_hash a slot_hash = \<lparr>sp_address = a, sp_slot = slot_hash\<rparr>"

definition get_slot_offset :: "storage_path \<Rightarrow> nat" where
  "get_slot_offset s = length (ap_path (sp_address s))"

definition raw_path_of_address :: "address_path \<Rightarrow> (raw_path, 'e) result" where
  "raw_path_of_address a = raw_path_of_nibbles (ap_path a)"

definition raw_path_of_storage :: "storage_path \<Rightarrow> (raw_path, 'e) result" where
  "raw_path_of_storage s =
     bind_result (raw_path_of_address (sp_address s)) (\<lambda>a.
     bind_result (raw_path_of_nibbles (sp_slot s)) (\<lambda>b. raw_path_join a b))"

subsection \<open>The representation invariant\<close>

definition raw_path_wf :: "raw_path \<Rightarrow> bool" where
  "raw_path_wf p \<longleftrightarrow>
     length (rp_nibbles p) = 128 \<and> rp_len p \<le> 128 \<and>
     list_all is_nibble (raw_path_nibbles p) \<and>
     drop (rp_len p) (rp_nibbles p) = replicate (128 - rp_len p) 0"

text \<open>The path with a given sequence of nibbles, in its unique well-formed representation.\<close>

definition path_of :: "byte list \<Rightarrow> raw_path" where
  "path_of ns = RawPath (ns @ replicate (128 - length ns) 0) (length ns)"

definition nibble_list :: "byte list \<Rightarrow> bool" where
  "nibble_list ns \<longleftrightarrow> length ns \<le> 128 \<and> list_all is_nibble ns"

lemma path_of_wf [simp]: "nibble_list ns \<Longrightarrow> raw_path_wf (path_of ns)"
  by (simp add: raw_path_wf_def path_of_def nibble_list_def raw_path_nibbles_def)

lemma raw_path_nibbles_path_of [simp]: "raw_path_nibbles (path_of ns) = ns"
  by (simp add: raw_path_nibbles_def path_of_def)

lemma rp_len_path_of [simp]: "rp_len (path_of ns) = length ns"
  by (simp add: path_of_def)

lemma raw_path_wf_eq_path_of: "raw_path_wf p \<Longrightarrow> p = path_of (raw_path_nibbles p)"
  by (cases p) (auto simp: raw_path_wf_def path_of_def raw_path_nibbles_def min_absorb2,
      metis append_take_drop_id)

lemma raw_path_wf_cases:
  assumes "raw_path_wf p"
  obtains ns where "nibble_list ns" and "p = path_of ns"
proof
  show "p = path_of (raw_path_nibbles p)" by (rule raw_path_wf_eq_path_of [OF assms])
  show "nibble_list (raw_path_nibbles p)"
    using assms by (simp add: nibble_list_def raw_path_wf_def raw_path_nibbles_def min_absorb2)
qed

lemma raw_path_wf_len: "raw_path_wf p \<Longrightarrow> length (raw_path_nibbles p) = rp_len p"
  by (simp add: raw_path_wf_def raw_path_nibbles_def)

subsection \<open>The operations on well-formed paths\<close>

lemma raw_path_new_eq: "raw_path_new = path_of []"
  by (simp add: raw_path_new_def path_of_def RAW_PATH_MAX_LEN_def)

lemma raw_path_from_nibbles_eq:
  "raw_path_from_nibbles ns = (if nibble_list ns then Ok (path_of ns) else Panic)"
  by (simp add: raw_path_from_nibbles_def nibble_list_def raw_path_new_def path_of_def write_at_def
      RAW_PATH_MAX_LEN_def)

lemma nibble_list_subl: "nibble_list ns \<Longrightarrow> nibble_list (subl ns a n)"
  by (auto simp: nibble_list_def subl_def list_all_iff dest: in_set_takeD in_set_dropD)

lemma raw_path_slice_eq:
  "nibble_list ns \<Longrightarrow> raw_path_slice (path_of ns) a b =
     (if a \<le> b \<and> b \<le> length ns then Ok (path_of (subl ns a (b - a))) else Panic)"
  by (simp add: raw_path_slice_def slice_range_def raw_path_from_nibbles_eq nibble_list_subl)

lemma raw_path_slice_from_eq:
  "nibble_list ns \<Longrightarrow> raw_path_slice_from (path_of ns) a =
     (if a \<le> length ns then Ok (path_of (drop a ns)) else Panic)"
  by (simp add: raw_path_slice_from_def raw_path_slice_eq subl_def)

lemma raw_path_push_eq:
  assumes "nibble_list ns"
  shows "raw_path_push n (path_of ns) =
    (if is_nibble n \<and> length ns < 128 then Ok (path_of (ns @ [n])) else Panic)"
proof (cases "is_nibble n \<and> length ns < 128")
  case True
  then obtain k where k: "128 - length ns = Suc k" by (metis Suc_diff_Suc)
  then have "128 - Suc (length ns) = k" by simp
  with True k show ?thesis
    by (simp add: raw_path_push_def path_of_def list_update_append)
next
  case False
  with assms show ?thesis by (auto simp: raw_path_push_def path_of_def nibble_list_def)
qed

lemma raw_path_pop_eq:
  assumes "nibble_list ns"
  shows "raw_path_pop (path_of ns) =
    (if ns = [] then Panic else Ok (last ns, path_of (butlast ns)))"
proof (cases ns rule: rev_cases)
  case Nil
  then show ?thesis by (simp add: raw_path_pop_def)
next
  case (snoc ys y)
  with assms have "length ys < 128" by (simp add: nibble_list_def)
  then have "128 - length ys = Suc (128 - Suc (length ys))" by simp
  with snoc show ?thesis
    by (simp add: raw_path_pop_def raw_path_nibbles_def path_of_def Let_def list_update_append
        nth_append)
qed

lemma raw_path_extend_eq:
  assumes "nibble_list ns" and "nibble_list ms"
  shows "raw_path_extend (path_of ns) (path_of ms) =
    (if length ns + length ms \<le> 128 then Ok (path_of (ns @ ms)) else Panic)"
  using assms by (auto simp: raw_path_extend_def path_of_def write_at_def raw_path_nibbles_def nibble_list_def)

lemma raw_path_truncate_eq:
  "n \<le> length ns \<Longrightarrow> nibble_list ns \<Longrightarrow> raw_path_truncate n (path_of ns) = Ok (path_of (take n ns))"
  by (simp add: raw_path_truncate_def path_of_def RAW_PATH_MAX_LEN_def nibble_list_def)

lemma raw_path_from_iter_loop_eq:
  "length ns \<le> 128 \<Longrightarrow> raw_path_from_iter_loop ms (path_of ns) =
     (if length ns + length ms \<le> 128 then Ok (path_of (ns @ ms)) else Panic)"
proof (induction ms arbitrary: ns)
  case Nil
  then show ?case by simp
next
  case (Cons m ms)
  show ?case
  proof (cases "length ns < 128")
    case True
    then have "128 - length ns = Suc (128 - Suc (length ns))" by simp
    then have "(ns @ replicate (128 - length ns) 0)[length ns := m] =
        (ns @ [m]) @ replicate (128 - length (ns @ [m])) 0"
      by (simp add: list_update_append del: replicate_Suc) simp
    with True Cons.IH [of "ns @ [m]"] show ?thesis by (simp add: path_of_def)
  next
    case False
    with Cons.prems show ?thesis by (auto simp: path_of_def)
  qed
qed

lemma raw_path_of_nibbles_eq:
  "raw_path_of_nibbles ns = (if length ns \<le> 128 then Ok (path_of ns) else Panic)"
  by (simp add: raw_path_of_nibbles_def raw_path_from_iter_def raw_path_new_eq raw_path_from_iter_loop_eq)

lemma common_prefix_length_path_of:
  "common_prefix_length (path_of ns) (path_of ms) = length (longest_common_prefix ns ms)"
  by (simp add: common_prefix_length_def, induction ns ms rule: longest_common_prefix.induct) auto

lemmas raw_path_ops = raw_path_from_nibbles_eq raw_path_slice_eq raw_path_slice_from_eq
  raw_path_push_eq raw_path_pop_eq raw_path_extend_eq raw_path_truncate_eq raw_path_of_nibbles_eq
  common_prefix_length_path_of

subsection \<open>The derived order\<close>

lemma zeros_le: "length (xs :: byte list) = n \<Longrightarrow> replicate n 0 < xs \<or> replicate n 0 = xs"
  by (induction xs arbitrary: n) (auto simp: word_gt_0)

lemma padded_less_iff:
  fixes ns ms :: "byte list"
  assumes "length ns \<le> n" and "length ms \<le> n"
  shows "(ns @ replicate (n - length ns) 0 < ms @ replicate (n - length ms) 0 \<or>
          (ns @ replicate (n - length ns) 0 = ms @ replicate (n - length ms) 0 \<and> length ns \<le> length ms))
         \<longleftrightarrow> ns \<le> ms"
  using assms
proof (induction ns ms arbitrary: n rule: list_induct2')
  case 1
  then show ?case by simp
next
  case (2 x xs)
  then have "replicate n 0 < (x # xs) @ replicate (n - length (x # xs)) 0 \<or>
      replicate n 0 = (x # xs) @ replicate (n - length (x # xs)) 0"
    by (intro zeros_le) simp
  then show ?case by auto
next
  case (3 y ys)
  then have "replicate n 0 < (y # ys) @ replicate (n - length (y # ys)) 0 \<or>
      replicate n 0 = (y # ys) @ replicate (n - length (y # ys)) 0"
    by (intro zeros_le) simp
  then show ?case by auto
next
  case (4 x xs y ys)
  then obtain k where "n = Suc k" by (cases n) auto
  with 4 show ?case by auto
qed

lemma path_of_le_iff:
  "nibble_list ns \<Longrightarrow> nibble_list ms \<Longrightarrow> path_of ns \<le> path_of ms \<longleftrightarrow> ns \<le> ms"
  using padded_less_iff [of ns 128 ms]
  by (simp add: less_eq_raw_path_def path_of_def nibble_list_def)

lemma path_of_inject [simp]: "path_of ns = path_of ms \<longleftrightarrow> ns = ms"
  by (metis raw_path_nibbles_path_of)

subsection \<open>Packing\<close>

lemma unat_drop_bit_4: "unat (drop_bit 4 (b :: byte)) = unat b div 16"
  by (simp add: unat_drop_bit_eq) (simp add: drop_bit_eq_div)

lemma is_nibble_drop_bit [simp]: "is_nibble (drop_bit 4 b)"
proof -
  have "unat b < 256" by simp
  then have "unat b div 16 \<le> 15" by linarith
  then show ?thesis by (simp add: is_nibble_def word_le_nat_alt unat_drop_bit_4)
qed

lemma is_nibble_high_bits: "is_nibble x \<Longrightarrow> drop_bit 4 x = 0"
  by (simp add: is_nibble_def word_le_nat_alt unat_drop_bit_4 flip: unat_eq_zero)

lemma nibble_pair:
  assumes "is_nibble a" and "is_nibble b"
  shows "drop_bit 4 (push_bit 4 a OR b) = a" and "(push_bit 4 a OR b) AND 0x0f = b"
proof -
  have hi: "\<not> bit x i" if "is_nibble x" and "4 \<le> i" for x :: byte and i
  proof -
    have "bit x i = bit (drop_bit 4 x) (i - 4)" using that(2) by (simp add: bit_drop_bit_eq)
    then show ?thesis by (simp add: is_nibble_high_bits [OF that(1)])
  qed
  have mask: "(0x0f :: byte) = mask 4" by (simp add: mask_eq_exp_minus_1)
  show "drop_bit 4 (push_bit 4 a OR b) = a"
    using hi [OF assms(1)] hi [OF assms(2)]
    by (intro bit_word_eqI) (auto simp: bit_simps, meson linorder_not_le)
  show "(push_bit 4 a OR b) AND 0x0f = b"
    using hi [OF assms(2)] unfolding mask
    by (intro bit_word_eqI) (auto simp: bit_simps, meson linorder_not_le)
qed

lemma is_nibble_and_15 [simp]: "is_nibble (b AND 0x0f)"
  by (simp add: is_nibble_def word_and_le1)

lemma unpack_nibbles_simps [simp]:
  "unpack_nibbles [] = []"
  "unpack_nibbles (b # bs) = drop_bit 4 b # (b AND 0x0f) # unpack_nibbles bs"
  by (simp_all add: unpack_nibbles_def)

lemma length_unpack_nibbles [simp]: "length (unpack_nibbles bs) = 2 * length bs"
  by (induction bs) auto

lemma is_nibble_unpack [simp]: "list_all is_nibble (unpack_nibbles bs)"
  by (induction bs) auto

lemma unpack_pack_nibbles:
  "list_all is_nibble ns \<Longrightarrow> even (length ns) \<Longrightarrow> unpack_nibbles (pack_nibbles ns) = ns"
  by (induction ns rule: pack_nibbles.induct) (auto simp: nibble_pair simp del: drop_bit_or)

lemma length_pack_nibbles: "length (pack_nibbles ns) = length ns div 2"
  by (induction ns rule: pack_nibbles.induct) auto

lemma pack_unpack_nibbles: "pack_nibbles (unpack_nibbles bs) = bs"
proof (induction bs)
  case (Cons b bs)
  have "push_bit 4 (drop_bit 4 b) OR (b AND mask 4) = b"
    by (intro bit_word_eqI) (auto simp: bit_simps)
  with Cons show ?case by (simp add: mask_eq_exp_minus_1)
qed simp

lemma raw_path_unpack_eq:
  "raw_path_unpack bs = (if length bs \<le> 64 then Ok (path_of (unpack_nibbles bs)) else Panic)"
  by (simp add: raw_path_unpack_def RAW_PATH_MAX_LEN_def raw_path_new_def path_of_def write_at_def
      mult.commute)

lemma raw_path_starts_with_eq:
  assumes "nibble_list ns" and "nibble_list ms"
  shows "raw_path_starts_with (path_of ns) (path_of ms) = prefix ms ns"
proof (cases "length ns < length ms")
  case True
  then show ?thesis by (auto simp: raw_path_starts_with_def prefix_def)
next
  case False
  then have "raw_path_starts_with (path_of ns) (path_of ms) \<longleftrightarrow> take (length ms) ns = ms"
    by (simp add: raw_path_starts_with_def path_of_def)
  then show ?thesis by (metis append_eq_conv_conj append_take_drop_id prefix_def)
qed

lemma raw_path_truncate_cases:
  assumes "nibble_list ns"
  shows "raw_path_truncate n (path_of ns) =
    (if n \<le> 128 then Ok (path_of (take n ns @ replicate (n - length ns) 0)) else Panic)"
proof (cases "n \<le> length ns")
  case True
  with assms show ?thesis by (simp add: raw_path_truncate_eq nibble_list_def)
next
  case False
  with assms show ?thesis
    by (simp add: raw_path_truncate_def path_of_def RAW_PATH_MAX_LEN_def nibble_list_def min_def flip: replicate_add)
qed

lemma raw_path_get_eq: "raw_path_get (path_of ns) i = (if i < length ns then Some (ns ! i) else None)"
  by (simp add: raw_path_get_def path_of_def nth_append)

lemma nibble_list_parts:
  assumes "nibble_list ns"
  shows "nibble_list (butlast ns)" "nibble_list (take k ns)" "nibble_list (drop k ns)"
    "is_nibble n \<Longrightarrow> length ns < 128 \<Longrightarrow> nibble_list (ns @ [n])"
    "k \<le> 128 \<Longrightarrow> nibble_list (take k ns @ replicate (k - length ns) 0)"
    "nibble_list ms \<Longrightarrow> length ns + length ms \<le> 128 \<Longrightarrow> nibble_list (ns @ ms)"
  using assms by (auto simp: nibble_list_def list_all_iff is_nibble_def dest: in_set_butlastD in_set_takeD in_set_dropD)

lemmas raw_path_eqs = raw_path_new_eq raw_path_get_eq raw_path_from_nibbles_eq raw_path_push_eq raw_path_pop_eq raw_path_join_def
  raw_path_extend_eq raw_path_slice_eq raw_path_slice_from_eq subl_def raw_path_starts_with_eq common_prefix_length_path_of
  raw_path_truncate_cases raw_path_of_nibbles_eq [unfolded raw_path_of_nibbles_def]
  raw_path_is_empty_def raw_path_get_unchecked_def lower_64_nibbles_def higher_64_nibbles_def nibbles_try_from_def

lemma raw_path_wf_kept:
  assumes "raw_path_wf p" and "raw_path_wf q"
    and "raw_path_push n p = Ok r \<or> raw_path_extend p q = Ok r \<or> raw_path_join p q = Ok r \<or> raw_path_slice p a b = Ok r \<or>
      raw_path_slice_from p a = Ok r \<or> raw_path_truncate k p = Ok r \<or> raw_path_from_nibbles ns = Ok r \<or> (\<exists>m. raw_path_pop p = Ok (m, r))"
  shows "raw_path_wf r"
proof -
  from assms(1,2) obtain xs ys where pq: "nibble_list xs" "p = path_of xs" "nibble_list ys" "q = path_of ys"
    by (metis raw_path_wf_cases)
  from assms(3) pq(1,3) nibble_list_parts [OF pq(1)] nibble_list_parts(2) [OF nibble_list_parts(3) [OF pq(1)]] show ?thesis unfolding pq(2,4)
    by (elim disjE) (auto simp: raw_path_eqs split: if_splits)
qed

subsection \<open>Correctness of paths\<close>



text \<open>
  C35. The order derived for \<open>RawPath\<close>, which compares the zero-padded arrays and then the lengths,
  is the lexicographic order of the nibble sequences: sorting changes by \<open>RawPath\<close> puts an account
  before its storage slots and groups the paths below a branch.
\<close>

theorem raw_path_order_lexicographic:
  assumes "raw_path_wf p" and "raw_path_wf q"
  shows "p \<le> q \<longleftrightarrow> raw_path_nibbles p \<le> raw_path_nibbles q"
  using assms by (elim raw_path_wf_cases) (simp add: path_of_le_iff)

theorem raw_path_order_lexicographic_witness:
  "path_of [1, 2] \<le> path_of [1, 2, 0] \<longleftrightarrow> [1, 2] \<le> [1, 2, 0 :: byte]"
  using raw_path_order_lexicographic [of "path_of [1, 2]" "path_of [1, 2, 0]"]
  by (simp add: nibble_list_def is_nibble_def)

text \<open>
  C36. \<open>pack\<close> and \<open>unpack\<close> are inverse to each other on paths of even length.
\<close>

theorem raw_path_pack_unpack:
  assumes "raw_path_wf p" and "rp_len p = 2 * n"
  shows "bind_result (raw_path_pack n p) raw_path_unpack = Ok p"
proof -
  from assms(1) obtain ns where ns: "nibble_list ns" "p = path_of ns" by (rule raw_path_wf_cases)
  with assms(2) have "length ns = 2 * n" "length ns \<le> 128" by (simp_all add: nibble_list_def)
  with ns show ?thesis
    by (simp add: raw_path_pack_def raw_path_unpack_eq length_pack_nibbles unpack_pack_nibbles
        nibble_list_def)
qed

theorem raw_path_pack_unpack_witness:
  "bind_result (raw_path_pack 2 (path_of [1, 2, 3, 4])) raw_path_unpack = Ok (path_of [1, 2, 3, 4])"
  by (rule raw_path_pack_unpack) (simp_all add: nibble_list_def is_nibble_def)

end
