(* ===== verification/Externals.thy ===== *)
theory Externals
  imports Raw_Path
begin

text \<open>
  The library functions the crate calls (alloy-primitives, alloy-rlp, alloy-trie, fxhash), as one
  record of parameters. Nothing is assumed of them in a definition; a theorem that relies on their
  documented behaviour names it as a hypothesis, one of the predicates of this theory:
  \<^item> \<open>rlp_node_laws\<close>: an \<open>RlpNode\<close> holds at most 33 bytes, is a hash exactly when it has 33 bytes,
    \<open>word_rlp\<close> prefixes a 32-byte word with \<open>0xa0\<close>, and \<open>from_rlp\<close> keeps an encoding of fewer
    than 32 bytes and replaces a longer one by the hash of it;
  \<^item> \<open>nibble_pack_laws\<close>: \<open>Nibbles::pack_to\<close> puts two nibbles into a byte, the last one of an odd
    sequence into the high half;
  \<^item> \<open>rlp_int_laws\<close>: the RLP encoding of a \<open>u64\<close> or \<open>U256\<close> is a single byte up to \<open>0x80\<close> or a
    length byte followed by that many bytes, and decoding inverts it;
  \<^item> \<open>rlp_list_laws\<close>: a header takes \<open>length_of_length\<close> bytes, and the encodings of a leaf and an extension are
    at most as long as the RLP list of the packed key and the value or child.
  \<open>sample_externals\<close> is a concrete instance that satisfies all of them (with a constant in place of
  the hash functions), so that the hypotheses are shown to be satisfiable.
\<close>

record externals =
  x_keccak256 :: "bytes \<Rightarrow> bytes"
  x_nibbles_unpack :: "bytes \<Rightarrow> nibbles"
  x_pack_to :: "nibbles \<Rightarrow> bytes"
  x_word_rlp :: "bytes \<Rightarrow> bytes"
  x_from_raw :: "bytes \<Rightarrow> bytes option"
  x_from_rlp :: "bytes \<Rightarrow> bytes"
  x_is_hash :: "bytes \<Rightarrow> bool"
  x_as_hash :: "bytes \<Rightarrow> bytes option"
  x_encode_u64 :: "u64 \<Rightarrow> bytes"
  x_decode_u64 :: "bytes \<Rightarrow> u64 option"
  x_encode_u256 :: "u256 \<Rightarrow> bytes"
  x_decode_u256 :: "bytes \<Rightarrow> u256 option"
  x_list_header :: "nat \<Rightarrow> bytes"
  x_length_of_length :: "nat \<Rightarrow> nat"
  x_leaf_encode :: "nibbles \<Rightarrow> bytes \<Rightarrow> bytes"
  x_extension_encode :: "nibbles \<Rightarrow> bytes \<Rightarrow> bytes"
  x_empty_root_hash :: bytes
  x_keccak_empty :: bytes
  x_hash64 :: "bytes \<Rightarrow> u64"

definition rlp_node_laws :: "externals \<Rightarrow> bool" where
  "rlp_node_laws E \<longleftrightarrow>
     (\<forall>h. length h = 32 \<longrightarrow> x_word_rlp E h = 0xa0 # h) \<and>
     (\<forall>r. x_is_hash E r \<longleftrightarrow> length r = 33) \<and>
     (\<forall>r. x_as_hash E r = (if length r = 33 then Some (tl r) else None)) \<and>
     (\<forall>r. x_from_raw E r = (if length r \<le> 33 then Some r else None)) \<and>
     (\<forall>r. x_from_rlp E r = (if length r < 32 then r else x_word_rlp E (x_keccak256 E r))) \<and>
     (\<forall>r. length (x_keccak256 E r) = 32)"

definition nibble_pack_laws :: "externals \<Rightarrow> bool" where
  "nibble_pack_laws E \<longleftrightarrow>
     x_pack_to E [] = [] \<and> (\<forall>a. x_pack_to E [a] = [push_bit 4 a]) \<and>
     (\<forall>a b ns. x_pack_to E (a # b # ns) = (push_bit 4 a OR b) # x_pack_to E ns)"

text \<open>The shape of an RLP byte string that encodes an integer in at most \<open>n\<close> bytes.\<close>

definition rlp_int_string :: "nat \<Rightarrow> bytes \<Rightarrow> bool" where
  "rlp_int_string n bs \<longleftrightarrow>
     (\<exists>h t. bs = h # t \<and> (if h \<le> 128 then t = [] else unat h = 128 + length t \<and> length t < n))"

definition rlp_int_laws :: "externals \<Rightarrow> bool" where
  "rlp_int_laws E \<longleftrightarrow>
     (\<forall>x. rlp_int_string 9 (x_encode_u64 E x) \<and> x_decode_u64 E (x_encode_u64 E x) = Some x) \<and>
     (\<forall>x. rlp_int_string 33 (x_encode_u256 E x) \<and> x_decode_u256 E (x_encode_u256 E x) = Some x)"

text \<open>
  The length of a list or string with a payload of \<open>n\<close> bytes, and of a key: its nibbles are packed behind
  a flag nibble.
\<close>

definition rlp_length :: "externals \<Rightarrow> nat \<Rightarrow> nat" where
  "rlp_length E n = x_length_of_length E n + n"

definition key_length :: "externals \<Rightarrow> nibbles \<Rightarrow> nat" where
  "key_length E k = rlp_length E (length k div 2 + 1)"

definition rlp_list_laws :: "externals \<Rightarrow> bool" where
  "rlp_list_laws E \<longleftrightarrow>
     (\<forall>n < 2 ^ 16. x_length_of_length E n = (if n < 56 then 1 else if n < 256 then 2 else 3)) \<and>
     (\<forall>n. length (x_list_header E n) = x_length_of_length E n) \<and>
     (\<forall>k v. length (x_leaf_encode E k v) \<le> rlp_length E (key_length E k + rlp_length E (length v))) \<and>
     (\<forall>k c. length (x_extension_encode E k c) \<le> rlp_length E (key_length E k + length c))"

subsection \<open>A concrete instance\<close>

fun sample_pack :: "nibbles \<Rightarrow> bytes" where
  "sample_pack [] = []"
| "sample_pack [a] = [push_bit 4 a]"
| "sample_pack (a # b # ns) = (push_bit 4 a OR b) # sample_pack ns"

text \<open>Big-endian digits of a number, without leading zeros.\<close>

fun be_digits :: "nat \<Rightarrow> bytes" where
  "be_digits n = (if n = 0 then [] else be_digits (n div 256) @ [of_nat (n mod 256)])"

declare be_digits.simps [simp del]

definition be_value :: "bytes \<Rightarrow> nat" where
  "be_value bs = foldl (\<lambda>acc b. acc * 256 + unat b) 0 bs"

definition sample_encode :: "nat \<Rightarrow> bytes" where
  "sample_encode n =
     (if 0 < n \<and> n < 128 then [of_nat n]
      else of_nat (128 + length (be_digits n)) # be_digits n)"

definition sample_decode :: "bytes \<Rightarrow> nat option" where
  "sample_decode bs = (case bs of [] \<Rightarrow> None
     | h # t \<Rightarrow> if h < 128 then (if t = [] then Some (unat h) else None)
         else if unat h = 128 + length t then Some (be_value t) else None)"

definition sample_externals :: externals where
  "sample_externals =
     \<lparr>x_keccak256 = (\<lambda>_. replicate 32 7),
      x_nibbles_unpack = unpack_nibbles,
      x_pack_to = sample_pack,
      x_word_rlp = (\<lambda>h. 0xa0 # h),
      x_from_raw = (\<lambda>r. if length r \<le> 33 then Some r else None),
      x_from_rlp = (\<lambda>r. if length r < 32 then r else 0xa0 # replicate 32 7),
      x_is_hash = (\<lambda>r. length r = 33),
      x_as_hash = (\<lambda>r. if length r = 33 then Some (tl r) else None),
      x_encode_u64 = (\<lambda>x. sample_encode (unat x)),
      x_decode_u64 = (\<lambda>bs. map_option of_nat (sample_decode bs)),
      x_encode_u256 = (\<lambda>x. sample_encode (unat x)),
      x_decode_u256 = (\<lambda>bs. map_option of_nat (sample_decode bs)),
      x_list_header = (\<lambda>n. if n < 56 then [0xc0 + of_nat n] else if n < 256 then [0xf8, of_nat n] else [0xf9, of_nat (n div 256), of_nat n]),
      x_length_of_length = (\<lambda>n. if n < 56 then 1 else if n < 256 then 2 else 3),
      x_leaf_encode = (\<lambda>k v. sample_pack k @ v),
      x_extension_encode = (\<lambda>k c. sample_pack k @ c),
      x_empty_root_hash = replicate 32 1,
      x_keccak_empty = replicate 32 2,
      x_hash64 = (\<lambda>bs. of_nat (1 + sum_list (map unat bs)))\<rparr>"

lemma be_value_snoc: "be_value (bs @ [b]) = be_value bs * 256 + unat b"
  by (simp add: be_value_def)

lemma be_value_digits: "be_value (be_digits n) = n"
proof (induction n rule: be_digits.induct)
  case (1 n)
  show ?case
  proof (cases "n = 0")
    case True
    then show ?thesis by (simp add: be_digits.simps be_value_def)
  next
    case False
    have "be_digits n = be_digits (n div 256) @ [of_nat (n mod 256)]"
      using False by (subst be_digits.simps) simp
    then show ?thesis using 1 [OF False] by (simp add: be_value_snoc unat_of_nat)
  qed
qed

lemma length_be_digits: "n < 256 ^ k \<Longrightarrow> length (be_digits n) \<le> k"
proof (induction k arbitrary: n)
  case 0
  then show ?case by (simp add: be_digits.simps)
next
  case (Suc k)
  then have "n div 256 < 256 ^ k" by (simp add: less_mult_imp_div_less mult.commute)
  then have "length (be_digits (n div 256)) \<le> k" by (rule Suc.IH)
  then show ?case by (subst be_digits.simps) simp
qed

lemma sample_encode_string:
  assumes "n < 256 ^ k" and "k \<le> 32"
  shows "rlp_int_string (Suc k) (sample_encode n)" and "sample_decode (sample_encode n) = Some n"
proof -
  have len: "length (be_digits n) \<le> k" by (rule length_be_digits [OF assms(1)])
  then have small: "128 + length (be_digits n) < 256" using assms(2) by simp
  then have hd: "unat (of_nat (128 + length (be_digits n)) :: byte) = 128 + length (be_digits n)"
    by (subst unat_of_nat) simp
  have ge: "\<not> (of_nat (128 + length (be_digits n)) :: byte) < 128"
    unfolding word_less_nat_alt hd by simp
  have le: "(of_nat (128 + length (be_digits n)) :: byte) \<le> 128 \<longleftrightarrow> be_digits n = []"
    unfolding word_le_nat_alt hd by simp
  have one: "unat (of_nat n :: byte) = n" if "n < 128" using that by (subst unat_of_nat) simp
  show "rlp_int_string (Suc k) (sample_encode n)"
    using len hd le one by (auto simp: rlp_int_string_def sample_encode_def word_le_nat_alt)
  show "sample_decode (sample_encode n) = Some n"
    using hd ge one be_value_digits [of n]
    by (auto simp: sample_decode_def sample_encode_def word_less_nat_alt)
qed

lemma sample_rlp_node_laws: "rlp_node_laws sample_externals"
  by (simp add: rlp_node_laws_def sample_externals_def)

lemma sample_nibble_pack_laws: "nibble_pack_laws sample_externals"
  by (simp add: nibble_pack_laws_def sample_externals_def)

lemma sample_rlp_int_laws: "rlp_int_laws sample_externals"
proof -
  have b64: "unat x < 256 ^ 8" for x :: u64 using unsigned_less [of x, where ?'a = nat] by simp
  have b256: "unat x < 256 ^ 32" for x :: u256 using unsigned_less [of x, where ?'a = nat] by simp
  show ?thesis
    using sample_encode_string [OF b64] sample_encode_string [OF b256]
    by (simp add: rlp_int_laws_def sample_externals_def)
qed

lemma length_sample_pack [simp]: "length (sample_pack ns) = (length ns + 1) div 2"
  by (induction ns rule: sample_pack.induct) simp_all

lemma sample_rlp_list_laws: "rlp_list_laws sample_externals"
  by (auto simp: rlp_list_laws_def key_length_def rlp_length_def sample_externals_def)

lemmas sample_laws = sample_rlp_node_laws sample_nibble_pack_laws sample_rlp_int_laws

subsection \<open>Consequences used by the codecs\<close>

lemma rlp_node_lawsD:
  assumes "rlp_node_laws E"
  shows "length h = 32 \<Longrightarrow> x_word_rlp E h = 0xa0 # h"
    and "x_is_hash E r \<longleftrightarrow> length r = 33"
    and "x_as_hash E r = (if length r = 33 then Some (tl r) else None)"
    and "x_from_raw E r = (if length r \<le> 33 then Some r else None)"
    and "x_from_rlp E r = (if length r < 32 then r else 0xa0 # x_keccak256 E r)"
    and "length (x_keccak256 E r) = 32"
  using assms by (simp_all add: rlp_node_laws_def)

lemma nibble_pack_lawsD:
  assumes "nibble_pack_laws E"
  shows "length (x_pack_to E ns) = (length ns + 1) div 2"
    and "list_all is_nibble ns \<Longrightarrow> unpack_nibbles (x_pack_to E ns) = (if even (length ns) then ns else ns @ [0])"
proof -
  have p: "x_pack_to E [] = []" "\<And>a. x_pack_to E [a] = [push_bit 4 a]"
    "\<And>a b ns. x_pack_to E (a # b # ns) = (push_bit 4 a OR b) # x_pack_to E ns"
    using assms by (simp_all add: nibble_pack_laws_def)
  show "length (x_pack_to E ns) = (length ns + 1) div 2"
    by (induction ns rule: sample_pack.induct) (simp_all add: p)
  show "list_all is_nibble ns \<Longrightarrow> unpack_nibbles (x_pack_to E ns) = (if even (length ns) then ns else ns @ [0])"
  proof (induction ns rule: sample_pack.induct)
    case (2 a)
    then show ?case using nibble_pair [of a 0] by (simp add: p is_nibble_def)
  next
    case (3 a b ns)
    then show ?case by (simp add: p nibble_pair del: drop_bit_or)
  qed (simp add: p)
qed

lemma rlp_int_string_Cons:
  "rlp_int_string n (h # t) \<longleftrightarrow> (if h \<le> 128 then t = [] else unat h = 128 + length t \<and> length t < n)"
  by (auto simp: rlp_int_string_def)

end
