(* ===== verification/Value_Codec.thy ===== *)
theory Value_Codec
  imports Prelude
begin

text \<open>
  The \<open>Value\<close> trait of \<open>src/src/storage/value.rs\<close>: the operations a type offers in order to be
  stored in a page cell, as a record, and the contract its implementations keep, as a locale. The
  locale is interpreted by \<open>Vec<u8>\<close> here, by \<open>Pointer\<close> in \<open>Pointer\<close> and by \<open>Node\<close> in \<open>Node\<close>; the
  slotted page is its client.
\<close>

datatype value_error = InvalidEncoding

text \<open>\<open>serialize_into\<close> returns the buffer after the write together with the number of bytes.\<close>

record 'v value_ops =
  v_size :: "'v \<Rightarrow> nat"
  v_serialize_into :: "'v \<Rightarrow> bytes \<Rightarrow> (bytes \<times> nat, value_error) result"
  v_from_bytes :: "bytes \<Rightarrow> ('v, value_error) result"

definition value_serialize :: "'v value_ops \<Rightarrow> 'v \<Rightarrow> (bytes, value_error) result" where
  "value_serialize ops v =
     bind_result (v_serialize_into ops v (replicate (v_size ops v) 0)) (\<lambda>(bs, _). Ok bs)"

locale value_codec =
  fixes ops :: "'v value_ops" and wf :: "'v \<Rightarrow> bool"
  assumes size_pos: "wf v \<Longrightarrow> 0 < v_size ops v"
    and serialize_exact:
      "wf v \<Longrightarrow> length buf = v_size ops v \<Longrightarrow>
       \<exists>bs. v_serialize_into ops v buf = Ok (bs, v_size ops v) \<and> length bs = v_size ops v \<and>
         v_from_bytes ops bs = Ok v"
begin

lemma serialize_decode:
  assumes "wf v" and "length buf = v_size ops v"
  obtains bs where "v_serialize_into ops v buf = Ok (bs, v_size ops v)" and "length bs = v_size ops v"
    and "v_from_bytes ops bs = Ok v"
  using serialize_exact [OF assms] by blast

lemma serialize_roundtrip: "wf v \<Longrightarrow> bind_result (value_serialize ops v) (v_from_bytes ops) = Ok v"
  by (rule serialize_decode [of v "replicate (v_size ops v) 0"]) (auto simp: value_serialize_def)

end

subsection \<open>The byte-vector implementation\<close>

definition vec_serialize_into :: "bytes \<Rightarrow> bytes \<Rightarrow> (bytes \<times> nat, value_error) result" where
  "vec_serialize_into v buf = (if length buf = length v then Ok (v, length v) else Panic)"

definition vec_from_bytes :: "bytes \<Rightarrow> (bytes, value_error) result" where
  "vec_from_bytes bs = Ok bs"

definition vec_ops :: "bytes value_ops" where
  "vec_ops = \<lparr>v_size = length, v_serialize_into = vec_serialize_into, v_from_bytes = vec_from_bytes\<rparr>"

interpretation vec_value: value_codec vec_ops "\<lambda>v. v \<noteq> []"
  by unfold_locales (simp_all add: vec_ops_def vec_serialize_into_def vec_from_bytes_def)

end
