(* ===== verification/Pointer.thy ===== *)
theory Pointer
  imports Externals Value_Codec
begin

text \<open>
  Page identifiers (\<open>src/src/page.rs\<close>), node locations (\<open>src/src/location.rs\<close>) and child pointers
  with their 37-byte encoding (\<open>src/src/pointer.rs\<close>). An \<open>RlpNode\<close> is its byte string. The lemmas
  show that a location is either a cell index or a page id and never both, that converting back
  never panics, and that the encoding of a pointer round-trips for every hash and every inline
  RLP item.
\<close>

subsection \<open>Page identifiers\<close>

type_synonym page_id = u32

definition PAGE_ID_MIN :: u32 where
  "PAGE_ID_MIN = 1"

definition PAGE_ID_MAX :: u32 where
  "PAGE_ID_MAX = 0xFFFFFFFF - 255"

definition page_id_is_valid :: "u32 \<Rightarrow> bool" where
  "page_id_is_valid n \<longleftrightarrow> PAGE_ID_MIN \<le> n \<and> n \<le> PAGE_ID_MAX"

definition page_id_new :: "u32 \<Rightarrow> page_id option" where
  "page_id_new n = (if page_id_is_valid n then Some n else None)"

definition PAGE_SIZE :: nat where
  "PAGE_SIZE = 4096"

definition page_id_as_offset :: "page_id \<Rightarrow> nat" where
  "page_id_as_offset p = usize_sub (unat p) 1 * PAGE_SIZE"

definition page_id_inc :: "page_id \<Rightarrow> page_id option" where
  "page_id_inc p = Option.bind (checked_add_u32 p 1) page_id_new"

subsection \<open>Locations\<close>

datatype location = Location (location_raw: u32)

definition location_for_page :: "page_id \<Rightarrow> location" where
  "location_for_page p = Location (255 + p)"

definition location_for_cell :: "nat \<Rightarrow> location" where
  "location_for_cell i = Location (of_nat i)"

definition location_page_id :: "location \<Rightarrow> (page_id option, 'e) result" where
  "location_page_id l =
     (if location_raw l \<le> 255 then Ok None
      else (case page_id_new (location_raw l - 255) of Some p \<Rightarrow> Ok (Some p) | None \<Rightarrow> Panic))"

definition location_cell_index :: "location \<Rightarrow> nat option" where
  "location_cell_index l = (if 256 \<le> location_raw l then None else Some (unat (location_raw l)))"

subsection \<open>Pointers\<close>

record pointer =
  ptr_location :: location
  ptr_rlp :: bytes

definition pointer_new :: "location \<Rightarrow> bytes \<Rightarrow> pointer" where
  "pointer_new l r = \<lparr>ptr_location = l, ptr_rlp = r\<rparr>"

definition pointer_new_unhashed :: "externals \<Rightarrow> location \<Rightarrow> pointer" where
  "pointer_new_unhashed E l = \<lparr>ptr_location = l, ptr_rlp = x_from_rlp E []\<rparr>"

definition HASH_FLAG :: byte where
  "HASH_FLAG = 0x1"

definition pointer_to_array :: "externals \<Rightarrow> pointer \<Rightarrow> (bytes, value_error) result" where
  "pointer_to_array E p =
     (let data = write_at (replicate 37 0) 0 (to_be_bytes_u32 (location_raw (ptr_location p)));
          rlp = ptr_rlp p;
          (flags, content) = (if x_is_hash E rlp then (HASH_FLAG, drop 1 rlp) else (0, rlp));
          data = data[4 := flags];
          content_len = min (length content) 33
      in if 5 + content_len \<le> 37 then Ok (write_at data 5 (take content_len content)) else Panic)"

definition pointer_serialize_into :: "externals \<Rightarrow> pointer \<Rightarrow> bytes \<Rightarrow> (bytes \<times> nat, value_error) result" where
  "pointer_serialize_into E p buf =
     (if length buf < 37 then Err InvalidEncoding
      else bind_result (pointer_to_array E p) (\<lambda>arr. Ok (write_at buf 0 arr, 37)))"

definition pointer_from_bytes :: "externals \<Rightarrow> bytes \<Rightarrow> (pointer, value_error) result" where
  "pointer_from_bytes E arr =
     (if length arr \<noteq> 37 then Err InvalidEncoding
      else
        let flags = arr ! 4; first_rlp_byte = arr ! 5;
            raw = (\<lambda>bs. case x_from_raw E bs of Some r \<Rightarrow> Ok r | None \<Rightarrow> Panic);
            prefixed = (\<lambda>base. let rlp_len = unat (first_rlp_byte - base) in
               if 6 + rlp_len \<le> 37 then raw (subl arr 5 (1 + rlp_len)) else Panic);
            rlp =
              (if flags AND HASH_FLAG = HASH_FLAG then Ok (x_word_rlp E (subl arr 5 32))
               else if first_rlp_byte < 0x80 then raw [first_rlp_byte]
               else if first_rlp_byte \<le> 0xa0 then prefixed 0x80
               else if 0xc0 \<le> first_rlp_byte \<and> first_rlp_byte \<le> 0xdf then prefixed 0xc0
               else Err InvalidEncoding)
        in bind_result rlp (\<lambda>r. Ok (pointer_new (Location (from_be_bytes_u32 (subl arr 0 4))) r)))"

definition pointer_ops :: "externals \<Rightarrow> pointer value_ops" where
  "pointer_ops E =
     \<lparr>v_size = (\<lambda>_. 37), v_serialize_into = pointer_serialize_into E, v_from_bytes = pointer_from_bytes E\<rparr>"

subsection \<open>Locations are either a cell or a page\<close>

lemma page_id_new_Some: "page_id_new x = Some p \<longleftrightarrow> p = x \<and> 1 \<le> unat x \<and> unat x \<le> 4294967040"
  by (auto simp: page_id_new_def page_id_is_valid_def PAGE_ID_MIN_def PAGE_ID_MAX_def word_le_nat_alt
      split: if_splits)

lemma location_page_id_eq:
  "location_page_id l =
     Ok (if location_raw l \<le> 255 then None else Some (location_raw l - 255))"
proof (cases "location_raw l \<le> 255")
  case True
  then show ?thesis by (simp add: location_page_id_def)
next
  case False
  then have "unat (location_raw l - 255) = unat (location_raw l) - 255"
    by (simp add: unat_sub word_le_nat_alt)
  moreover have "unat (location_raw l) < 2 ^ 32"
    using unsigned_less [of "location_raw l", where ?'a = nat] by simp
  ultimately have "page_id_new (location_raw l - 255) = Some (location_raw l - 255)"
    using False by (auto simp: page_id_new_Some word_le_nat_alt)
  with False show ?thesis by (simp add: location_page_id_def)
qed

lemma unat_location_for_page:
  assumes "page_id_is_valid p"
  shows "unat (location_raw (location_for_page p)) = 255 + unat p"
proof -
  have "unat p \<le> 4294967040"
    using assms by (simp add: page_id_is_valid_def PAGE_ID_MAX_def word_le_nat_alt)
  then show ?thesis by (simp add: location_for_page_def unat_word_ariths)
qed

lemma location_for_page_simps [simp]:
  assumes "page_id_is_valid p"
  shows "location_page_id (location_for_page p) = Ok (Some p)"
    and "location_cell_index (location_for_page p) = None"
proof -
  have "1 \<le> unat p" using assms by (simp add: page_id_is_valid_def PAGE_ID_MIN_def word_le_nat_alt)
  then have ge: "256 \<le> unat (location_raw (location_for_page p))"
    by (simp add: unat_location_for_page [OF assms])
  then show "location_cell_index (location_for_page p) = None"
    by (simp add: location_cell_index_def word_le_nat_alt)
  from ge have "\<not> location_raw (location_for_page p) \<le> 255" by (simp add: word_le_nat_alt)
  then show "location_page_id (location_for_page p) = Ok (Some p)"
    by (simp add: location_page_id_eq) (simp add: location_for_page_def)
qed

lemma location_for_cell_simps [simp]:
  assumes "i < 256"
  shows "location_page_id (location_for_cell i) = Ok None"
    and "location_cell_index (location_for_cell i) = Some i"
  using assms by (simp_all add: location_page_id_eq location_cell_index_def location_for_cell_def
      word_le_nat_alt unat_of_nat)

lemma location_cell_or_page:
  "(\<exists>c. location_cell_index l = Some c \<and> c < 256 \<and> location_page_id l = Ok None) \<or>
   (\<exists>q. location_cell_index l = None \<and> location_page_id l = Ok (Some q) \<and> page_id_is_valid q \<and>
     location_for_page q = l)"
proof (cases "256 \<le> location_raw l")
  case True
  then have "unat (location_raw l - 255) = unat (location_raw l) - 255"
    by (simp add: unat_sub word_le_nat_alt)
  moreover have "unat (location_raw l) < 2 ^ 32"
    using unsigned_less [of "location_raw l", where ?'a = nat] by simp
  ultimately have "page_id_is_valid (location_raw l - 255)"
    using True by (auto simp: page_id_is_valid_def PAGE_ID_MIN_def PAGE_ID_MAX_def word_le_nat_alt)
  moreover have "location_for_page (location_raw l - 255) = l"
    by (cases l) (simp add: location_for_page_def)
  ultimately show ?thesis
    using True by (auto simp: location_cell_index_def location_page_id_eq word_le_nat_alt)
next
  case False
  then show ?thesis by (auto simp: location_cell_index_def location_page_id_eq word_le_nat_alt)
qed

text \<open>
  C37. Every \<open>u32\<close> is read as exactly one kind of location: a cell index below 256 or a valid page
  id. \<open>page_id()\<close> never panics, and building a location from a cell or a valid page and reading it
  back gives the same cell or page.
\<close>

theorem location_kinds:
  assumes "page_id_is_valid p" and "i < 256"
  shows "((\<exists>c. location_cell_index l = Some c \<and> c < 256 \<and> location_page_id l = Ok None) \<or>
      (\<exists>q. location_cell_index l = None \<and> location_page_id l = Ok (Some q) \<and> page_id_is_valid q \<and>
        location_for_page q = l)) \<and>
    location_page_id (location_for_page p) = Ok (Some p) \<and> location_cell_index (location_for_page p) = None \<and>
    location_cell_index (location_for_cell i) = Some i \<and> location_page_id (location_for_cell i) = Ok None"
  using location_cell_or_page [of l] assms by simp

theorem location_kinds_witness:
  "location_page_id (location_for_page 5) = Ok (Some 5) \<and> location_cell_index (location_for_cell 7) = Some 7"
proof -
  have p: "page_id_is_valid 5" and i: "(7 :: nat) < 256"
    by (simp_all add: page_id_is_valid_def PAGE_ID_MIN_def PAGE_ID_MAX_def)
  show ?thesis by (simp add: location_kinds [OF p i, THEN conjunct2])
qed

subsection \<open>The pointer encoding\<close>

text \<open>
  The RLP strings a pointer may hold: a hash (\<open>0xa0\<close> and 32 bytes), or an inline item of at most 32
  bytes, that is a single byte below \<open>0x80\<close>, a string or a list with a one-byte header.
\<close>

definition rlp_node_wf :: "bytes \<Rightarrow> bool" where
  "rlp_node_wf r \<longleftrightarrow>
     (length r = 33 \<and> hd r = 0xa0) \<or>
     (\<exists>h t. r = h # t \<and> length t < 32 \<and>
        (if h < 0x80 then t = []
         else if h \<le> 0xa0 then unat h = 0x80 + length t
         else 0xc0 \<le> h \<and> h \<le> 0xdf \<and> unat h = 0xc0 + length t))"

lemma replicate_33: "replicate 33 x = x # replicate 32 x"
  using replicate_Suc [of 32 x] by simp

lemma pointer_to_array_hash:
  assumes "rlp_node_laws E" and "length (ptr_rlp p) = 33"
  shows "pointer_to_array E p =
    Ok (to_be_bytes_u32 (location_raw (ptr_location p)) @ [1] @ tl (ptr_rlp p))"
proof -
  obtain h t where r: "ptr_rlp p = h # t" "length t = 32" using assms(2) by (cases "ptr_rlp p") auto
  then have "x_is_hash E (h # t)" by (simp add: rlp_node_lawsD [OF assms(1)])
  with r show ?thesis
    by (simp add: pointer_to_array_def write_at_def HASH_FLAG_def Let_def to_be_bytes_u32_def replicate_33)
qed

lemma pointer_to_array_inline:
  assumes "rlp_node_laws E" and "length (ptr_rlp p) \<le> 32"
  shows "pointer_to_array E p =
    Ok (to_be_bytes_u32 (location_raw (ptr_location p)) @ [0] @ ptr_rlp p @ replicate (32 - length (ptr_rlp p)) 0)"
proof -
  have "\<not> x_is_hash E (ptr_rlp p)" using assms by (simp add: rlp_node_lawsD [OF assms(1)])
  moreover have "drop (5 + n) (a # b # c # d # e # xs) = drop n xs" for n a b c d e and xs :: bytes
    by (simp add: numeral_eq_Suc)
  ultimately show ?thesis
    using assms(2) by (simp add: pointer_to_array_def write_at_def Let_def to_be_bytes_u32_def replicate_33)
qed

lemma pointer_from_array_hash:
  assumes "rlp_node_laws E" and "length t = 32"
  shows "pointer_from_bytes E (to_be_bytes_u32 l @ [1] @ t) = Ok (pointer_new (Location l) (0xa0 # t))"
  using assms
  by (simp add: pointer_from_bytes_def Let_def nth_append subl_def HASH_FLAG_def rlp_node_lawsD
      from_to_be_bytes_u32)

lemma pointer_from_array_inline:
  assumes E: "rlp_node_laws E" and wf: "rlp_node_wf r" and len: "length r \<le> 32"
  shows "pointer_from_bytes E (to_be_bytes_u32 l @ [0] @ r @ replicate (32 - length r) 0) =
    Ok (pointer_new (Location l) r)"
proof -
  from wf len obtain h t where r: "r = h # t" "length t < 32" and
    shape: "if h < 0x80 then t = [] else if h \<le> 0xa0 then unat h = 0x80 + length t
         else 0xc0 \<le> h \<and> h \<le> 0xdf \<and> unat h = 0xc0 + length t"
    by (auto simp: rlp_node_wf_def)
  have body: "subl (to_be_bytes_u32 l @ [0] @ r @ replicate (32 - length r) 0) 5 (Suc (length t)) = h # t"
    by (simp add: subl_def r)
  have "unat (h - 0x80) = unat h - 128" if "\<not> h < 0x80"
    using that by (simp add: unat_sub word_less_nat_alt word_le_nat_alt)
  moreover have "unat (h - 0xc0) = unat h - 192" if "0xc0 \<le> h"
    using that by (simp add: unat_sub word_le_nat_alt)
  ultimately show ?thesis
    using shape r body E
    by (auto simp: pointer_from_bytes_def Let_def nth_append HASH_FLAG_def rlp_node_lawsD subl_append_left
        from_to_be_bytes_u32 split: if_splits)
qed

lemma pointer_roundtrip_array:
  assumes "rlp_node_laws E" and "rlp_node_wf (ptr_rlp p)"
  shows "\<exists>arr. pointer_to_array E p = Ok arr \<and> length arr = 37 \<and> pointer_from_bytes E arr = Ok p"
proof (cases "length (ptr_rlp p) = 33")
  case True
  with assms(2) have "hd (ptr_rlp p) = 0xa0" by (auto simp: rlp_node_wf_def)
  with True have "ptr_rlp p = 0xa0 # tl (ptr_rlp p)" by (cases "ptr_rlp p") auto
  with True show ?thesis
    by (simp add: pointer_to_array_hash [OF assms(1)] pointer_from_array_hash [OF assms(1)] pointer_new_def
        del: append_Cons)
next
  case False
  with assms(2) have "length (ptr_rlp p) \<le> 32" by (auto simp: rlp_node_wf_def)
  then show ?thesis
    using pointer_from_array_inline [OF assms]
    by (simp add: pointer_to_array_inline [OF assms(1)] pointer_new_def)
qed

interpretation pointer_value: value_codec "pointer_ops E" "\<lambda>p. rlp_node_laws E \<and> rlp_node_wf (ptr_rlp p)"
  for E
proof (unfold_locales, goal_cases)
  case (1 p)
  then show ?case by (simp add: pointer_ops_def)
next
  case (2 p buf)
  then obtain arr where "pointer_to_array E p = Ok arr" "length arr = 37" "pointer_from_bytes E arr = Ok p"
    using pointer_roundtrip_array by blast
  with 2 show ?case by (simp add: pointer_ops_def pointer_serialize_into_def write_at_def)
qed

text \<open>
  C33. The 37-byte encoding of a child pointer decodes to the same pointer, for a pointer with a
  hash and for one with an inline RLP item alike.
\<close>

theorem pointer_encoding_roundtrip:
  assumes "rlp_node_laws E" and "rlp_node_wf (ptr_rlp p)"
  shows "bind_result (value_serialize (pointer_ops E) p) (v_from_bytes (pointer_ops E)) = Ok p"
  using assms by (intro pointer_value.serialize_roundtrip) simp

theorem pointer_encoding_roundtrip_witness:
  "bind_result (value_serialize (pointer_ops sample_externals) (pointer_new (Location 1) [0x82, 1, 2]))
     (v_from_bytes (pointer_ops sample_externals)) = Ok (pointer_new (Location 1) [0x82, 1, 2])"
  by (rule pointer_encoding_roundtrip) (simp_all add: sample_laws rlp_node_wf_def pointer_new_def)

text \<open>
  A pointer made by \<open>new_unhashed\<close> does not survive the encoding: its empty RLP string comes
  back as the one-byte string \<open>0x00\<close>.
\<close>

theorem unhashed_pointer_not_preserved:
  assumes "rlp_node_laws E"
  shows "bind_result (value_serialize (pointer_ops E) (pointer_new_unhashed E l)) (v_from_bytes (pointer_ops E)) =
      Ok (pointer_new l [0])"
proof -
  have "pointer_to_array E (pointer_new_unhashed E l) =
      Ok (to_be_bytes_u32 (location_raw l) @ [0] @ replicate 32 0)"
    using assms by (subst pointer_to_array_inline) (simp_all add: pointer_new_unhashed_def rlp_node_lawsD)
  moreover have "pointer_from_bytes E (to_be_bytes_u32 (location_raw l) @ [0] @ replicate 32 0) =
      Ok (pointer_new l [0])"
    using pointer_from_array_inline [OF assms, of "[0]" "location_raw l"] replicate_Suc [of 31 "0 :: byte"]
    by (simp add: rlp_node_wf_def)
  ultimately show ?thesis
    by (simp add: value_serialize_def pointer_ops_def pointer_serialize_into_def write_at_def)
qed

theorem unhashed_pointer_not_preserved_witness:
  "bind_result (value_serialize (pointer_ops sample_externals) (pointer_new_unhashed sample_externals (Location 1)))
     (v_from_bytes (pointer_ops sample_externals)) = Ok (pointer_new (Location 1) [0])"
  by (rule unhashed_pointer_not_preserved) (rule sample_rlp_node_laws)

end
