(* ===== verification/Cell_Pointer.thy ===== *)
theory Cell_Pointer
  imports Pointer
begin

text \<open>
  The error type of page operations (\<open>src/src/page/manager.rs\<close>) and cell pointers
  (\<open>src/src/page/slotted_page/cell_pointer.rs\<close>): an offset and a length of 12 bits each, packed in
  three bytes. An offset counts from the end of the page to the start of the cell. The lemmas show
  that packing loses nothing for the values that pass the assertions of \<open>CellPointer::new\<close> and that
  the all-zero pointer is the only one read as deleted.
\<close>

datatype page_error =
    PageNotFound page_id
  | PageOccupied page_id
  | PageDirty page_id
  | PageLimitReached
  | InvalidRootPage page_id
  | InvalidCellPointer
  | NoFreeCells
  | PageIsFull
  | PageSplitLimitReached
  | IO
  | InvalidValue
  | InvalidPageContents page_id

definition HEADER_SIZE :: nat where
  "HEADER_SIZE = 8"

definition DATA_SIZE :: nat where
  "DATA_SIZE = PAGE_SIZE - HEADER_SIZE"

lemma DATA_SIZE_eq [simp]: "DATA_SIZE = 4088"
  by (simp add: DATA_SIZE_def PAGE_SIZE_def HEADER_SIZE_def)

definition CELL_POINTER_SIZE :: nat where
  "CELL_POINTER_SIZE = 3"

definition cell_pointer_new :: "nat \<Rightarrow> nat \<Rightarrow> (bytes, page_error) result" where
  "cell_pointer_new offset len =
     (if offset < DATA_SIZE \<and> len < DATA_SIZE \<and> len \<le> offset
      then Ok [of_nat (drop_bit 4 offset),
               push_bit 4 (of_nat offset AND 0xF) OR of_nat (drop_bit 8 len),
               of_nat len]
      else Panic)"

definition cp_offset :: "bytes \<Rightarrow> nat" where
  "cp_offset d = push_bit 4 (unat (d ! 0)) OR unat (drop_bit 4 (d ! 1))"

definition cp_length :: "bytes \<Rightarrow> nat" where
  "cp_length d = push_bit 8 (unat (d ! 1 AND 0xF)) OR unat (d ! 2)"

definition cp_is_deleted :: "bytes \<Rightarrow> bool" where
  "cp_is_deleted d \<longleftrightarrow> d ! 0 OR d ! 1 OR d ! 2 = 0"

definition cell_pointer_try_from :: "bytes \<Rightarrow> (bytes, page_error) result" where
  "cell_pointer_try_from d = (if length d \<noteq> 3 then Err InvalidCellPointer else Ok d)"

subsection \<open>Packing and unpacking\<close>

lemma byte_or_zero: "(a :: byte) OR b = 0 \<longleftrightarrow> a = 0 \<and> b = 0"
  by (auto simp: bit_eq_iff bit_simps)

lemma nat_bit_ge: "(n :: nat) < 2 ^ k \<Longrightarrow> k \<le> i \<Longrightarrow> \<not> bit n i"
  by (metis bit_take_bit_iff linorder_not_less take_bit_nat_eq_self_iff)

lemma push_bit_or_nat:
  assumes "(b :: nat) < 2 ^ n" shows "push_bit n a OR b = a * 2 ^ n + b"
proof -
  have "push_bit n a AND b = 0"
  proof (rule bit_eqI)
    show "bit (push_bit n a AND b) i \<longleftrightarrow> bit 0 i" for i
      using nat_bit_ge [OF assms, of i] by (cases "n \<le> i") (simp_all add: bit_and_iff bit_push_bit_iff_nat)
  qed
  then have "push_bit n a + b = push_bit n a OR b" by (rule disjunctive_add_eq_or)
  then show ?thesis by (simp add: push_bit_eq_mult)
qed

lemma unat_and_15: "unat ((b :: byte) AND 15) = unat b mod 16"
proof -
  have "b AND 15 = take_bit 4 b" by (simp add: take_bit_eq_mask mask_eq_exp_minus_1)
  then show ?thesis by (simp add: take_bit_eq_mod unat_mod_distrib)
qed

lemma unat_drop_4: "unat (drop_bit 4 (b :: byte)) = unat b div 16"
  by (simp add: drop_bit_eq_div unat_div_distrib)

lemma cp_offset_eq: "cp_offset d = unat (d ! 0) * 16 + unat (d ! 1) div 16"
proof -
  have "unat (d ! 1) < 256" by simp
  then have "unat (d ! 1) div 16 < 2 ^ 4" by (simp only: div_less_iff_less_mult) simp
  then show ?thesis by (simp add: cp_offset_def unat_drop_4 push_bit_or_nat del: push_bit_of_1)
qed

lemma cp_length_eq: "cp_length d = unat (d ! 1) mod 16 * 256 + unat (d ! 2)"
  using push_bit_or_nat [of "unat (d ! 2)" 8] by (simp add: cp_length_def unat_and_15)

definition cp_bytes :: "nat \<Rightarrow> nat \<Rightarrow> bytes" where
  "cp_bytes offset len =
     [of_nat (drop_bit 4 offset), push_bit 4 (of_nat offset AND 0xF) OR of_nat (drop_bit 8 len), of_nat len]"

lemma unat_middle:
  assumes "len < 4096"
  shows "unat (push_bit 4 (of_nat offset AND 0xF) OR of_nat (drop_bit 8 len) :: byte) = offset mod 16 * 16 + len div 256"
proof -
  have 1: "unat (push_bit 4 (of_nat offset AND 0xF) :: byte) = push_bit 4 (offset mod 16)"
  proof -
    have "unat (of_nat offset AND 0xF :: byte) = offset mod 16"
      by (simp add: unat_and_15 unat_of_nat mod_mod_cancel)
    moreover have "offset mod 16 * 16 < 256" by simp
    ultimately show ?thesis
      by (simp add: push_bit_eq_mult unat_word_ariths)
  qed
  have 2: "unat (of_nat (drop_bit 8 len) :: byte) = len div 256"
    using assms by (simp add: unat_of_nat drop_bit_eq_div)
  have "len div 256 < 2 ^ 4" using assms by simp
  then show ?thesis
    by (simp only: unsigned_or_eq 1 2 push_bit_or_nat) simp
qed

lemma cp_bytes_fields [simp]:
  assumes "offset < 4096" and "len < 4096"
  shows "cp_offset (cp_bytes offset len) = offset" and "cp_length (cp_bytes offset len) = len"
proof -
  have mid: "unat (cp_bytes offset len ! 1) = offset mod 16 * 16 + len div 256"
    using unat_middle [OF assms(2), of offset] by (simp add: cp_bytes_def)
  have fst: "unat (cp_bytes offset len ! 0) = offset div 16"
    using assms by (simp add: cp_bytes_def unat_of_nat drop_bit_eq_div)
  have lst: "unat (cp_bytes offset len ! 2) = len mod 256"
    by (simp add: cp_bytes_def unat_of_nat)
  have "len div 256 < 16" using assms by simp
  then have "(offset mod 16 * 16 + len div 256) div 16 = offset mod 16"
    "(offset mod 16 * 16 + len div 256) mod 16 = len div 256" by simp_all
  then show "cp_offset (cp_bytes offset len) = offset" "cp_length (cp_bytes offset len) = len"
    by (simp_all only: cp_offset_eq cp_length_eq mid fst lst div_mult_mod_eq)
qed

lemma length_cp_bytes [simp]: "length (cp_bytes offset len) = 3"
  by (simp add: cp_bytes_def)

lemma nat_div_mod_zero: "(n :: nat) div 16 = 0 \<and> n mod 16 = 0 \<longleftrightarrow> n = 0"
  by auto

lemma cp_deleted_iff: "cp_is_deleted d \<longleftrightarrow> cp_offset d = 0 \<and> cp_length d = 0"
proof -
  have "cp_is_deleted d \<longleftrightarrow> unat (d ! 0) = 0 \<and> unat (d ! 1) = 0 \<and> unat (d ! 2) = 0"
    by (simp only: cp_is_deleted_def byte_or_zero unat_eq_0 conj_assoc)
  also have "\<dots> \<longleftrightarrow> unat (d ! 0) = 0 \<and> (unat (d ! 1) div 16 = 0 \<and> unat (d ! 1) mod 16 = 0) \<and> unat (d ! 2) = 0"
    by (simp only: nat_div_mod_zero)
  also have "\<dots> \<longleftrightarrow> cp_offset d = 0 \<and> cp_length d = 0"
    by (simp only: cp_offset_eq cp_length_eq add_is_0 mult_is_0) simp
  finally show ?thesis .
qed

lemma cp_bytes_deleted [simp]:
  "offset < 4096 \<Longrightarrow> len < 4096 \<Longrightarrow> cp_is_deleted (cp_bytes offset len) \<longleftrightarrow> offset = 0 \<and> len = 0"
  by (simp add: cp_deleted_iff)

lemma cell_pointer_new_eq:
  "cell_pointer_new offset len = (if offset < 4088 \<and> len \<le> offset then Ok (cp_bytes offset len) else Panic)"
  by (auto simp: cell_pointer_new_def cp_bytes_def)

lemma cp_bounds: "cp_offset d < 4096" "cp_length d < 4096"
proof -
  have b: "unat (d ! 0) < 256" "unat (d ! 1) < 256" "unat (d ! 2) < 256" by simp_all
  have "unat (d ! 1) div 16 < 16" using b by (simp only: div_less_iff_less_mult)
  moreover have "unat (d ! 1) mod 16 < 16" by simp
  ultimately show "cp_offset d < 4096" "cp_length d < 4096"
    using b by (simp_all only: cp_offset_eq cp_length_eq)
qed

end
