(* ===== verification/Slotted_Page.thy ===== *)
theory Slotted_Page
  imports Cell_Pointer "HOL-Library.Multiset"
begin

text \<open>
  The slotted page (\<open>src/src/page/slotted_page.rs\<close>): a page whose first byte counts its cells,
  followed by the array of 3-byte cell pointers, with the cells placed from the end of the page. The
  operations work on the contents of the page, a byte list of length \<open>DATA_SIZE\<close>, and take the
  operations of the stored value type as an argument.

  The invariant \<open>page_inv\<close> says that the live cells are not empty, do not overlap each other and do
  not reach into the pointer array. \<open>cell_data\<close> is the abstract view of a page: the finite map from
  indices to cells. The lemmas show that the defragmentation moves cells without changing this map,
  that a cell is allocated exactly when the bytes of all live cells and the new one fit, and that
  each operation is the expected update of the map.
\<close>

subsection \<open>Reading\<close>

definition MAX_NUM_CELLS :: nat where
  "MAX_NUM_CELLS = 255"

definition get_content_index :: "nat \<Rightarrow> nat" where
  "get_content_index cell_index = 1 + CELL_POINTER_SIZE * cell_index"

definition num_cells :: "bytes \<Rightarrow> nat" where
  "num_cells c = unat (c ! 0)"

text \<open>The three bytes of the pointer array that belong to an index, whether in use or not.\<close>

definition cell_pointer_at :: "bytes \<Rightarrow> nat \<Rightarrow> bytes" where
  "cell_pointer_at c index = subl c (get_content_index index) CELL_POINTER_SIZE"

definition get_cell_pointer :: "bytes \<Rightarrow> nat \<Rightarrow> (bytes, page_error) result" where
  "get_cell_pointer c index =
     (if num_cells c \<le> index then Err InvalidCellPointer
      else case slice_range c (get_content_index index) (get_content_index index + CELL_POINTER_SIZE) of
        None \<Rightarrow> Panic
      | Some d \<Rightarrow> cell_pointer_try_from d)"

definition cell_pointers_iter :: "bytes \<Rightarrow> bytes list" where
  "cell_pointers_iter c = map (cell_pointer_at c) [0..<num_cells c]"

definition get_value_ref :: "'v value_ops \<Rightarrow> bytes \<Rightarrow> nat \<Rightarrow> ('v, page_error) result" where
  "get_value_ref ops c index =
     bind_result (get_cell_pointer c index) (\<lambda>cp.
       if cp_is_deleted cp then Err InvalidCellPointer
       else let start_index = u16_sub DATA_SIZE (cp_offset cp) in
         case slice_range c start_index (start_index + cp_length cp) of
           None \<Rightarrow> Panic
         | Some d \<Rightarrow> map_err (\<lambda>_. InvalidValue) (v_from_bytes ops d))"

definition get_value :: "'v value_ops \<Rightarrow> bytes \<Rightarrow> nat \<Rightarrow> ('v, page_error) result" where
  "get_value ops c index =
     bind_result (get_cell_pointer c index) (\<lambda>cp.
       if cp_is_deleted cp then Err InvalidCellPointer
       else let start_index = u16_sub DATA_SIZE (cp_offset cp) in
         case slice_range c start_index (start_index + cp_length cp) of
           None \<Rightarrow> Panic
         | Some d \<Rightarrow> unwrap (v_from_bytes ops d))"

definition total_occupied_space :: "bytes \<Rightarrow> nat" where
  "total_occupied_space c =
     sum_list (map cp_length (filter (\<lambda>cp. \<not> cp_is_deleted cp) (cell_pointers_iter c))) mod 2 ^ 16"

definition num_free_bytes_with_cell_count :: "bytes \<Rightarrow> nat \<Rightarrow> nat" where
  "num_free_bytes_with_cell_count c n =
     usize_sub (usize_sub (usize_sub (length c) (total_occupied_space c)) (CELL_POINTER_SIZE * n)) 1"

definition num_free_bytes :: "bytes \<Rightarrow> nat" where
  "num_free_bytes c = num_free_bytes_with_cell_count c (num_cells c)"

definition num_dead_bytes :: "bytes \<Rightarrow> nat \<Rightarrow> nat" where
  "num_dead_bytes c n =
     (let total_bytes = length c;
          free_bytes = num_free_bytes_with_cell_count c n;
          used_bytes = sum_list (map cp_length (cell_pointers_iter c))
      in usize_sub (usize_sub (usize_sub (usize_sub total_bytes free_bytes) used_bytes) 1) (CELL_POINTER_SIZE * n))"

definition num_occupied_bytes :: "bytes \<Rightarrow> nat" where
  "num_occupied_bytes c =
     sum_list (map cp_length (filter (\<lambda>cp. \<not> cp_is_deleted cp) (cell_pointers_iter c))) +
     CELL_POINTER_SIZE * num_cells c"

definition num_occupied_cells :: "bytes \<Rightarrow> nat" where
  "num_occupied_cells c = length (filter (\<lambda>cp. \<not> cp_is_deleted cp) (cell_pointers_iter c))"

subsection \<open>Writing the header\<close>

definition set_cell_pointer :: "bytes \<Rightarrow> nat \<Rightarrow> nat \<Rightarrow> nat \<Rightarrow> (bytes, page_error) result \<times> bytes" where
  "set_cell_pointer c index offset len =
     (case cell_pointer_new offset len of
        Ok d \<Rightarrow> if get_content_index index + CELL_POINTER_SIZE \<le> length c
                 then (Ok d, write_at c (get_content_index index) d) else (Panic, c)
      | Err e \<Rightarrow> (Err e, c) | Panic \<Rightarrow> (Panic, c) | Diverge \<Rightarrow> (Diverge, c))"

definition set_num_cells :: "bytes \<Rightarrow> nat \<Rightarrow> bytes" where
  "set_num_cells c n = c[0 := of_nat n]"

definition swap_bytes :: "bytes \<Rightarrow> nat \<Rightarrow> nat \<Rightarrow> bytes" where
  "swap_bytes c i j = c[i := c ! j, j := c ! i]"

definition swap_cell_pointers :: "bytes \<Rightarrow> nat \<Rightarrow> nat \<Rightarrow> (unit, page_error) result \<times> bytes" where
  "swap_cell_pointers c index1 index2 =
     (if num_cells c \<le> index1 \<or> num_cells c \<le> index2 then (Err InvalidCellPointer, c)
      else (Ok (), fold (\<lambda>i c. swap_bytes c (get_content_index index1 + i) (get_content_index index2 + i))
              [0..<CELL_POINTER_SIZE] c))"

definition next_free_cell_index :: "bytes \<Rightarrow> (nat, page_error) result" where
  "next_free_cell_index c =
     (case find (\<lambda>i. cp_is_deleted (cell_pointer_at c i)) [0..<num_cells c] of
        Some i \<Rightarrow> Ok i
      | None \<Rightarrow> if num_cells c = MAX_NUM_CELLS then Err NoFreeCells else Ok (num_cells c))"

text \<open>The number of cells left when the deleted ones at the end are dropped.\<close>

fun trim_cells :: "bytes \<Rightarrow> nat \<Rightarrow> nat" where
  "trim_cells c 0 = 0"
| "trim_cells c (Suc i) = (if cp_is_deleted (cell_pointer_at c i) then trim_cells c i else Suc i)"

definition delete_value :: "bytes \<Rightarrow> nat \<Rightarrow> (unit, page_error) result \<times> bytes" where
  "delete_value c index =
     (let n = num_cells c in
      bind_state (set_cell_pointer c index 0 0) (\<lambda>_ c.
        let new_num_cells = trim_cells c n in
        (Ok (), if new_num_cells < n then set_num_cells c new_num_cells else c)))"

subsection \<open>Finding space\<close>

text \<open>The first gap of at least the given length between cells sorted by their offset.\<close>

fun first_gap :: "(nat \<times> nat) list \<Rightarrow> nat \<Rightarrow> nat option" where
  "first_gap ((s1, o1) # (s2, o2) # r) len =
     (if len \<le> u16_sub s2 o1 then Some (u16_add o1 len) else first_gap ((s2, o2) # r) len)"
| "first_gap _ len = None"

definition find_available_slot_in_used_space :: "bytes \<Rightarrow> nat \<Rightarrow> nat \<Rightarrow> nat option" where
  "find_available_slot_in_used_space c index len =
     (let new_num_cells = max (num_cells c) (u8_add index 1);
          header_size = new_num_cells * CELL_POINTER_SIZE + 1;
          live = filter (\<lambda>cp. \<not> cp_is_deleted cp) (cell_pointers_iter c)
      in if list_ex (\<lambda>cp. length c < cp_offset cp + header_size) live then None
         else first_gap (sort_key snd (map (\<lambda>cp. (u16_sub (cp_offset cp) (cp_length cp), cp_offset cp)) live)) len)"

definition find_available_slot_in_remaining_space :: "bytes \<Rightarrow> nat \<Rightarrow> nat \<Rightarrow> nat option" where
  "find_available_slot_in_remaining_space c index len =
     (let new_num_cells = max (num_cells c) (u8_add index 1);
          max_offset = fold (\<lambda>i m. if i = index then m
             else let cp = cell_pointer_at c i in
               if \<not> cp_is_deleted cp \<and> m < cp_offset cp then cp_offset cp else m) [0..<num_cells c] 0;
          offset = u16_add max_offset len;
          header_size = new_num_cells * CELL_POINTER_SIZE + 1;
          available_space = usize_sub (length c) header_size
      in if available_space < offset then None else Some offset)"

definition find_available_slot :: "bytes \<Rightarrow> nat \<Rightarrow> nat \<Rightarrow> nat option" where
  "find_available_slot c index len =
     (case find_available_slot_in_used_space c index len of
        Some offset \<Rightarrow> Some offset
      | None \<Rightarrow> find_available_slot_in_remaining_space c index len)"

definition copy_within :: "bytes \<Rightarrow> nat \<Rightarrow> nat \<Rightarrow> nat \<Rightarrow> (unit, page_error) result \<times> bytes" where
  "copy_within c src_start src_end dest =
     (if src_start \<le> src_end \<and> src_end \<le> length c \<and> dest + (src_end - src_start) \<le> length c
      then (Ok (), write_at c dest (subl c src_start (src_end - src_start))) else (Panic, c))"

fun defragment_loop ::
  "(nat \<times> nat \<times> nat) list \<Rightarrow> nat \<Rightarrow> nat \<Rightarrow> bytes \<Rightarrow> (unit, page_error) result \<times> bytes" where
  "defragment_loop [] last_start last_offset c = (Ok (), c)"
| "defragment_loop ((idx, offset, len) # cells) last_start last_offset c =
     (let start = u16_sub offset len in
      if start = last_start then defragment_loop cells last_start offset c
      else
        let start_index = u16_sub DATA_SIZE offset;
            end_index = start_index + len;
            new_offset = u16_add last_offset len in
        bind_state (set_cell_pointer c idx new_offset len) (\<lambda>_ c.
        bind_state (copy_within c start_index end_index (u16_sub DATA_SIZE new_offset)) (\<lambda>_ c.
          defragment_loop cells (u16_sub new_offset len) new_offset c)))"

text \<open>The live cells of the first \<open>n\<close> pointers: index, offset and length.\<close>

definition live_cells :: "nat \<Rightarrow> bytes \<Rightarrow> (nat \<times> nat \<times> nat) list" where
  "live_cells n c =
     map (\<lambda>i. (i, cp_offset (cell_pointer_at c i), cp_length (cell_pointer_at c i)))
       (filter (\<lambda>i. \<not> cp_is_deleted (cell_pointer_at c i)) [0..<n])"

definition defragment :: "bytes \<Rightarrow> nat \<Rightarrow> nat \<Rightarrow> (bool, page_error) result \<times> bytes" where
  "defragment c index additional_slot_length =
     (let new_num_cells = max (num_cells c) (u8_add index 1) in
      if DATA_SIZE < u16_add (u16_add (u16_add (total_occupied_space c) additional_slot_length)
                       (new_num_cells * CELL_POINTER_SIZE)) 1
      then (Ok False, c)
      else bind_state (defragment_loop (sort_key (\<lambda>(i, offset, len). offset) (live_cells (num_cells c) c)) 0 0 c)
             (\<lambda>_ c. (Ok True, c)))"

text \<open>
  The recursion of \<open>allocate_cell_pointer\<close> has no bound of its own; the fuel counts the calls, and
  \<open>allocate_fuel\<close> below is shown to be enough on every page that meets the invariant.
\<close>

fun allocate_cell_pointer_fuel :: "nat \<Rightarrow> bytes \<Rightarrow> nat \<Rightarrow> nat \<Rightarrow> (bytes, page_error) result \<times> bytes" where
  "allocate_cell_pointer_fuel 0 c index len = (Diverge, c)"
| "allocate_cell_pointer_fuel (Suc fuel) c index len =
     (case find_available_slot c index len of
        Some offset \<Rightarrow>
          let n = num_cells c; new_num_cells = max n (u8_add index 1);
              c = (if n < new_num_cells then set_num_cells c new_num_cells else c)
          in set_cell_pointer c index offset len
      | None \<Rightarrow>
          bind_state (defragment c index len) (\<lambda>done c.
            if done then allocate_cell_pointer_fuel fuel c index len else (Err PageIsFull, c)))"

definition allocate_fuel :: nat where
  "allocate_fuel = 2"

definition allocate_cell_pointer :: "bytes \<Rightarrow> nat \<Rightarrow> nat \<Rightarrow> (bytes, page_error) result \<times> bytes" where
  "allocate_cell_pointer = allocate_cell_pointer_fuel allocate_fuel"

subsection \<open>Storing values\<close>

text \<open>
  Writing a value into its cell. When serialising fails, the code may have written a part of the cell; the
  model leaves it as it was. Valid values always serialise (\<open>value_codec\<close>).
\<close>

definition write_value :: "'v value_ops \<Rightarrow> bytes \<Rightarrow> nat \<Rightarrow> nat \<Rightarrow> 'v \<Rightarrow> (unit, page_error) result \<times> bytes" where
  "write_value ops c offset len v =
     (let start_index = u16_sub DATA_SIZE offset; end_index = u16_add start_index len in
      case slice_range c start_index end_index of
        None \<Rightarrow> (Panic, c)
      | Some d \<Rightarrow>
          (case v_serialize_into ops v d of
             Ok (bs, _) \<Rightarrow> (Ok (), write_at c start_index bs)
           | Err _ \<Rightarrow> (Err InvalidValue, c)
           | Panic \<Rightarrow> (Panic, c)
           | Diverge \<Rightarrow> (Diverge, c)))"

definition set_value :: "'v value_ops \<Rightarrow> bytes \<Rightarrow> nat \<Rightarrow> 'v \<Rightarrow> (unit, page_error) result \<times> bytes" where
  "set_value ops c index v =
     bind_state (get_cell_pointer c index, c) (\<lambda>cp c.
       let value_length = v_size ops v; offset = cp_offset cp; len = cp_length cp in
       if len < value_length then
         bind_state (delete_value c index) (\<lambda>_ c.
         bind_state (allocate_cell_pointer c index (value_length mod 2 ^ 16)) (\<lambda>cp c.
           write_value ops c (cp_offset cp) (cp_length cp) v))
       else if value_length < len then
         bind_state (set_cell_pointer c index offset (value_length mod 2 ^ 16)) (\<lambda>_ c.
           write_value ops c offset (value_length mod 2 ^ 16) v)
       else write_value ops c offset len v)"

definition insert_value :: "'v value_ops \<Rightarrow> bytes \<Rightarrow> 'v \<Rightarrow> (nat, page_error) result \<times> bytes" where
  "insert_value ops c v =
     bind_state (next_free_cell_index c, c) (\<lambda>cell_index c.
     bind_state (allocate_cell_pointer c cell_index (v_size ops v mod 2 ^ 16)) (\<lambda>cp c.
     bind_state (write_value ops c (cp_offset cp) (cp_length cp) v) (\<lambda>_ c. (Ok cell_index, c))))"

subsection \<open>The invariant and the abstract view\<close>

definition region :: "bytes \<Rightarrow> nat \<Rightarrow> nat \<Rightarrow> bytes" where
  "region c offset len = subl c (DATA_SIZE - offset) len"

definition cell_data :: "bytes \<Rightarrow> nat \<Rightarrow> bytes option" where
  "cell_data c i =
     (let cp = cell_pointer_at c i in
      if i < num_cells c \<and> \<not> cp_is_deleted cp then Some (region c (cp_offset cp) (cp_length cp)) else None)"

definition disjoint_cells :: "nat \<times> nat \<times> nat \<Rightarrow> nat \<times> nat \<times> nat \<Rightarrow> bool" where
  "disjoint_cells a b =
     (case (a, b) of ((i, o1, l1), (j, o2, l2)) \<Rightarrow> i = j \<or> o1 + l2 \<le> o2 \<or> o2 + l1 \<le> o1)"

definition cells_ok :: "nat \<Rightarrow> (nat \<times> nat \<times> nat) set \<Rightarrow> bool" where
  "cells_ok m cells \<longleftrightarrow>
     (\<forall>(i, offset, len) \<in> cells. 0 < len \<and> len \<le> offset \<and> offset + 3 * m + 1 \<le> DATA_SIZE) \<and>
     (\<forall>a \<in> cells. \<forall>b \<in> cells. disjoint_cells a b)"

text \<open>
  The invariant of a page whose pointer array has room for \<open>m\<close> pointers, of which those from
  \<open>num_cells\<close> on are cleared; between operations \<open>m\<close> is \<open>num_cells\<close>.
\<close>

definition array_inv :: "nat \<Rightarrow> bytes \<Rightarrow> bool" where
  "array_inv m c \<longleftrightarrow>
     length c = DATA_SIZE \<and> num_cells c \<le> m \<and> m \<le> MAX_NUM_CELLS \<and>
     (\<forall>k \<in> {num_cells c..<m}. cp_is_deleted (cell_pointer_at c k)) \<and>
     cells_ok m (set (live_cells m c))"

definition page_inv :: "bytes \<Rightarrow> bool" where
  "page_inv c \<longleftrightarrow> array_inv (num_cells c) c"

definition occupied :: "bytes \<Rightarrow> nat" where
  "occupied c = sum_list (map (\<lambda>(i, offset, len). len) (live_cells (num_cells c) c))"

subsection \<open>Reading after a write\<close>

lemmas page_consts = get_content_index_def CELL_POINTER_SIZE_def MAX_NUM_CELLS_def

lemma num_cells_less [simp]: "num_cells c < 256"
  by (simp add: num_cells_def)

lemma num_cells_write_at [simp]: "0 < p \<Longrightarrow> p + length bs \<le> length c \<Longrightarrow> num_cells (write_at c p bs) = num_cells c"
  by (cases "length c = 0") (auto simp: num_cells_def write_at_nth)

lemma num_cells_set [simp]: "c \<noteq> [] \<Longrightarrow> n < 256 \<Longrightarrow> num_cells (set_num_cells c n) = n"
  by (simp add: num_cells_def set_num_cells_def unat_of_nat)

lemma length_set_num_cells [simp]: "length (set_num_cells c n) = length c"
  by (simp add: set_num_cells_def)

lemma subl_set_num_cells: "0 < p \<Longrightarrow> subl (set_num_cells c n) p k = subl c p k"
  by (simp add: subl_def set_num_cells_def drop_update_cancel)

lemma cell_pointer_at_set_num_cells [simp]: "cell_pointer_at (set_num_cells c n) k = cell_pointer_at c k"
  by (simp add: cell_pointer_at_def subl_set_num_cells page_consts)

lemma region_set_num_cells [simp]: "offset < DATA_SIZE \<Longrightarrow> region (set_num_cells c n) offset len = region c offset len"
  by (simp add: region_def subl_set_num_cells)

lemma cell_pointer_at_write:
  assumes "length d = 3" and "length c = DATA_SIZE" and "i < 256" and "k < 256"
  shows "cell_pointer_at (write_at c (get_content_index i) d) k = (if k = i then d else cell_pointer_at c k)"
proof (cases "k = i")
  case True
  then show ?thesis using assms by (simp add: cell_pointer_at_def page_consts subl_write_at_same)
next
  case False
  then have "3 * k + 3 \<le> 3 * i \<or> 3 * i + 3 \<le> 3 * k" by linarith
  then show ?thesis using False assms
    by (simp add: cell_pointer_at_def page_consts, intro subl_write_at_disjoint) auto
qed

lemma cell_pointer_at_write_data:
  assumes "p + length bs \<le> length c" and "get_content_index k + 3 \<le> p"
  shows "cell_pointer_at (write_at c p bs) k = cell_pointer_at c k"
  using assms by (simp add: cell_pointer_at_def page_consts subl_write_at_disjoint)

lemma region_write_header:
  assumes "p + length bs \<le> length c" and "length c = DATA_SIZE" and "offset \<le> DATA_SIZE" and "len \<le> offset"
    and "offset + p + length bs \<le> DATA_SIZE"
  shows "region (write_at c p bs) offset len = region c offset len"
  unfolding region_def using assms by (intro subl_write_at_disjoint) auto

lemma region_write_region:
  assumes "length c = DATA_SIZE" and "o2 \<le> DATA_SIZE" and "offset \<le> DATA_SIZE" and "len \<le> offset"
    and "length bs \<le> o2" and "offset + length bs \<le> o2 \<or> o2 + len \<le> offset"
  shows "region (write_at c (DATA_SIZE - o2) bs) offset len = region c offset len"
  unfolding region_def using assms by (intro subl_write_at_disjoint) auto

lemma region_write_same:
  assumes "length c = DATA_SIZE" and "offset \<le> DATA_SIZE" and "len = length bs" and "len \<le> offset"
  shows "region (write_at c (DATA_SIZE - offset) bs) offset len = bs"
  unfolding region_def using assms by (intro subl_write_at_same) auto

lemma live_cells_iff:
  "(i, offset, len) \<in> set (live_cells m c) \<longleftrightarrow>
     i < m \<and> \<not> cp_is_deleted (cell_pointer_at c i) \<and>
     offset = cp_offset (cell_pointer_at c i) \<and> len = cp_length (cell_pointer_at c i)"
  by (auto simp: live_cells_def)

lemma distinct_live_cells: "distinct (map fst (live_cells m c))"
  by (simp add: live_cells_def comp_def)

lemma live_cells_trim:
  assumes "n \<le> m" and "\<forall>k \<in> {n..<m}. cp_is_deleted (cell_pointer_at c k)"
  shows "live_cells m c = live_cells n c"
proof -
  have "[0..<m] = [0..<n] @ [n..<m]"
    using assms(1) upt_add_eq_append [of 0 n "m - n"] by simp
  moreover have "filter (\<lambda>i. \<not> cp_is_deleted (cell_pointer_at c i)) [n..<m] = []"
    using assms(2) by (auto simp: filter_empty_conv)
  ultimately show ?thesis by (simp add: live_cells_def)
qed

lemma live_cells_array: "array_inv m c \<Longrightarrow> live_cells m c = live_cells (num_cells c) c"
  by (rule live_cells_trim) (simp_all add: array_inv_def)

lemma cell_data_live:
  "cell_data c i = Some d \<longleftrightarrow>
     (\<exists>offset len. (i, offset, len) \<in> set (live_cells (num_cells c) c) \<and> d = region c offset len)"
  by (auto simp: cell_data_def live_cells_iff Let_def)

lemma cell_data_unchanged:
  assumes "cell_pointer_at c' i = cell_pointer_at c i" and "i < num_cells c' \<longleftrightarrow> i < num_cells c"
    and "\<And>offset len. (i, offset, len) \<in> set (live_cells (num_cells c) c) \<Longrightarrow> region c' offset len = region c offset len"
  shows "cell_data c' i = cell_data c i"
  using assms by (auto simp: cell_data_def live_cells_iff Let_def)

lemma get_cell_pointer_eq:
  "length c = DATA_SIZE \<Longrightarrow>
   get_cell_pointer c i = (if i < num_cells c then Ok (cell_pointer_at c i) else Err InvalidCellPointer)"
  using num_cells_less [of c]
  by (auto simp: get_cell_pointer_def cell_pointer_at_def cell_pointer_try_from_def page_consts simp del: num_cells_less)

lemma set_cell_pointer_eq:
  assumes "length c = DATA_SIZE" and "i < 256" and "offset < DATA_SIZE" and "len \<le> offset"
  shows "set_cell_pointer c i offset len = (Ok (cp_bytes offset len), write_at c (get_content_index i) (cp_bytes offset len))"
  using assms by (simp add: set_cell_pointer_def cell_pointer_new_eq page_consts)

lemma slice_region:
  assumes "length c = DATA_SIZE" and "len \<le> offset" and "offset \<le> DATA_SIZE"
  shows "slice_range c (u16_sub DATA_SIZE offset) (u16_sub DATA_SIZE offset + len) = Some (region c offset len)"
    and "slice_range c (u16_sub DATA_SIZE offset) (u16_add (u16_sub DATA_SIZE offset) len) = Some (region c offset len)"
  using assms by (auto simp: region_def slice_range_def)

lemma get_value_cell_data:
  assumes "page_inv c"
  shows "get_value ops c i = (case cell_data c i of None \<Rightarrow> Err InvalidCellPointer | Some d \<Rightarrow> unwrap (v_from_bytes ops d))"
proof (cases "i < num_cells c \<and> \<not> cp_is_deleted (cell_pointer_at c i)")
  case False
  then show ?thesis using assms
    by (auto simp: get_value_def get_cell_pointer_eq page_inv_def array_inv_def cell_data_def)
next
  case True
  let ?cp = "cell_pointer_at c i"
  have "(i, cp_offset ?cp, cp_length ?cp) \<in> set (live_cells (num_cells c) c)" using True by (simp add: live_cells_iff)
  then have "cp_length ?cp \<le> cp_offset ?cp \<and> cp_offset ?cp \<le> DATA_SIZE"
    using assms by (fastforce simp: page_inv_def array_inv_def cells_ok_def)
  with assms have "slice_range c (u16_sub DATA_SIZE (cp_offset ?cp)) (u16_sub DATA_SIZE (cp_offset ?cp) + cp_length ?cp) =
      Some (region c (cp_offset ?cp) (cp_length ?cp))"
    by (intro slice_region) (simp_all add: page_inv_def array_inv_def)
  then show ?thesis using True assms
    by (simp add: get_value_def get_cell_pointer_eq page_inv_def array_inv_def cell_data_def Let_def
        del: u16_sub_small DATA_SIZE_eq)
qed

subsection \<open>Cells in the order of their offsets\<close>

fun chain :: "nat \<Rightarrow> (nat \<times> nat \<times> nat) list \<Rightarrow> bool" where
  "chain base [] \<longleftrightarrow> True"
| "chain base ((i, offset, len) # cells) \<longleftrightarrow> 0 < len \<and> base + len \<le> offset \<and> chain offset cells"

abbreviation offset_of :: "nat \<times> nat \<times> nat \<Rightarrow> nat" where
  "offset_of \<equiv> \<lambda>(i, offset, len). offset"

abbreviation length_of :: "nat \<times> nat \<times> nat \<Rightarrow> nat" where
  "length_of \<equiv> \<lambda>(i, offset, len). len"

lemma chain_lower: "chain base cells \<Longrightarrow> (i, offset, len) \<in> set cells \<Longrightarrow> base + len \<le> offset \<and> 0 < len"
  by (induction base cells rule: chain.induct) (auto dest: le_trans)

lemma chain_disjoint:
  "chain base cells \<Longrightarrow> a \<in> set cells \<Longrightarrow> b \<in> set cells \<Longrightarrow> a = b \<or> disjoint_cells a b"
proof (induction base cells rule: chain.induct)
  case (2 base i offset len cells)
  have "disjoint_cells (i, offset, len) x \<and> disjoint_cells x (i, offset, len)" if "x \<in> set cells" for x
    using that 2 chain_lower [of offset cells "fst x" "fst (snd x)" "snd (snd x)"]
    by (auto simp: disjoint_cells_def)
  with 2 show ?case by (cases a; cases b) auto
qed simp

lemma chain_sum: "chain base cells \<Longrightarrow> \<forall>x \<in> set cells. offset_of x \<le> bound \<Longrightarrow> base \<le> bound \<Longrightarrow>
    base + sum_list (map length_of cells) \<le> bound"
  by (induction base cells rule: chain.induct) auto

lemma sorted_chain:
  assumes "cells_ok m (set cells)" and "distinct (map fst cells)" and "sorted (map offset_of cells)"
    and "\<And>i offset len. (i, offset, len) \<in> set cells \<Longrightarrow> base + len \<le> offset"
  shows "chain base cells"
  using assms
proof (induction base cells rule: chain.induct)
  case (2 base i offset len cells)
  have ok: "cells_ok m (set cells)" using "2.prems"(1) by (simp add: cells_ok_def)
  have "offset + l2 \<le> o2" if "(j, o2, l2) \<in> set cells" for j o2 l2
  proof -
    have "offset \<le> o2" using "2.prems"(3) that by fastforce
    moreover have "i \<noteq> j" using "2.prems"(2) that by (auto simp: rev_image_eqI)
    moreover have "disjoint_cells (i, offset, len) (j, o2, l2)" and "0 < len"
      using "2.prems"(1) that by (auto simp: cells_ok_def)
    ultimately show ?thesis by (simp add: disjoint_cells_def)
  qed
  with "2.IH" ok "2.prems" show ?case by (auto simp: cells_ok_def)
qed simp

definition sorted_cells :: "bytes \<Rightarrow> (nat \<times> nat \<times> nat) list" where
  "sorted_cells c = sort_key offset_of (live_cells (num_cells c) c)"

lemma set_sorted_cells [simp]: "set (sorted_cells c) = set (live_cells (num_cells c) c)"
  by (simp add: sorted_cells_def)

lemma distinct_sorted_cells: "distinct (map fst (sorted_cells c))"
proof -
  have "mset (map fst (sorted_cells c)) = mset (map fst (live_cells (num_cells c) c))"
    by (simp add: sorted_cells_def)
  then show ?thesis using distinct_live_cells mset_eq_imp_distinct_iff by blast
qed

lemma sum_sorted_cells: "sum_list (map length_of (sorted_cells c)) = occupied c"
proof -
  have "mset (map length_of (sorted_cells c)) = mset (map length_of (live_cells (num_cells c) c))"
    by (simp add: sorted_cells_def)
  then show ?thesis unfolding occupied_def by (metis sum_mset_sum_list)
qed

lemma array_inv_cell:
  assumes "array_inv m c" and "(i, offset, len) \<in> set (live_cells (num_cells c) c)"
  shows "0 < len" "len \<le> offset" "offset + 3 * m + 1 \<le> 4088" "i < num_cells c"
proof -
  have "case (i, offset, len) of (i, offset, len) \<Rightarrow> 0 < len \<and> len \<le> offset \<and> offset + 3 * m + 1 \<le> DATA_SIZE"
    by (rule bspec [OF _ assms(2)])
       (use assms(1) live_cells_array [OF assms(1)] in \<open>simp add: array_inv_def cells_ok_def\<close>)
  then show "0 < len" "len \<le> offset" "offset + 3 * m + 1 \<le> 4088" by simp_all
  show "i < num_cells c" using assms(2) by (simp add: live_cells_iff)
qed

lemma chain_sorted_cells:
  assumes "array_inv m c" shows "chain 0 (sorted_cells c)"
proof (rule sorted_chain [where m = m])
  show "cells_ok m (set (sorted_cells c))"
    using assms live_cells_array [OF assms] by (simp add: array_inv_def)
  show "sorted (map offset_of (sorted_cells c))" by (simp add: sorted_cells_def)
  show "0 + len \<le> offset" if "(i, offset, len) \<in> set (sorted_cells c)" for i offset len
    using that array_inv_cell [OF assms] by simp
qed (rule distinct_sorted_cells)

lemma occupied_le:
  assumes "array_inv m c" shows "occupied c + 3 * m + 1 \<le> 4088"
proof (cases "m \<le> 1362")
  case True
  have "0 + sum_list (map length_of (sorted_cells c)) \<le> 4087 - 3 * m"
  proof (rule chain_sum [OF chain_sorted_cells [OF assms]])
    show "\<forall>x\<in>set (sorted_cells c). offset_of x \<le> 4087 - 3 * m"
      using array_inv_cell [OF assms] by fastforce
  qed simp
  with True show ?thesis by (simp add: sum_sorted_cells)
next
  case False
  then show ?thesis using assms by (simp add: array_inv_def page_consts)
qed

subsection \<open>Free space\<close>

lemma insort_key_map: "insort_key f (g x) (map g xs) = map g (insort_key (\<lambda>y. f (g y)) x xs)"
  by (induction xs) auto

lemma sort_key_map: "sort_key f (map g xs) = map g (sort_key (\<lambda>y. f (g y)) xs)"
  by (induction xs) (simp_all add: insort_key_map)

lemma map_live_pointers:
  "map f (filter (\<lambda>cp. \<not> cp_is_deleted cp) (cell_pointers_iter c)) =
   map (\<lambda>(i, offset, len). f (cell_pointer_at c i)) (live_cells (num_cells c) c)"
  by (simp add: cell_pointers_iter_def live_cells_def filter_map comp_def)

lemma total_occupied_space_eq:
  assumes "array_inv m c" shows "total_occupied_space c = occupied c"
proof -
  have "map cp_length (filter (\<lambda>cp. \<not> cp_is_deleted cp) (cell_pointers_iter c)) =
      map length_of (live_cells (num_cells c) c)"
    unfolding map_live_pointers by (intro map_cong) (auto simp: live_cells_iff)
  then show ?thesis using occupied_le [OF assms] by (simp add: total_occupied_space_def occupied_def)
qed

lemma used_space_eq:
  assumes "array_inv m c"
  shows "sort_key snd (map (\<lambda>cp. (u16_sub (cp_offset cp) (cp_length cp), cp_offset cp))
      (filter (\<lambda>cp. \<not> cp_is_deleted cp) (cell_pointers_iter c))) =
    map (\<lambda>(i, offset, len). (offset - len, offset)) (sorted_cells c)"
proof -
  have "map (\<lambda>cp. (u16_sub (cp_offset cp) (cp_length cp), cp_offset cp))
      (filter (\<lambda>cp. \<not> cp_is_deleted cp) (cell_pointers_iter c)) =
    map (\<lambda>(i, offset, len). (offset - len, offset)) (live_cells (num_cells c) c)"
    unfolding map_live_pointers
    by (intro map_cong refl) (use array_inv_cell [OF assms] in \<open>auto simp: live_cells_iff\<close>)
  then show ?thesis by (simp add: sort_key_map sorted_cells_def case_prod_unfold)
qed

text \<open>A slot between existing cells: it touches none of them, and all cells with it still fit.\<close>

lemma first_gap_slot:
  assumes "chain base cells" and "\<forall>x \<in> set cells. offset_of x \<le> bound" and "bound \<le> 4088" and "0 < n"
    and "first_gap (map (\<lambda>(i, offset, len). (offset - len, offset)) cells) n = Some slot"
  shows "base + n \<le> slot \<and> slot \<le> bound \<and> base + sum_list (map length_of cells) + n \<le> bound \<and>
    (\<forall>(i, offset, len) \<in> set cells. offset + n \<le> slot \<or> slot + len \<le> offset)"
  using assms
proof (induction "map (\<lambda>(i, offset :: nat, len). (offset - len, offset)) cells" n arbitrary: base cells rule: first_gap.induct)
  case (1 s1 o1 s2 o2 r n)
  then obtain i1 l1 i2 l2 cells' where cells: "cells = (i1, o1, l1) # (i2, o2, l2) # cells'"
    and s: "s1 = o1 - l1" "s2 = o2 - l2" "r = map (\<lambda>(i, offset, len). (offset - len, offset)) cells'"
    by (auto simp: Cons_eq_map_conv)
  have c: "0 < l1" "base + l1 \<le> o1" "chain o1 ((i2, o2, l2) # cells')" "0 < l2" "o1 + l2 \<le> o2" "chain o2 cells'"
    using "1.prems"(1) cells by simp_all
  have lower: "o2 + len \<le> offset" if "(i, offset, len) \<in> set cells'" for i offset len
    using chain_lower [OF c(6) that] by simp
  show ?case
  proof (cases "n \<le> s2 - o1")
    case True
    moreover have "o1 + n < 65536" "o1 \<le> s2" using True "1.prems"(2,3) cells s c by auto
    ultimately have slot: "slot = o1 + n" using "1.prems" cells s by simp
    have "o2 + sum_list (map length_of cells') \<le> bound"
      by (rule chain_sum [OF c(6)]) (use "1.prems" cells in auto)
    with True slot c lower "1.prems" s show ?thesis by (auto simp: cells dest: lower)
  next
    case False
    have "first_gap (map (\<lambda>(i, offset, len). (offset - len, offset)) ((i2, o2, l2) # cells')) n = Some slot"
      using False "1.prems" cells s c by simp
    from "1.hyps"(1) [OF _ _ c(3) _ "1.prems"(3,4) this] False s c "1.prems"(2) cells
    have "o1 + n \<le> slot \<and> slot \<le> bound \<and> o1 + sum_list (map length_of ((i2, o2, l2) # cells')) + n \<le> bound \<and>
      (\<forall>(i, offset, len) \<in> set ((i2, o2, l2) # cells'). offset + n \<le> slot \<or> slot + len \<le> offset)" by simp
    then show ?thesis using c by (auto simp: cells)
  qed
qed auto

text \<open>The number of pointers of the page once the pointer at \<open>index\<close> is in use.\<close>

abbreviation cells_with :: "bytes \<Rightarrow> nat \<Rightarrow> nat" where
  "cells_with c index \<equiv> max (num_cells c) (Suc index)"

text \<open>A page on which a cell may be allocated for \<open>index\<close>: the pointer there is not in use.\<close>

definition slot_ready :: "nat \<Rightarrow> bytes \<Rightarrow> nat \<Rightarrow> bool" where
  "slot_ready m c index \<longleftrightarrow>
     array_inv m c \<and> index \<le> m \<and> index < MAX_NUM_CELLS \<and>
     (index < m \<longrightarrow> cp_is_deleted (cell_pointer_at c index))"

definition slot_ok :: "bytes \<Rightarrow> nat \<Rightarrow> nat \<Rightarrow> nat \<Rightarrow> bool" where
  "slot_ok c index len slot \<longleftrightarrow>
     len \<le> slot \<and> slot + 3 * cells_with c index + 1 \<le> DATA_SIZE \<and>
     (\<forall>(j, offset, l) \<in> set (live_cells (num_cells c) c).
        (offset + len \<le> slot \<or> slot + l \<le> offset) \<and> offset + 3 * cells_with c index + 1 \<le> DATA_SIZE)"

definition fits :: "bytes \<Rightarrow> nat \<Rightarrow> nat \<Rightarrow> bool" where
  "fits c index len \<longleftrightarrow> occupied c + len + 3 * cells_with c index + 1 \<le> DATA_SIZE"

definition max_live_offset :: "bytes \<Rightarrow> nat \<Rightarrow> nat" where
  "max_live_offset c index = fold (\<lambda>i m. if i = index then m
     else let cp = cell_pointer_at c i in
       if \<not> cp_is_deleted cp \<and> m < cp_offset cp then cp_offset cp else m) [0..<num_cells c] 0"

lemma fold_max_ge:
  "m \<le> fold (\<lambda>i m. if i = index then m else let cp = f i in if \<not> D cp \<and> m < g cp then g cp else m) xs (m :: nat) \<and>
   (\<forall>i \<in> set xs. i \<noteq> index \<and> \<not> D (f i) \<longrightarrow>
      g (f i) \<le> fold (\<lambda>i m. if i = index then m else let cp = f i in if \<not> D cp \<and> m < g cp then g cp else m) xs m)"
  by (induction xs arbitrary: m) (auto simp: Let_def, (meson le_trans nat_le_linear not_le)+)

lemma fold_max_le:
  "m \<le> b \<Longrightarrow> \<forall>i \<in> set xs. \<not> D (f i) \<longrightarrow> g (f i) \<le> b \<Longrightarrow>
   fold (\<lambda>i m. if i = index then m else let cp = f i in if \<not> D cp \<and> m < g cp then g cp else m) xs (m :: nat) \<le> b"
  by (induction xs arbitrary: m) (auto simp: Let_def)

lemma max_live_offset_ge:
  assumes "slot_ready m c index" and "(i, offset, len) \<in> set (live_cells (num_cells c) c)"
  shows "offset \<le> max_live_offset c index"
proof -
  have "i \<noteq> index" using assms by (auto simp: slot_ready_def live_cells_iff array_inv_def)
  then show ?thesis
    unfolding max_live_offset_def
    using assms(2) fold_max_ge [of 0 index "cell_pointer_at c" cp_is_deleted cp_offset "[0..<num_cells c]"]
    by (auto simp: live_cells_iff)
qed

lemma max_live_offset_le:
  assumes "\<And>i offset len. (i, offset, len) \<in> set (live_cells (num_cells c) c) \<Longrightarrow> offset \<le> b"
  shows "max_live_offset c index \<le> b"
  unfolding max_live_offset_def using assms by (intro fold_max_le) (auto simp: live_cells_iff)

lemma header_room:
  "(n :: nat) \<le> 255 \<Longrightarrow> x + 3 * n + 1 \<le> 4088 \<longleftrightarrow> x \<le> 4087 - 3 * n"
  "(n :: nat) \<le> 255 \<Longrightarrow> usize_sub 4088 (n * 3 + 1) = 4087 - 3 * n"
  by auto

lemma remaining_space_eq:
  assumes "slot_ready m c index" and "len < 60000"
  shows "find_available_slot_in_remaining_space c index len =
    (if max_live_offset c index + len + 3 * cells_with c index + 1 \<le> 4088
     then Some (max_live_offset c index + len) else None)"
proof -
  have "max_live_offset c index \<le> 4088"
    using assms array_inv_cell by (intro max_live_offset_le) (fastforce simp: slot_ready_def)
  then have "u16_add (max_live_offset c index) len = max_live_offset c index + len" using assms(2) by simp
  moreover have n: "cells_with c index \<le> 255"
    using assms by (simp add: slot_ready_def array_inv_def page_consts)
  moreover have "length c = 4088" "u8_add index 1 = Suc index"
    using assms by (simp_all add: slot_ready_def array_inv_def page_consts)
  ultimately show ?thesis
    unfolding find_available_slot_in_remaining_space_def Let_def max_live_offset_def [symmetric, unfolded Let_def]
    by (simp only: CELL_POINTER_SIZE_def header_room(2) [OF n] header_room(1) [OF n]) (simp only: not_le [symmetric] if_not_P if_distrib split: if_split, blast)
qed

lemma used_space_Some:
  assumes "slot_ready m c index" and "0 < len" and "find_available_slot_in_used_space c index len = Some slot"
  shows "slot_ok c index len slot \<and> fits c index len"
proof -
  have inv: "array_inv m c" and len: "length c = 4088" and idx: "index < 255" "u8_add index 1 = Suc index"
    using assms(1) by (simp_all add: slot_ready_def array_inv_def page_consts)
  define bound where "bound = 4087 - 3 * cells_with c index"
  have "cells_with c index \<le> 255" using assms(1) by (simp add: slot_ready_def array_inv_def page_consts)
  then have bound: "x + 3 * cells_with c index + 1 \<le> 4088 \<longleftrightarrow> x \<le> bound" for x
    unfolding bound_def by (rule header_room(1))
  have hdr: "\<not> list_ex (\<lambda>cp. length c < cp_offset cp + (cells_with c index * CELL_POINTER_SIZE + 1))
       (filter (\<lambda>cp. \<not> cp_is_deleted cp) (cell_pointers_iter c))"
    and gap: "first_gap (map (\<lambda>(i, offset, len). (offset - len, offset)) (sorted_cells c)) len = Some slot"
    using assms(3) idx by (simp_all add: find_available_slot_in_used_space_def Let_def used_space_eq [OF inv] split: if_splits)
  have below: "offset \<le> bound" if "(i, offset, l) \<in> set (live_cells (num_cells c) c)" for i offset l
    using hdr that len
    by (auto simp: list_ex_iff live_cells_iff cell_pointers_iter_def page_consts simp flip: bound)
  have "0 + len \<le> slot \<and> slot \<le> bound \<and> 0 + sum_list (map length_of (sorted_cells c)) + len \<le> bound \<and>
    (\<forall>(i, offset, l) \<in> set (sorted_cells c). offset + len \<le> slot \<or> slot + l \<le> offset)"
    by (rule first_gap_slot [OF chain_sorted_cells [OF inv] _ _ assms(2) gap])
       (use below in \<open>auto simp: bound_def\<close>)
  with below show ?thesis
    by (auto simp: slot_ok_def fits_def sum_sorted_cells bound simp del: One_nat_def add_Suc_right)
qed

lemma find_available_slot_Some:
  assumes "slot_ready m c index" and "0 < len" and "len < 60000" and "find_available_slot c index len = Some slot"
  shows "slot_ok c index len slot \<and> fits c index len"
proof (cases "find_available_slot_in_used_space c index len")
  case (Some slot')
  then show ?thesis using used_space_Some assms by (auto simp: find_available_slot_def)
next
  case None
  then have rem: "max_live_offset c index + len + 3 * cells_with c index + 1 \<le> 4088"
    and slot: "slot = max_live_offset c index + len"
    using assms(4) remaining_space_eq [OF assms(1,3)] by (auto simp: find_available_slot_def split: if_splits)
  have inv: "array_inv m c" using assms(1) by (simp add: slot_ready_def)
  have "0 + sum_list (map length_of (sorted_cells c)) \<le> max_live_offset c index"
    by (rule chain_sum [OF chain_sorted_cells [OF inv]]) (use max_live_offset_ge [OF assms(1)] in auto)
  then have "fits c index len" using rem by (simp add: fits_def sum_sorted_cells)
  moreover have "slot_ok c index len slot"
    unfolding slot_ok_def slot using rem max_live_offset_ge [OF assms(1)] by fastforce
  ultimately show ?thesis by simp
qed

lemma find_available_slot_packed:
  assumes "slot_ready m c index" and "len < 60000" and "fits c index len"
    and "\<And>i offset l. (i, offset, l) \<in> set (live_cells (num_cells c) c) \<Longrightarrow> offset \<le> occupied c"
  obtains slot where "find_available_slot c index len = Some slot"
proof -
  have "max_live_offset c index \<le> occupied c" by (rule max_live_offset_le) (rule assms(4))
  with assms(3) have "max_live_offset c index + len + 3 * cells_with c index + 1 \<le> 4088"
    by (simp add: fits_def)
  then show ?thesis
    using that remaining_space_eq [OF assms(1,2)]
    by (cases "find_available_slot_in_used_space c index len") (simp_all add: find_available_slot_def)
qed

end
