(* ===== verification/Slotted_Page_Alloc.thy ===== *)
theory Slotted_Page_Alloc
  imports Slotted_Page
begin

text \<open>
  Allocation of cells: the defragmentation loop packs the cells in the order of their offsets and
  changes the data of none of them, and \<open>allocate_cell_pointer\<close> returns after at most one
  defragmentation, with a cell exactly when there is room for it.
\<close>

subsection \<open>Defragmentation\<close>

fun pack :: "nat \<Rightarrow> (nat \<times> nat \<times> nat) list \<Rightarrow> (nat \<times> nat \<times> nat) list" where
  "pack base [] = []"
| "pack base ((i, offset, len) # cells) = (i, base + len, len) # pack (base + len) cells"

lemma chain_weaken: "chain b cells \<Longrightarrow> base \<le> b \<Longrightarrow> chain base cells"
  by (cases "(b, cells)" rule: chain.cases) auto

lemma chain_pack: "chain b cells \<Longrightarrow> chain base (pack base cells)"
  by (induction b cells arbitrary: base rule: chain.induct) auto

lemma pack_bound: "(i, offset, len) \<in> set (pack base cells) \<Longrightarrow> offset \<le> base + sum_list (map length_of cells)"
  by (induction base cells rule: pack.induct) auto

definition move_cell :: "bytes \<Rightarrow> nat \<Rightarrow> nat \<Rightarrow> nat \<Rightarrow> nat \<Rightarrow> bytes" where
  "move_cell c idx offset len new_offset =
     (let c1 = write_at c (get_content_index idx) (cp_bytes new_offset len)
      in write_at c1 (DATA_SIZE - new_offset) (region c1 offset len))"

lemma move_cell:
  assumes "length c = DATA_SIZE" and "idx < m" and "m \<le> 255" and "0 < len" and "len \<le> new_offset"
    and "new_offset \<le> offset" and "offset + 3 * m + 1 \<le> DATA_SIZE"
  shows length_move_cell: "length (move_cell c idx offset len new_offset) = DATA_SIZE"
    and num_cells_move_cell: "num_cells (move_cell c idx offset len new_offset) = num_cells c"
    and pointer_move_cell: "\<And>k. k < m \<Longrightarrow> cell_pointer_at (move_cell c idx offset len new_offset) k =
          (if k = idx then cp_bytes new_offset len else cell_pointer_at c k)"
    and moved_region: "region (move_cell c idx offset len new_offset) new_offset len = region c offset len"
    and other_region: "\<And>o2 l. l \<le> o2 \<Longrightarrow> o2 + 3 * m + 1 \<le> DATA_SIZE \<Longrightarrow> o2 + len \<le> new_offset \<or> new_offset + l \<le> o2 \<Longrightarrow>
          region (move_cell c idx offset len new_offset) o2 l = region c o2 l"
proof -
  define c1 where "c1 = write_at c (get_content_index idx) (cp_bytes new_offset len)"
  have c1: "length c1 = DATA_SIZE" "num_cells c1 = num_cells c"
    using assms by (simp_all add: c1_def page_consts)
  have ptr: "cell_pointer_at c1 k = (if k = idx then cp_bytes new_offset len else cell_pointer_at c k)" if "k < m" for k
    unfolding c1_def using assms that by (intro cell_pointer_at_write) auto
  have reg: "region c1 o2 l = region c o2 l" if "l \<le> o2" "o2 + 3 * m + 1 \<le> DATA_SIZE" for o2 l
    unfolding c1_def using assms that by (intro region_write_header) (auto simp: page_consts)
  have len: "length (region c1 offset len) = len" using assms c1 by (simp add: region_def)
  have eq: "move_cell c idx offset len new_offset = write_at c1 (DATA_SIZE - new_offset) (region c1 offset len)"
    by (simp add: move_cell_def c1_def Let_def)
  show "length (move_cell c idx offset len new_offset) = DATA_SIZE"
    "num_cells (move_cell c idx offset len new_offset) = num_cells c"
    using assms c1 len by (simp_all add: eq)
  show "cell_pointer_at (move_cell c idx offset len new_offset) k =
      (if k = idx then cp_bytes new_offset len else cell_pointer_at c k)" if "k < m" for k
    using assms c1 len that ptr by (simp add: eq cell_pointer_at_write_data page_consts)
  show "region (move_cell c idx offset len new_offset) new_offset len = region c offset len"
    unfolding eq using assms c1 len by (subst region_write_same) (auto intro: reg)
  show "region (move_cell c idx offset len new_offset) o2 l = region c o2 l"
    if "l \<le> o2" "o2 + 3 * m + 1 \<le> DATA_SIZE" "o2 + len \<le> new_offset \<or> new_offset + l \<le> o2" for o2 l
    unfolding eq using assms c1 len that by (subst region_write_region) (auto intro: reg)
qed

lemma defragment_loop_move:
  assumes "length c = DATA_SIZE" and "idx < m" and "m \<le> 255" and "0 < len" and "base + len \<le> offset"
    and "offset + 3 * m + 1 \<le> DATA_SIZE" and "offset - len \<noteq> last_start"
  shows "defragment_loop ((idx, offset, len) # cells) last_start base c =
    defragment_loop cells base (base + len) (move_cell c idx offset len (base + len))"
proof -
  define c1 where "c1 = write_at c (get_content_index idx) (cp_bytes (base + len) len)"
  have "set_cell_pointer c idx (base + len) len = (Ok (cp_bytes (base + len) len), c1)"
    unfolding c1_def using assms by (intro set_cell_pointer_eq) auto
  moreover have "length c1 = DATA_SIZE" using assms by (simp add: c1_def page_consts)
  then have "copy_within c1 (DATA_SIZE - offset) (DATA_SIZE - offset + len) (DATA_SIZE - (base + len)) =
      (Ok (), move_cell c idx offset len (base + len))"
    using assms by (simp add: copy_within_def move_cell_def c1_def region_def Let_def) linarith
  moreover have "u16_add base len = base + len" "u16_sub offset len = offset - len" "u16_sub DATA_SIZE offset = DATA_SIZE - offset"
    "u16_sub DATA_SIZE (base + len) = DATA_SIZE - (base + len)" "u16_sub (base + len) len = base"
    using assms by simp_all
  ultimately show ?thesis using assms(7) by (simp add: Let_def del: DATA_SIZE_eq)
qed

definition same_cell :: "bytes \<Rightarrow> bytes \<Rightarrow> nat \<times> nat \<times> nat \<Rightarrow> nat \<times> nat \<times> nat \<Rightarrow> bool" where
  "same_cell c c' a b =
     (case (a, b) of ((i, offset, len), (j, offset', len')) \<Rightarrow>
        j = i \<and> len' = len \<and> cp_offset (cell_pointer_at c' i) = offset' \<and> cp_length (cell_pointer_at c' i) = len \<and>
        region c' offset' len = region c offset len)"

lemma same_cell_source:
  assumes "list_all2 (same_cell c1 c') cells packed" and "\<And>i offset len. (i, offset, len) \<in> set cells \<Longrightarrow> region c1 offset len = region c offset len"
  shows "list_all2 (same_cell c c') cells packed"
  using assms(1) by (rule list.rel_mono_strong) (use assms(2) in \<open>auto simp: same_cell_def\<close>)

definition loop_pre :: "nat \<Rightarrow> bytes \<Rightarrow> nat \<Rightarrow> nat \<Rightarrow> (nat \<times> nat \<times> nat) list \<Rightarrow> bool" where
  "loop_pre m c last_start base cells \<longleftrightarrow>
     length c = DATA_SIZE \<and> m \<le> 255 \<and> chain base cells \<and> (last_start = 0 \<and> base = 0 \<or> last_start < base) \<and>
     distinct (map fst cells) \<and>
     (\<forall>(i, offset, len) \<in> set cells. i < m \<and> offset + 3 * m + 1 \<le> DATA_SIZE \<and>
        cp_offset (cell_pointer_at c i) = offset \<and> cp_length (cell_pointer_at c i) = len)"

lemma defragment_loop_spec:
  assumes "loop_pre m c last_start base cells"
  obtains c' where "defragment_loop cells last_start base c = (Ok (), c')" and "length c' = DATA_SIZE"
    and "num_cells c' = num_cells c"
    and "\<And>k. k < m \<Longrightarrow> k \<notin> fst ` set cells \<Longrightarrow> cell_pointer_at c' k = cell_pointer_at c k"
    and "\<And>offset len. len \<le> offset \<Longrightarrow> offset \<le> base \<Longrightarrow> offset + 3 * m + 1 \<le> DATA_SIZE \<Longrightarrow> region c' offset len = region c offset len"
    and "list_all2 (same_cell c c') cells (pack base cells)"
  using assms
proof (induction cells arbitrary: thesis c last_start base)
  case Nil
  then show ?case by (simp add: loop_pre_def)
next
  case (Cons cell cells)
  obtain i offset len where cell: "cell = (i, offset, len)" by (cases cell)
  have pre: "length c = DATA_SIZE" "m \<le> 255" "0 < len" "base + len \<le> offset" "chain offset cells"
    "last_start = 0 \<and> base = 0 \<or> last_start < base" "i \<notin> fst ` set cells" "distinct (map fst cells)"
    "i < m" "offset + 3 * m + 1 \<le> DATA_SIZE"
    "cp_offset (cell_pointer_at c i) = offset" "cp_length (cell_pointer_at c i) = len"
    using Cons.prems(2) by (auto simp: loop_pre_def cell simp del: DATA_SIZE_eq)
  have rest: "j < m \<and> o2 + 3 * m + 1 \<le> DATA_SIZE \<and> cp_offset (cell_pointer_at c j) = o2 \<and>
      cp_length (cell_pointer_at c j) = l \<and> offset + l \<le> o2 \<and> j \<noteq> i" if "(j, o2, l) \<in> set cells" for j o2 l
    using Cons.prems(2) that chain_lower [OF pre(5) that] pre(7) by (auto simp: loop_pre_def cell rev_image_eqI)
  define c1 where "c1 = (if offset - len = last_start then c else move_cell c i offset len (base + len))"
  define start1 where "start1 = (if offset - len = last_start then last_start else base)"
  have stay: "offset = base + len" if "offset - len = last_start" using that pre by auto
  have step: "defragment_loop (cell # cells) last_start base c = defragment_loop cells start1 (base + len) c1"
    using stay defragment_loop_move [OF pre(1) pre(9,2,3,4,10)] pre
    by (simp add: c1_def start1_def cell Let_def)
  note mv = move_cell [OF pre(1) pre(9,2,3) _ pre(4,10)]
  have c1: "length c1 = DATA_SIZE" "num_cells c1 = num_cells c"
    using pre mv(1,2) by (simp_all add: c1_def)
  have ptr: "cell_pointer_at c1 k = cell_pointer_at c k" if "k < m" "k \<noteq> i" for k
    using that mv(3) by (simp add: c1_def)
  have own: "cp_offset (cell_pointer_at c1 i) = base + len \<and> cp_length (cell_pointer_at c1 i) = len"
    using pre mv(3) stay by (simp add: c1_def)
  have reg: "region c1 o2 l = region c o2 l"
    if "l \<le> o2" "o2 + 3 * m + 1 \<le> DATA_SIZE" "o2 \<le> base \<or> offset + l \<le> o2" for o2 l
    using that mv(5) pre by (auto simp: c1_def)
  have own_reg: "region c1 (base + len) len = region c offset len"
    using mv(4) stay by (simp add: c1_def)
  have "chain (base + len) cells" using pre(4,5) by (rule chain_weaken [rotated])
  moreover have "start1 < base + len" using stay pre(3) by (auto simp: start1_def)
  ultimately have pre1: "loop_pre m c1 start1 (base + len) cells"
    unfolding loop_pre_def using c1(1) pre(2,8) rest ptr by (auto simp del: DATA_SIZE_eq)
  obtain c' where c': "defragment_loop cells start1 (base + len) c1 = (Ok (), c')" "length c' = DATA_SIZE"
    "num_cells c' = num_cells c1"
    and ptr': "\<And>k. k < m \<Longrightarrow> k \<notin> fst ` set cells \<Longrightarrow> cell_pointer_at c' k = cell_pointer_at c1 k"
    and reg': "\<And>o2 l. l \<le> o2 \<Longrightarrow> o2 \<le> base + len \<Longrightarrow> o2 + 3 * m + 1 \<le> DATA_SIZE \<Longrightarrow> region c' o2 l = region c1 o2 l"
    and all': "list_all2 (same_cell c1 c') cells (pack (base + len) cells)"
    using Cons.IH [OF _ pre1] by blast
  have "list_all2 (same_cell c c') cells (pack (base + len) cells)"
    using all' by (rule same_cell_source) (use rest reg in force)
  moreover have "same_cell c c' cell (i, base + len, len)"
    using own own_reg ptr' [OF pre(9,7)] reg' [of len "base + len"] pre(4,10) by (simp add: same_cell_def cell)
  ultimately have "list_all2 (same_cell c c') (cell # cells) (pack base (cell # cells))" by (simp add: cell)
  moreover have "region c' o2 l = region c o2 l" if "l \<le> o2" "o2 \<le> base" "o2 + 3 * m + 1 \<le> DATA_SIZE" for o2 l
    using reg' [of l o2] reg [of l o2] that by simp
  moreover have "cell_pointer_at c' k = cell_pointer_at c k" if "k < m" "k \<notin> fst ` set (cell # cells)" for k
    using ptr' [of k] ptr [of k] that by (simp add: cell)
  ultimately show ?case using Cons.prems(1) [of c'] c' c1 step by simp
qed

definition same_cells :: "bytes \<Rightarrow> bytes \<Rightarrow> bool" where
  "same_cells c c' \<longleftrightarrow> num_cells c' = num_cells c \<and> cell_data c' = cell_data c \<and> occupied c' = occupied c"

lemma sorted_cells_loop_pre:
  assumes "array_inv m c" shows "loop_pre m c 0 0 (sorted_cells c)"
proof -
  have "i < m \<and> offset + 3 * m + 1 \<le> DATA_SIZE \<and> cp_offset (cell_pointer_at c i) = offset \<and> cp_length (cell_pointer_at c i) = len"
    if "(i, offset, len) \<in> set (live_cells (num_cells c) c)" for i offset len
    using array_inv_cell [OF assms that] assms that by (simp add: live_cells_iff array_inv_def)
  then show ?thesis
    using assms chain_sorted_cells [OF assms] distinct_sorted_cells [of c]
    by (auto simp: loop_pre_def array_inv_def page_consts)
qed

lemma same_cell_at:
  assumes "list_all2 (same_cell c c') (sorted_cells c) packed"
    and "(i, offset, len) \<in> set (live_cells (num_cells c) c)"
  shows "\<exists>offset'. (i, offset', len) \<in> set packed \<and> cp_offset (cell_pointer_at c' i) = offset' \<and>
    cp_length (cell_pointer_at c' i) = len \<and> region c' offset' len = region c offset len"
proof -
  obtain k where k: "k < length (sorted_cells c)" "sorted_cells c ! k = (i, offset, len)"
    using assms(2) by (metis in_set_conv_nth set_sorted_cells)
  then have "same_cell c c' (i, offset, len) (packed ! k)" "packed ! k \<in> set packed"
    using assms(1) by (auto simp: list_all2_conv_all_nth dest: spec [of _ k])
  then show ?thesis by (cases "packed ! k") (auto simp: same_cell_def)
qed

lemma moved_live_cells:
  assumes all: "list_all2 (same_cell c c') (sorted_cells c) packed" and "num_cells c' = num_cells c"
    and same: "\<And>k. k < num_cells c \<Longrightarrow> k \<notin> fst ` set (sorted_cells c) \<Longrightarrow> cell_pointer_at c' k = cell_pointer_at c k"
    and pos: "\<And>i offset len. (i, offset, len) \<in> set (live_cells (num_cells c) c) \<Longrightarrow> 0 < len"
  shows "set (live_cells (num_cells c) c') \<subseteq> set packed" and "same_cells c c'"
proof -
  have live: "(i, cp_offset (cell_pointer_at c i), cp_length (cell_pointer_at c i)) \<in> set (live_cells (num_cells c) c)"
    if "i < num_cells c" "\<not> cp_is_deleted (cell_pointer_at c i)" for i
    using that by (simp add: live_cells_iff)
  have dead: "cell_pointer_at c' i = cell_pointer_at c i"
    if "i < num_cells c" "cp_is_deleted (cell_pointer_at c i)" for i
  proof (rule same)
    show "i \<notin> fst ` set (sorted_cells c)" using that by (auto simp: live_cells_iff)
  qed (rule that)
  have del: "cp_is_deleted (cell_pointer_at c' i) \<longleftrightarrow> cp_is_deleted (cell_pointer_at c i)" if "i < num_cells c" for i
  proof (cases "cp_is_deleted (cell_pointer_at c i)")
    case True
    with dead that show ?thesis by simp
  next
    case False
    from same_cell_at [OF all live [OF that False]] pos [OF live [OF that False]] False
    show ?thesis by (auto simp: cp_deleted_iff)
  qed
  have len: "cp_length (cell_pointer_at c' i) = cp_length (cell_pointer_at c i)" if "i < num_cells c" for i
    using that dead same_cell_at [OF all live [OF that]] by (cases "cp_is_deleted (cell_pointer_at c i)") auto
  show "set (live_cells (num_cells c) c') \<subseteq> set packed"
    using del same_cell_at [OF all live] by (fastforce simp: live_cells_iff)
  have "cell_data c' i = cell_data c i" for i
    using del assms(2) same_cell_at [OF all live] by (auto simp: cell_data_def Let_def)
  moreover have "occupied c' = occupied c"
  proof -
    have "filter (\<lambda>i. \<not> cp_is_deleted (cell_pointer_at c' i)) [0..<num_cells c] =
        filter (\<lambda>i. \<not> cp_is_deleted (cell_pointer_at c i)) [0..<num_cells c]"
      using del by (intro filter_cong) simp_all
    then show ?thesis
      using len assms(2) by (auto simp: occupied_def live_cells_def comp_def intro!: arg_cong [where f = sum_list])
  qed
  ultimately show "same_cells c c'" using assms(2) by (auto simp: same_cells_def)
qed

lemma header_sum:
  "n \<le> 255 \<Longrightarrow> b \<le> 4088 \<Longrightarrow> l < 60000 \<Longrightarrow> u16_add (u16_add (u16_add b l) (n * 3)) 1 = b + l + 3 * n + 1"
  by simp

lemma defragment_spec:
  assumes "slot_ready m c index" and "len < 60000"
  shows "if fits c index len
    then \<exists>c'. defragment c index len = (Ok True, c') \<and> slot_ready m c' index \<and> same_cells c c' \<and>
      (\<forall>(i, offset, l) \<in> set (live_cells (num_cells c') c'). offset \<le> occupied c')
    else defragment c index len = (Ok False, c)"
proof -
  have inv: "array_inv m c" and idx: "u8_add index 1 = Suc index" "index < 255" "index \<le> m" "length c = 4088" "m \<le> 255" "num_cells c \<le> m"
    using assms(1) by (simp_all add: slot_ready_def array_inv_def page_consts)
  have small: "occupied c \<le> 4088" using occupied_le [OF inv] by simp
  have n: "cells_with c index \<le> 255" using idx by simp
  have check: "u16_add (u16_add (u16_add (total_occupied_space c) len) (cells_with c index * CELL_POINTER_SIZE)) 1 =
      occupied c + len + 3 * cells_with c index + 1"
    unfolding total_occupied_space_eq [OF inv] CELL_POINTER_SIZE_def by (rule header_sum [OF n small assms(2)])
  obtain c' where c': "defragment_loop (sorted_cells c) 0 0 c = (Ok (), c')" "length c' = DATA_SIZE" "num_cells c' = num_cells c"
    and ptr: "\<And>k. k < m \<Longrightarrow> k \<notin> fst ` set (sorted_cells c) \<Longrightarrow> cell_pointer_at c' k = cell_pointer_at c k"
    and all: "list_all2 (same_cell c c') (sorted_cells c) (pack 0 (sorted_cells c))"
    using defragment_loop_spec [OF sorted_cells_loop_pre [OF inv]] by metis
  note moved = moved_live_cells [OF all c'(3) ptr]
  have sub: "set (live_cells (num_cells c) c') \<subseteq> set (pack 0 (sorted_cells c))" and same: "same_cells c c'"
    using moved array_inv_cell(1) [OF inv] idx(6) by (auto dest: less_le_trans)
  have bound: "offset \<le> occupied c" if "(i, offset, l) \<in> set (live_cells (num_cells c) c')" for i offset l
    using pack_bound [of i offset l 0 "sorted_cells c"] sub that by (auto simp: sum_sorted_cells)
  have dead: "cp_is_deleted (cell_pointer_at c' k)" if "k < m" "cp_is_deleted (cell_pointer_at c k)" for k
  proof -
    have "k \<notin> fst ` set (sorted_cells c)" using that by (auto simp: live_cells_iff)
    with that ptr show ?thesis by simp
  qed
  have deadm: "\<forall>k\<in>{num_cells c..<m}. cp_is_deleted (cell_pointer_at c' k)"
    using inv dead by (auto simp: array_inv_def)
  then have livem: "live_cells m c' = live_cells (num_cells c) c'"
    by (rule live_cells_trim [OF idx(6)])
  have "disjoint_cells a b" if "a \<in> set (live_cells (num_cells c) c')" "b \<in> set (live_cells (num_cells c) c')" for a b
    using chain_disjoint [OF chain_pack [OF chain_sorted_cells [OF inv]]] sub that
    by (cases a; cases b) (fastforce simp: disjoint_cells_def)
  moreover have "0 < l \<and> l \<le> offset \<and> offset + 3 * m + 1 \<le> DATA_SIZE"
    if "(i, offset, l) \<in> set (live_cells (num_cells c) c')" for i offset l
    using chain_lower [OF chain_pack [OF chain_sorted_cells [OF inv]]] sub that bound [OF that] occupied_le [OF inv]
    by fastforce
  ultimately have "cells_ok m (set (live_cells m c'))" by (auto simp: cells_ok_def livem)
  then have "array_inv m c'" using c' deadm idx by (simp add: array_inv_def page_consts)
  then have ready: "slot_ready m c' index" using assms(1) dead by (simp add: slot_ready_def)
  show ?thesis
  proof (cases "fits c index len")
    case True
    then have "defragment c index len = (Ok True, c')"
      using c'(1) check idx(1) by (simp add: defragment_def fits_def sorted_cells_def Let_def)
    with True ready same bound show ?thesis by (auto simp: same_cells_def)
  next
    case False
    then show ?thesis using check idx(1) by (simp add: defragment_def fits_def Let_def)
  qed
qed

subsection \<open>Allocation\<close>

lemma occupied_sum: "occupied c = (\<Sum>i < num_cells c. cp_length (cell_pointer_at c i))"
proof -
  have "sum_list (map length_of (live_cells n c)) = (\<Sum>i < n. cp_length (cell_pointer_at c i))" for n
    by (induction n) (simp_all add: live_cells_def cp_deleted_iff)
  then show ?thesis by (simp add: occupied_def)
qed

definition placed :: "bytes \<Rightarrow> nat \<Rightarrow> nat \<Rightarrow> nat \<Rightarrow> bytes" where
  "placed c index slot len =
     write_at (if num_cells c < cells_with c index then set_num_cells c (cells_with c index) else c)
       (get_content_index index) (cp_bytes slot len)"

lemma placed_basic:
  assumes "slot_ready m c index" and "slot_ok c index len slot" and "0 < len"
  shows "length (placed c index slot len) = 4088" "num_cells (placed c index slot len) = cells_with c index"
    and "\<And>k. k < 255 \<Longrightarrow> cell_pointer_at (placed c index slot len) k = (if k = index then cp_bytes slot len else cell_pointer_at c k)"
    and "set_cell_pointer (if num_cells c < cells_with c index then set_num_cells c (cells_with c index) else c) index slot len =
      (Ok (cp_bytes slot len), placed c index slot len)"
    and "\<And>offset l. l \<le> offset \<Longrightarrow> 0 < l \<Longrightarrow> offset + 3 * cells_with c index + 1 \<le> 4088 \<Longrightarrow>
      region (placed c index slot len) offset l = region c offset l"
proof -
  define n where "n = cells_with c index"
  have n: "num_cells c \<le> n" "Suc index \<le> n" "n \<le> 255" and idx: "index < 255" "length c = 4088" and slot: "slot < 4088" "len \<le> slot"
    using assms by (simp_all add: n_def slot_ready_def slot_ok_def array_inv_def page_consts)
  define c1 where "c1 = (if num_cells c < n then set_num_cells c n else c)"
  have "c \<noteq> []" using idx by auto
  then have c1: "length c1 = 4088" "num_cells c1 = n"
    using n idx by (auto simp: c1_def)
  have ptr: "cell_pointer_at c1 k = cell_pointer_at c k" for k by (simp add: c1_def)
  have p: "placed c index slot len = write_at c1 (get_content_index index) (cp_bytes slot len)"
    by (simp add: placed_def c1_def n_def)
  show "length (placed c index slot len) = 4088" "num_cells (placed c index slot len) = cells_with c index"
    using c1 idx by (simp_all add: p page_consts n_def)
  show "cell_pointer_at (placed c index slot len) k = (if k = index then cp_bytes slot len else cell_pointer_at c k)"
    if "k < 255" for k using c1 idx that by (simp add: p cell_pointer_at_write ptr)
  show "set_cell_pointer (if num_cells c < cells_with c index then set_num_cells c (cells_with c index) else c) index slot len =
      (Ok (cp_bytes slot len), placed c index slot len)"
    unfolding n_def [symmetric] c1_def [symmetric] p using c1 idx slot by (intro set_cell_pointer_eq) simp_all
  show "region (placed c index slot len) offset l = region c offset l"
    if "l \<le> offset" "0 < l" "offset + 3 * cells_with c index + 1 \<le> 4088" for offset l
  proof -
    have "region (placed c index slot len) offset l = region c1 offset l"
      unfolding p using c1 idx that(1,2) that(3) [folded n_def] n(2) by (intro region_write_header) (auto simp: page_consts)
    also have "\<dots> = region c offset l" using that by (simp add: c1_def)
    finally show ?thesis .
  qed
qed

lemma placed_live_cells:
  assumes "slot_ready m c index" and "slot_ok c index len slot" and "0 < len"
  shows "set (live_cells (cells_with c index) (placed c index slot len)) =
    insert (index, slot, len) (set (live_cells (num_cells c) c))"
proof -
  note b = placed_basic [OF assms]
  have dead: "cp_is_deleted (cell_pointer_at c k)" if "num_cells c \<le> k" "k < index" for k
    using assms(1) that by (auto simp: slot_ready_def array_inv_def)
  have idx: "\<not> index < num_cells c \<or> cp_is_deleted (cell_pointer_at c index)" "index < 255" "num_cells c \<le> 255"
    using assms(1) by (auto simp: slot_ready_def array_inv_def page_consts)
  have slot: "slot < 4096" "len < 4096" using assms(2) by (auto simp: slot_ok_def)
  have "x \<in> set (live_cells (cells_with c index) (placed c index slot len)) \<longleftrightarrow>
      x \<in> insert (index, slot, len) (set (live_cells (num_cells c) c))" for x
  proof -
    obtain k offset l where x: "x = (k, offset, l)" by (cases x)
    show ?thesis
    proof (cases "k = index")
      case True
      then show ?thesis using b(3) [of index] idx slot assms(3) by (auto simp: x live_cells_iff)
    next
      case False
      have "k < cells_with c index \<and> \<not> cp_is_deleted (cell_pointer_at c k) \<longleftrightarrow> k < num_cells c \<and> \<not> cp_is_deleted (cell_pointer_at c k)"
        using dead [of k] False by (cases "num_cells c \<le> k") (auto simp: less_max_iff_disj less_Suc_eq)
      moreover have "k < 255" if "k < cells_with c index" using that idx by auto
      ultimately show ?thesis using False b(3) [of k] by (auto simp: x live_cells_iff)
    qed
  qed
  then show ?thesis by blast
qed

lemma placed_spec:
  assumes "slot_ready m c index" and "slot_ok c index len slot" and "0 < len"
  shows "page_inv (placed c index slot len)"
    and "\<And>k. k \<noteq> index \<Longrightarrow> cell_data (placed c index slot len) k = cell_data c k"
    and "occupied (placed c index slot len) = occupied c + len"
proof -
  note b = placed_basic [OF assms] and live = placed_live_cells [OF assms]
  have inv: "array_inv m c" and idx: "index < 255" "num_cells c \<le> 255"
    using assms(1) by (auto simp: slot_ready_def array_inv_def page_consts)
  have old: "0 < l \<and> l \<le> offset \<and> offset + 3 * cells_with c index + 1 \<le> 4088 \<and> (offset + len \<le> slot \<or> slot + l \<le> offset)"
    if "(k, offset, l) \<in> set (live_cells (num_cells c) c)" for k offset l
    using array_inv_cell [OF inv that] assms(2) that by (force simp: slot_ok_def)
  have disj: "disjoint_cells a b'" if "a \<in> set (live_cells (num_cells c) c)" "b' \<in> set (live_cells (num_cells c) c)" for a b'
    using inv live_cells_array [OF inv] that by (simp add: array_inv_def cells_ok_def)
  have "cells_ok (cells_with c index) (insert (index, slot, len) (set (live_cells (num_cells c) c)))"
    unfolding cells_ok_def using old disj assms(2,3) by (fastforce simp: disjoint_cells_def slot_ok_def)
  then show "page_inv (placed c index slot len)"
    using b(1,2) live idx by (simp add: page_inv_def array_inv_def page_consts)
  have reg: "region (placed c index slot len) offset l = region c offset l"
    if "(k, offset, l) \<in> set (live_cells (num_cells c) c)" for k offset l
    using b(5) old [OF that] by simp
  show "cell_data (placed c index slot len) k = cell_data c k" if "k \<noteq> index" for k
  proof -
    have "cell_data (placed c index slot len) k = Some d \<longleftrightarrow> cell_data c k = Some d" for d
      unfolding cell_data_live b(2) live using that reg [of k] by (auto; metis)
    then show ?thesis by (metis not_None_eq)
  qed
  define f where "f i = (if i = index then 0 else cp_length (cell_pointer_at c i))" for i
  have "index < num_cells c \<Longrightarrow> cp_length (cell_pointer_at c index) = 0"
    using assms(1) by (simp add: slot_ready_def array_inv_def cp_deleted_iff)
  then have "(\<Sum>i < num_cells c. cp_length (cell_pointer_at c i)) = (\<Sum>i < num_cells c. f i)"
    by (intro sum.cong) (auto simp: f_def)
  also have "\<dots> = (\<Sum>i < cells_with c index. f i)"
  proof (rule sum.mono_neutral_left)
    show "\<forall>i\<in>{..<cells_with c index} - {..<num_cells c}. f i = 0"
      using assms(1) by (auto simp: f_def slot_ready_def array_inv_def cp_deleted_iff less_max_iff_disj less_Suc_eq)
  qed auto
  finally have "occupied c = (\<Sum>i < cells_with c index. f i)" by (simp add: occupied_sum)
  moreover have "(\<Sum>i < cells_with c index. cp_length (cell_pointer_at (placed c index slot len) i)) =
      (\<Sum>i < cells_with c index. f i + (if i = index then len else 0))"
    by (rule sum.cong) (use assms(2) b(3) idx in \<open>auto simp: f_def slot_ok_def\<close>)
  ultimately show "occupied (placed c index slot len) = occupied c + len"
    by (simp add: occupied_sum b(2) sum.distrib less_max_iff_disj)
qed

text \<open>
  \<open>allocate_cell_pointer\<close> terminates: two calls are enough, the second one after a
  defragmentation. It succeeds exactly when the new cell fits, and leaves the page as it was when it
  does not.
\<close>

definition allocated :: "bytes \<Rightarrow> nat \<Rightarrow> nat \<Rightarrow> nat \<Rightarrow> bytes \<Rightarrow> bool" where
  "allocated c index len slot c' \<longleftrightarrow>
     page_inv c' \<and> num_cells c' = cells_with c index \<and> (index, slot, len) \<in> set (live_cells (num_cells c') c') \<and>
     (\<forall>k. k \<noteq> index \<longrightarrow> cell_data c' k = cell_data c k) \<and> occupied c' = occupied c + len"

lemma allocate_found:
  assumes "slot_ready m c index" and "0 < len" and "len < 60000" and "find_available_slot c index len = Some slot"
  shows "\<exists>c'. allocate_cell_pointer_fuel (Suc fuel) c index len = (Ok (cp_bytes slot len), c') \<and> allocated c index len slot c'"
proof -
  have ok: "slot_ok c index len slot" using find_available_slot_Some [OF assms] by simp
  note b = placed_basic [OF assms(1) ok assms(2)] and p = placed_spec [OF assms(1) ok assms(2)]
  have "u8_add index 1 = Suc index" using assms(1) by (simp add: slot_ready_def page_consts)
  then have "allocate_cell_pointer_fuel (Suc fuel) c index len = (Ok (cp_bytes slot len), placed c index slot len)"
    using b(4) assms(4) by (simp add: Let_def)
  moreover have "allocated c index len slot (placed c index slot len)"
    using b(2) p placed_live_cells [OF assms(1) ok assms(2)] by (simp add: allocated_def)
  ultimately show ?thesis by blast
qed

lemma allocate_spec:
  assumes "slot_ready m c index" and "0 < len" and "len < 60000"
  shows "if fits c index len
    then \<exists>slot c'. allocate_cell_pointer_fuel (Suc (Suc fuel)) c index len = (Ok (cp_bytes slot len), c') \<and>
      allocated c index len slot c'
    else allocate_cell_pointer_fuel (Suc (Suc fuel)) c index len = (Err PageIsFull, c)"
proof (cases "find_available_slot c index len")
  case (Some slot)
  then have "fits c index len" using find_available_slot_Some [OF assms] by simp
  then show ?thesis using allocate_found [OF assms Some, of "Suc fuel"] by (auto simp del: allocate_cell_pointer_fuel.simps)
next
  case None
  show ?thesis
  proof (cases "fits c index len")
    case False
    then show ?thesis using None defragment_spec [OF assms(1,3)] by simp
  next
    case True
    then obtain c1 where c1: "defragment c index len = (Ok True, c1)" "slot_ready m c1 index" "same_cells c c1"
      "\<And>i offset l. (i, offset, l) \<in> set (live_cells (num_cells c1) c1) \<Longrightarrow> offset \<le> occupied c1"
      using defragment_spec [OF assms(1,3)] by (simp only: if_True) blast
    have "fits c1 index len" using True c1(3) by (simp add: fits_def same_cells_def)
    then obtain slot where "find_available_slot c1 index len = Some slot"
      by (rule find_available_slot_packed [OF c1(2) assms(3)]) (erule c1(4))
    from allocate_found [OF c1(2) assms(2,3) this, of fuel] obtain c'
      where "allocate_cell_pointer_fuel (Suc fuel) c1 index len = (Ok (cp_bytes slot len), c')" "allocated c1 index len slot c'"
      by blast
    with True None c1(1,3) show ?thesis by (auto simp: allocated_def same_cells_def)
  qed
qed

lemma allocate_fuel_enough:
  assumes "slot_ready m c index" and "0 < len" and "len < 60000"
  shows "allocate_cell_pointer_fuel (Suc (Suc fuel)) c index len = allocate_cell_pointer_fuel (Suc (Suc 0)) c index len"
proof (cases "find_available_slot c index len")
  case None
  show ?thesis
  proof (cases "fits c index len")
    case False
    then show ?thesis using None defragment_spec [OF assms(1,3)] by simp
  next
    case True
    then obtain c1 where c1: "defragment c index len = (Ok True, c1)" "slot_ready m c1 index" "same_cells c c1"
      "\<And>i offset l. (i, offset, l) \<in> set (live_cells (num_cells c1) c1) \<Longrightarrow> offset \<le> occupied c1"
      using defragment_spec [OF assms(1,3)] by (simp only: if_True) blast
    have "fits c1 index len" using True c1(3) by (simp add: fits_def same_cells_def)
    then obtain slot where "find_available_slot c1 index len = Some slot"
      by (rule find_available_slot_packed [OF c1(2) assms(3)]) (erule c1(4))
    then show ?thesis using None c1(1) by simp
  qed
qed simp

lemma allocate_cell_pointer_spec:
  assumes "slot_ready m c index" and "0 < len" and "len < 60000"
  shows "if fits c index len
    then \<exists>slot c'. allocate_cell_pointer c index len = (Ok (cp_bytes slot len), c') \<and> allocated c index len slot c'
    else allocate_cell_pointer c index len = (Err PageIsFull, c)"
  using allocate_spec [OF assms, of 0]
  by (simp add: allocate_cell_pointer_def allocate_fuel_def numeral_2_eq_2 del: allocate_cell_pointer_fuel.simps)

subsection \<open>Writing the bytes of a cell\<close>

lemma write_cell:
  assumes "page_inv c" and "(i, offset, len) \<in> set (live_cells (num_cells c) c)" and "length bs = len"
  defines "c' \<equiv> write_at c (DATA_SIZE - offset) bs"
  shows "page_inv c'" and "cell_data c' = (cell_data c)(i \<mapsto> bs)" and "num_cells c' = num_cells c" and "occupied c' = occupied c"
proof -
  have inv: "array_inv (num_cells c) c" and len: "length c = 4088" using assms(1) by (simp_all add: page_inv_def array_inv_def)
  note cell = array_inv_cell [OF inv assms(2)]
  have n: "num_cells c' = num_cells c" and len': "length c' = 4088" using cell assms(3) len by (simp_all add: c'_def)
  then show "num_cells c' = num_cells c" by simp
  have ptr: "cell_pointer_at c' k = cell_pointer_at c k" if "k < num_cells c" for k
    unfolding c'_def using cell len that assms(3) by (intro cell_pointer_at_write_data) (auto simp: page_consts)
  have live: "live_cells (num_cells c) c' = live_cells (num_cells c) c"
    using ptr by (auto simp: live_cells_def intro!: map_cong filter_cong)
  show "page_inv c'" using inv n len' live by (simp add: page_inv_def array_inv_def)
  show "occupied c' = occupied c" by (simp add: occupied_def n live)
  have "region c' o2 l = (if k = i then bs else region c o2 l)" if k: "(k, o2, l) \<in> set (live_cells (num_cells c) c)" for k o2 l
  proof (cases "k = i")
    case True
    then have "o2 = offset" "l = len" using k assms(2) by (auto simp: live_cells_iff)
    then show ?thesis using True cell len assms(3) by (simp add: c'_def region_write_same [simplified])
  next
    case False
    then have "disjoint_cells (k, o2, l) (i, offset, len)"
      using inv k assms(2) by (simp add: array_inv_def cells_ok_def)
    then show ?thesis using False cell array_inv_cell [OF inv k] len assms(3)
      unfolding c'_def by (subst region_write_region) (auto simp: disjoint_cells_def)
  qed
  then have "cell_data c' k = ((cell_data c)(i \<mapsto> bs)) k" for k
    using assms(2) n ptr [of k] by (auto simp: cell_data_def Let_def live_cells_iff)
  then show "cell_data c' = (cell_data c)(i \<mapsto> bs)" by blast
qed

lemma write_value_spec:
  assumes "page_inv c" and "(i, offset, len) \<in> set (live_cells (num_cells c) c)" and "value_codec ops valid"
    and "valid v" and "v_size ops v = len"
  shows "\<exists>bs c'. write_value ops c offset len v = (Ok (), c') \<and> v_from_bytes ops bs = Ok v \<and> length bs = len \<and>
    page_inv c' \<and> cell_data c' = (cell_data c)(i \<mapsto> bs) \<and> num_cells c' = num_cells c \<and> occupied c' = occupied c"
proof -
  have inv: "array_inv (num_cells c) c" and len: "length c = DATA_SIZE" using assms(1) by (simp_all add: page_inv_def array_inv_def)
  note cell = array_inv_cell [OF inv assms(2)]
  have bnd: "len \<le> offset" "offset \<le> DATA_SIZE" using cell by auto
  have "length (region c offset len) = v_size ops v"
    using len bnd assms(5) by (simp add: region_def)
  then obtain bs where bs: "v_serialize_into ops v (region c offset len) = Ok (bs, v_size ops v)" "length bs = v_size ops v" "v_from_bytes ops bs = Ok v"
    using value_codec.serialize_exact [OF assms(3,4)] by blast
  have "write_value ops c offset len v = (Ok (), write_at c (DATA_SIZE - offset) bs)"
    using bs slice_region(2) [OF len bnd] bnd unfolding write_value_def Let_def by simp
  then show ?thesis using write_cell [OF assms(1,2), of bs] bs assms(5) by auto
qed

end
