(* ===== verification/Node.thy ===== *)
theory Node
  imports Pointer
begin

text \<open>
  Trie nodes (\<open>src/src/node.rs\<close>, \<open>src/src/account.rs\<close>): the three node kinds, their accessors, their
  on-page encoding and their RLP encoding for hashing. The lemmas show that the on-page encoding is
  exactly as long as \<open>size\<close> promises and decodes to the same node, that
  \<open>size_incr_with_new_child\<close> is the growth of a node that gets a new child, and that the RLP
  encodings fit the fixed buffers the code encodes into.
\<close>

subsection \<open>Data\<close>

record account =
  acc_nonce :: u64
  acc_balance :: u256
  acc_storage_root :: bytes
  acc_code_hash :: bytes

datatype trie_value = TAccount account | TStorage u256

datatype node_kind =
    AccountLeaf (nonce_rlp: bytes) (balance_rlp: bytes) (code_hash: bytes) (storage_root: "pointer option")
  | StorageLeaf (value_rlp: bytes)
  | Branch (children: "pointer option list")

record node =
  node_prefix :: nibbles
  node_kind :: node_kind

datatype node_error = ChildrenUnsupported | MaxPrefixLengthExceeded | NoValue

definition MAX_PREFIX_LENGTH :: nat where
  "MAX_PREFIX_LENGTH = 64"

subsection \<open>Constructors and accessors\<close>

definition node_new :: "nibbles \<Rightarrow> node_kind \<Rightarrow> node" where
  "node_new p k = \<lparr>node_prefix = p, node_kind = k\<rparr>"

definition new_account_leaf :: "nibbles \<Rightarrow> bytes \<Rightarrow> bytes \<Rightarrow> bytes \<Rightarrow> pointer option \<Rightarrow> node" where
  "new_account_leaf p balance nonce code root = node_new p (AccountLeaf nonce balance code root)"

definition new_storage_leaf :: "nibbles \<Rightarrow> bytes \<Rightarrow> node" where
  "new_storage_leaf p v = node_new p (StorageLeaf v)"

definition new_leaf :: "externals \<Rightarrow> raw_path \<Rightarrow> trie_value \<Rightarrow> (node, node_error) result" where
  "new_leaf E path v =
     bind_result (map_err (\<lambda>_. MaxPrefixLengthExceeded) (nibbles_try_from path)) (\<lambda>prefix.
       case v of
         TAccount a \<Rightarrow> Ok (new_account_leaf prefix (x_encode_u256 E (acc_balance a))
           (x_encode_u64 E (acc_nonce a)) (acc_code_hash a) None)
       | TStorage x \<Rightarrow> Ok (new_storage_leaf prefix (x_encode_u256 E x)))"

definition new_branch :: "raw_path \<Rightarrow> (node, node_error) result" where
  "new_branch path =
     bind_result (map_err (\<lambda>_. MaxPrefixLengthExceeded) (nibbles_try_from path)) (\<lambda>prefix.
       Ok (node_new prefix (Branch (replicate 16 None))))"

definition set_prefix :: "nibbles \<Rightarrow> node \<Rightarrow> (node, node_error) result" where
  "set_prefix p n =
     (if MAX_PREFIX_LENGTH < length p then Err MaxPrefixLengthExceeded else Ok (n\<lparr>node_prefix := p\<rparr>))"

definition has_children :: "node \<Rightarrow> bool" where
  "has_children n = (case node_kind n of Branch _ \<Rightarrow> True | AccountLeaf _ _ _ _ \<Rightarrow> True | _ \<Rightarrow> False)"

definition is_account_leaf :: "node \<Rightarrow> bool" where
  "is_account_leaf n = (case node_kind n of AccountLeaf _ _ _ _ \<Rightarrow> True | _ \<Rightarrow> False)"

definition is_branch :: "node \<Rightarrow> bool" where
  "is_branch n = (case node_kind n of Branch _ \<Rightarrow> True | _ \<Rightarrow> False)"

definition some_children :: "pointer option list \<Rightarrow> (nat \<times> pointer) list" where
  "some_children cs = List.map_filter (\<lambda>(i, c). map_option (\<lambda>p. (i, p)) c) (List.enumerate 0 cs)"

definition enumerate_children :: "node \<Rightarrow> ((nat \<times> pointer) list, node_error) result" where
  "enumerate_children n =
     (case node_kind n of
        AccountLeaf _ _ _ root \<Rightarrow> Ok (some_children [root])
      | Branch cs \<Rightarrow> Ok (some_children cs)
      | _ \<Rightarrow> Err ChildrenUnsupported)"

definition node_child :: "nat \<Rightarrow> node \<Rightarrow> (pointer option, node_error) result" where
  "node_child i n =
     (case node_kind n of
        Branch cs \<Rightarrow> if i < length cs then Ok (cs ! i) else Panic
      | _ \<Rightarrow> Err ChildrenUnsupported)"

definition direct_child :: "node \<Rightarrow> (pointer option, node_error) result" where
  "direct_child n =
     (case node_kind n of AccountLeaf _ _ _ root \<Rightarrow> Ok root | _ \<Rightarrow> Err ChildrenUnsupported)"

definition set_child :: "nat \<Rightarrow> pointer \<Rightarrow> node \<Rightarrow> (node, node_error) result" where
  "set_child i p n =
     (case node_kind n of
        AccountLeaf nonce bal code _ \<Rightarrow> Ok (n\<lparr>node_kind := AccountLeaf nonce bal code (Some p)\<rparr>)
      | Branch cs \<Rightarrow> if i < length cs then Ok (n\<lparr>node_kind := Branch (cs[i := Some p])\<rparr>) else Panic
      | _ \<Rightarrow> Err ChildrenUnsupported)"

definition remove_child :: "nat \<Rightarrow> node \<Rightarrow> (node, node_error) result" where
  "remove_child i n =
     (case node_kind n of
        AccountLeaf nonce bal code _ \<Rightarrow> Ok (n\<lparr>node_kind := AccountLeaf nonce bal code None\<rparr>)
      | Branch cs \<Rightarrow> if i < length cs then Ok (n\<lparr>node_kind := Branch (cs[i := None])\<rparr>) else Panic
      | _ \<Rightarrow> Err ChildrenUnsupported)"

definition node_value :: "externals \<Rightarrow> node \<Rightarrow> (trie_value, node_error) result" where
  "node_value E n =
     (case node_kind n of
        StorageLeaf v \<Rightarrow> (case x_decode_u256 E v of Some x \<Rightarrow> Ok (TStorage x) | None \<Rightarrow> Panic)
      | AccountLeaf nonce bal code root \<Rightarrow>
          (case (x_decode_u256 E bal, x_decode_u64 E nonce) of
             (Some b, Some k) \<Rightarrow>
               Ok (TAccount \<lparr>acc_nonce = k, acc_balance = b,
                 acc_storage_root =
                   (case Option.bind root (\<lambda>p. x_as_hash E (ptr_rlp p)) of
                      Some h \<Rightarrow> h | None \<Rightarrow> x_empty_root_hash E),
                 acc_code_hash = code\<rparr>)
           | _ \<Rightarrow> Panic)
      | _ \<Rightarrow> Err NoValue)"

subsection \<open>Sizes\<close>

fun next_power_of_two :: "nat \<Rightarrow> nat" where
  "next_power_of_two n = (if n \<le> 1 then 1 else 2 * next_power_of_two ((n + 1) div 2))"

declare next_power_of_two.simps [simp del]

definition children_slot_size :: "pointer option list \<Rightarrow> nat \<times> nat" where
  "children_slot_size cs =
     (let total = length (filter (\<lambda>c. c \<noteq> None) cs) in (total, max (next_power_of_two total) 2))"

definition size_incr_with_new_child :: "node \<Rightarrow> nat" where
  "size_incr_with_new_child n =
     (case node_kind n of
        Branch cs \<Rightarrow>
          (let (total, slot_size) = children_slot_size cs;
               next_total = min (total + 1) 16;
               next_slot_size = max (next_power_of_two next_total) 2
           in usize_sub next_slot_size slot_size * 37)
      | AccountLeaf _ _ _ root \<Rightarrow> if root = None then 37 else 0
      | _ \<Rightarrow> 0)"

definition packed_length :: "nat \<Rightarrow> nat" where
  "packed_length n = (n + 1) div 2"

definition node_size :: "externals \<Rightarrow> node \<Rightarrow> nat" where
  "node_size E n =
     (let packed = packed_length (length (node_prefix n)) in
      case node_kind n of
        StorageLeaf v \<Rightarrow> 2 + packed + length v
      | AccountLeaf nonce bal code root \<Rightarrow>
          2 + packed + length bal + length nonce + (if root \<noteq> None then 37 else 0) +
          (if code \<noteq> x_keccak_empty E then 32 else 0)
      | Branch cs \<Rightarrow> 2 + packed + 2 + snd (children_slot_size cs) * 37)"

subsection \<open>Writing a node into a buffer\<close>

definition children_bitmask :: "pointer option list \<Rightarrow> u16" where
  "children_bitmask cs =
     sum_list (map (\<lambda>(i, c). push_bit (15 - i) (of_bool (c \<noteq> None))) (List.enumerate 0 cs))"

fun write_pointers ::
  "externals \<Rightarrow> pointer list \<Rightarrow> nat \<Rightarrow> bytes \<Rightarrow> (bytes \<times> nat, value_error) result" where
  "write_pointers E [] offset buf = Ok (buf, offset)"
| "write_pointers E (p # ps) offset buf =
     (case slice_range buf offset (offset + 37) of
        None \<Rightarrow> Panic
      | Some window \<Rightarrow>
          bind_result (pointer_serialize_into E p window) (\<lambda>(bs, n).
            write_pointers E ps (offset + n) (write_at buf offset bs)))"

definition account_flags :: "externals \<Rightarrow> bytes \<Rightarrow> pointer option \<Rightarrow> byte" where
  "account_flags E code root =
     1 OR push_bit 7 (of_bool (root \<noteq> None)) OR push_bit 6 (of_bool (code \<noteq> x_keccak_empty E))"

definition write_account ::
  "externals \<Rightarrow> bytes \<Rightarrow> bytes \<Rightarrow> bytes \<Rightarrow> pointer option \<Rightarrow> nat \<Rightarrow> bytes \<Rightarrow>
   (bytes \<times> nat, value_error) result" where
  "write_account E nonce bal code root offset buf =
     (let buf = write_at buf offset nonce; offset = offset + length nonce;
          buf = write_at buf offset bal; offset = offset + length bal;
          (buf, offset) =
            (if code \<noteq> x_keccak_empty E then (write_at buf offset code, offset + 32) else (buf, offset))
      in case root of None \<Rightarrow> Ok (buf, offset) | Some p \<Rightarrow> write_pointers E [p] offset buf)"

definition write_branch ::
  "externals \<Rightarrow> pointer option list \<Rightarrow> nat \<Rightarrow> bytes \<Rightarrow> (bytes \<times> nat, value_error) result" where
  "write_branch E cs offset buf =
     (let (total, slots) = children_slot_size cs;
          buf = write_at buf offset (to_be_bytes_u16 (children_bitmask cs))
      in bind_result (write_pointers E (List.map_filter (\<lambda>c. c) cs) (offset + 2) buf) (\<lambda>(buf, offset).
           let padding = usize_sub slots total * 37 in
           Ok (write_at buf offset (replicate padding 0), offset + padding)))"

definition node_serialize_into :: "externals \<Rightarrow> node \<Rightarrow> bytes \<Rightarrow> (bytes \<times> nat, value_error) result" where
  "node_serialize_into E n buf =
     (let prefix = node_prefix n; packed = packed_length (length prefix);
          header = (\<lambda>flags. write_at (buf[0 := flags, 1 := of_nat (length prefix)]) 2 (x_pack_to E prefix)) in
      if length buf < node_size E n then Err InvalidEncoding
      else case node_kind n of
        StorageLeaf v \<Rightarrow>
          if length buf = 2 + packed + length v
          then Ok (write_at (header 0) (2 + packed) v, 2 + packed + length v) else Panic
      | AccountLeaf nonce bal code root \<Rightarrow>
          write_account E nonce bal code root (2 + packed) (header (account_flags E code root))
      | Branch cs \<Rightarrow> write_branch E cs (2 + packed) (header 2))"

subsection \<open>Reading a node from a cell\<close>

definition byte_at :: "bytes \<Rightarrow> nat \<Rightarrow> (byte, 'e) result" where
  "byte_at bs i = (if i < length bs then Ok (bs ! i) else Panic)"

definition bytes_range :: "bytes \<Rightarrow> nat \<Rightarrow> nat \<Rightarrow> (bytes, 'e) result" where
  "bytes_range bs a b = unwrap_option (slice_range bs a b)"

text \<open>The prefix of a cell, before and after \<open>try_into().unwrap()\<close>, and the offset behind it.\<close>

definition read_prefix :: "bytes \<Rightarrow> (raw_path \<times> nat, value_error) result" where
  "read_prefix bs =
     bind_result (byte_at bs 1) (\<lambda>b.
     let prefix_length = unat b; packed = packed_length prefix_length in
     bind_result (bytes_range bs 2 (2 + packed)) (\<lambda>p.
     bind_result (raw_path_unpack p) (\<lambda>path.
     bind_result (raw_path_truncate prefix_length path) (\<lambda>path. Ok (path, 2 + packed)))))"

definition prefix_nibbles :: "raw_path \<Rightarrow> (nibbles, value_error) result" where
  "prefix_nibbles p = unwrap (nibbles_try_from p)"

text \<open>An RLP integer of at most \<open>cap\<close> bytes (the capacity of the \<open>ArrayVec\<close> it is read into).\<close>

definition read_rlp_int :: "nat \<Rightarrow> bytes \<Rightarrow> nat \<Rightarrow> (bytes \<times> nat, value_error) result" where
  "read_rlp_int cap bs offset =
     bind_result (byte_at bs offset) (\<lambda>header.
     if header \<le> 128 then Ok ([header], 1)
     else let len = unat header - 128 in
       bind_result (bytes_range bs offset (offset + len + 1)) (\<lambda>v.
         if length v \<le> cap then Ok (v, len + 1) else Panic))"

definition read_storage_leaf :: "bytes \<Rightarrow> (node, value_error) result" where
  "read_storage_leaf bs =
     bind_result (read_prefix bs) (\<lambda>(path, offset).
     bind_result (read_rlp_int 33 bs offset) (\<lambda>(v, _).
     bind_result (prefix_nibbles path) (\<lambda>prefix. Ok (node_new prefix (StorageLeaf v)))))"

definition read_account_leaf :: "externals \<Rightarrow> byte \<Rightarrow> bytes \<Rightarrow> (node, value_error) result" where
  "read_account_leaf E flags bs =
     (let has_storage = flags AND 0x80 \<noteq> 0; has_code = flags AND 0x40 \<noteq> 0 in
      bind_result (read_prefix bs) (\<lambda>(path, offset).
      bind_result (read_rlp_int 9 bs offset) (\<lambda>(nonce, nonce_len).
      let offset = offset + nonce_len in
      bind_result (read_rlp_int 33 bs offset) (\<lambda>(bal, bal_len).
      let offset = offset + bal_len in
      bind_result
        (if has_code then
           if length bs < offset + 32 then Err InvalidEncoding else Ok (subl bs offset 32, offset + 32)
         else Ok (x_keccak_empty E, offset)) (\<lambda>(code, offset).
      bind_result
        (if has_storage then
           if length bs < offset + 37 then Err InvalidEncoding
           else bind_result (pointer_from_bytes E (subl bs offset 37)) (\<lambda>p. Ok (Some p))
         else Ok None) (\<lambda>root.
      bind_result (prefix_nibbles path) (\<lambda>prefix.
        Ok (node_new prefix (AccountLeaf nonce bal code root)))))))))"

fun read_children ::
  "externals \<Rightarrow> bytes \<Rightarrow> nat \<Rightarrow> u16 \<Rightarrow> nat list \<Rightarrow> nat \<Rightarrow> (pointer option list, value_error) result" where
  "read_children E bs base bm [] block_count = Ok []"
| "read_children E bs base bm (i # is) block_count =
     (if bm AND push_bit (15 - i) 1 = 0 then
        bind_result (read_children E bs base bm is block_count) (\<lambda>cs. Ok (None # cs))
      else
        bind_result (bytes_range bs (base + block_count * 37) (base + block_count * 37 + 37)) (\<lambda>c.
        bind_result (pointer_from_bytes E c) (\<lambda>p.
        bind_result (read_children E bs base bm is (block_count + 1)) (\<lambda>cs. Ok (Some p # cs)))))"

definition read_branch :: "externals \<Rightarrow> bytes \<Rightarrow> (node, value_error) result" where
  "read_branch E bs =
     bind_result (read_prefix bs) (\<lambda>(path, offset).
     bind_result (bytes_range bs offset (offset + 2)) (\<lambda>m.
     bind_result (read_children E bs (offset + 2) (from_be_bytes_u16 m) [0..<16] 0) (\<lambda>cs.
     bind_result (prefix_nibbles path) (\<lambda>prefix. Ok (node_new prefix (Branch cs))))))"

definition node_from_bytes :: "externals \<Rightarrow> bytes \<Rightarrow> (node, value_error) result" where
  "node_from_bytes E bs =
     bind_result (byte_at bs 0) (\<lambda>flags.
       if flags = 0 then read_storage_leaf bs
       else if flags AND 1 = 1 then read_account_leaf E flags bs
       else if flags = 2 then read_branch E bs
       else Err InvalidEncoding)"

definition node_ops :: "externals \<Rightarrow> node value_ops" where
  "node_ops E =
     \<lparr>v_size = node_size E, v_serialize_into = node_serialize_into E, v_from_bytes = node_from_bytes E\<rparr>"

subsection \<open>RLP encoding\<close>

definition encode_account_leaf :: "bytes \<Rightarrow> bytes \<Rightarrow> bytes \<Rightarrow> bytes \<Rightarrow> bytes" where
  "encode_account_leaf nonce bal code root =
     (let len = 2 + length nonce + length bal + 33 * 2 in
      [0xf8, of_nat (len - 2)] @ nonce @ bal @ [0xa0] @ root @ [0xa0] @ code)"

definition branch_payload_length :: "pointer option list \<Rightarrow> nat" where
  "branch_payload_length cs =
     1 + sum_list (map (\<lambda>c. case c of Some p \<Rightarrow> length (ptr_rlp p) | None \<Rightarrow> 1) cs)"

definition encode_branch :: "externals \<Rightarrow> pointer option list \<Rightarrow> bytes" where
  "encode_branch E cs =
     x_list_header E (branch_payload_length cs) @
     concat (map (\<lambda>c. case c of Some p \<Rightarrow> ptr_rlp p | None \<Rightarrow> [0x80]) cs) @ [0x80]"

definition node_rlp_encode :: "externals \<Rightarrow> node \<Rightarrow> bytes" where
  "node_rlp_encode E n =
     (case node_kind n of
        StorageLeaf v \<Rightarrow> x_leaf_encode E (node_prefix n) v
      | AccountLeaf nonce bal code root \<Rightarrow>
          (let root_hash = (case root of None \<Rightarrow> x_empty_root_hash E
                 | Some p \<Rightarrow> (case x_as_hash E (ptr_rlp p) of Some h \<Rightarrow> h | None \<Rightarrow> x_empty_root_hash E))
           in x_leaf_encode E (node_prefix n) (encode_account_leaf nonce bal code root_hash))
      | Branch cs \<Rightarrow>
          if node_prefix n = [] then encode_branch E cs
          else x_extension_encode E (node_prefix n) (x_from_rlp E (encode_branch E cs)))"

text \<open>
  \<open>node_rlp_encode\<close> is the content of the encoding. \<open>encode\<close> writes the account and the branch below an
  extension into arrays of fixed size, where a write beyond the end panics, and then takes as many bytes as the
  helper function has returned; \<open>rlp_encode\<close> writes all of it into an \<open>ArrayVec\<close>.
\<close>

definition MAX_RLP_ENCODED_LEN :: nat where
  "MAX_RLP_ENCODED_LEN = 3 + 16 * 33 + 1"

definition fixed_buffer :: "nat \<Rightarrow> bytes \<Rightarrow> (bytes, 'e) result" where
  "fixed_buffer cap bs = (if length bs \<le> cap then Ok (bs @ replicate (cap - length bs) 0) else Panic)"

definition buffer_prefix :: "nat \<Rightarrow> bytes \<Rightarrow> (bytes, 'e) result" where
  "buffer_prefix n buf = unwrap_option (slice_range buf 0 n)"

definition account_leaf_length :: "bytes \<Rightarrow> bytes \<Rightarrow> nat" where
  "account_leaf_length nonce bal = 2 + length nonce + length bal + 33 * 2"

definition branch_length :: "externals \<Rightarrow> pointer option list \<Rightarrow> nat" where
  "branch_length E cs = branch_payload_length cs + x_length_of_length E (branch_payload_length cs)"

definition node_encode :: "externals \<Rightarrow> node \<Rightarrow> (bytes, 'e) result" where
  "node_encode E n =
     (case node_kind n of
        StorageLeaf v \<Rightarrow> Ok (x_leaf_encode E (node_prefix n) v)
      | AccountLeaf nonce bal code root \<Rightarrow>
          (let root_hash = (case root of None \<Rightarrow> x_empty_root_hash E
                 | Some p \<Rightarrow> (case x_as_hash E (ptr_rlp p) of Some h \<Rightarrow> h | None \<Rightarrow> x_empty_root_hash E)) in
           bind_result (fixed_buffer 110 (encode_account_leaf nonce bal code root_hash)) (\<lambda>buf.
           bind_result (buffer_prefix (account_leaf_length nonce bal) buf) (\<lambda>value.
             Ok (x_leaf_encode E (node_prefix n) value))))
      | Branch cs \<Rightarrow>
          if node_prefix n = [] then Ok (encode_branch E cs)
          else
            bind_result (fixed_buffer (3 + 33 * 16 + 1) (encode_branch E cs)) (\<lambda>buf.
            bind_result (buffer_prefix (branch_length E cs) buf) (\<lambda>branch.
              Ok (x_extension_encode E (node_prefix n) (x_from_rlp E branch)))))"

definition rlp_encode :: "externals \<Rightarrow> node \<Rightarrow> (bytes, 'e) result" where
  "rlp_encode E n =
     bind_result (node_encode E n) (\<lambda>bs. if length bs \<le> MAX_RLP_ENCODED_LEN then Ok bs else Panic)"

definition to_rlp_node :: "externals \<Rightarrow> node \<Rightarrow> bytes" where
  "to_rlp_node E n = x_from_rlp E (node_rlp_encode E n)"

subsection \<open>Well-formed nodes\<close>

definition node_kind_wf :: "node_kind \<Rightarrow> bool" where
  "node_kind_wf k =
     (case k of
        StorageLeaf v \<Rightarrow> rlp_int_string 33 v
      | AccountLeaf nonce bal code root \<Rightarrow>
          rlp_int_string 9 nonce \<and> rlp_int_string 33 bal \<and> length code = 32 \<and>
          (case root of None \<Rightarrow> True | Some p \<Rightarrow> rlp_node_wf (ptr_rlp p))
      | Branch cs \<Rightarrow> length cs = 16 \<and> (\<forall>p. Some p \<in> set cs \<longrightarrow> rlp_node_wf (ptr_rlp p)))"

definition node_wf :: "node \<Rightarrow> bool" where
  "node_wf n \<longleftrightarrow> length (node_prefix n) \<le> 64 \<and> list_all is_nibble (node_prefix n) \<and> node_kind_wf (node_kind n)"

definition codec_laws :: "externals \<Rightarrow> bool" where
  "codec_laws E \<longleftrightarrow> rlp_node_laws E \<and> nibble_pack_laws E"

subsection \<open>The encoding as one byte string\<close>

lemma write_at_step:
  "length w = k \<Longrightarrow> write_at (w @ drop k buf) k zs = (w @ zs) @ drop (k + length zs) buf"
  by (simp add: write_at_def add.commute)

definition pointer_bytes :: "externals \<Rightarrow> pointer \<Rightarrow> bytes" where
  "pointer_bytes E p = (case pointer_to_array E p of Ok arr \<Rightarrow> arr | _ \<Rightarrow> [])"

lemma pointer_bytes:
  assumes "rlp_node_laws E" and "rlp_node_wf (ptr_rlp p)"
  shows "pointer_to_array E p = Ok (pointer_bytes E p)" and "length (pointer_bytes E p) = 37"
    and "pointer_from_bytes E (pointer_bytes E p) = Ok p"
  using pointer_roundtrip_array [OF assms] by (auto simp: pointer_bytes_def)

lemma write_pointers_eq:
  assumes "rlp_node_laws E" and "list_all (\<lambda>p. rlp_node_wf (ptr_rlp p)) ps"
    and "length w = k" and "k + 37 * length ps \<le> length buf"
  shows "write_pointers E ps k (w @ drop k buf) =
    Ok ((w @ concat (map (pointer_bytes E) ps)) @ drop (k + 37 * length ps) buf, k + 37 * length ps)"
  using assms(2-)
proof (induction ps arbitrary: w k)
  case Nil
  then show ?case by simp
next
  case (Cons p ps)
  note pb = pointer_bytes [OF assms(1), of p]
  have "slice_range (w @ drop k buf) k (k + 37) = Some (subl (w @ drop k buf) k 37)"
    using Cons.prems by simp
  moreover have "pointer_serialize_into E p (subl (w @ drop k buf) k 37) = Ok (pointer_bytes E p, 37)"
    using Cons.prems pb by (simp add: pointer_serialize_into_def write_at_def)
  moreover have "write_pointers E ps (k + 37) ((w @ pointer_bytes E p) @ drop (k + 37) buf) =
      Ok (((w @ pointer_bytes E p) @ concat (map (pointer_bytes E) ps)) @ drop ((k + 37) + 37 * length ps) buf,
          (k + 37) + 37 * length ps)"
    using Cons.prems pb by (intro Cons.IH) auto
  ultimately show ?case
    using Cons.prems pb by (simp add: write_at_step add.assoc)
qed

lemma header_eq:
  assumes "2 + length (x_pack_to E p) \<le> length buf"
  shows "write_at (buf[0 := f, 1 := g]) 2 (x_pack_to E p) =
    ([f, g] @ x_pack_to E p) @ drop (2 + length (x_pack_to E p)) buf"
proof -
  obtain a b r where "buf = a # b # r" using assms by (metis Suc_le_length_iff add_2_eq_Suc Suc_le_D le_add1 le_trans)
  then show ?thesis by (simp add: write_at_def)
qed

definition node_body :: "externals \<Rightarrow> node_kind \<Rightarrow> bytes" where
  "node_body E k =
     (case k of
        StorageLeaf v \<Rightarrow> v
      | AccountLeaf nonce bal code root \<Rightarrow>
          nonce @ bal @ (if code \<noteq> x_keccak_empty E then code else []) @
          (case root of None \<Rightarrow> [] | Some p \<Rightarrow> pointer_bytes E p)
      | Branch cs \<Rightarrow>
          to_be_bytes_u16 (children_bitmask cs) @
          concat (map (pointer_bytes E) (List.map_filter (\<lambda>c. c) cs)) @
          replicate ((snd (children_slot_size cs) - fst (children_slot_size cs)) * 37) 0)"

definition kind_flags :: "externals \<Rightarrow> node_kind \<Rightarrow> byte" where
  "kind_flags E k =
     (case k of StorageLeaf _ \<Rightarrow> 0 | AccountLeaf _ _ code root \<Rightarrow> account_flags E code root | Branch _ \<Rightarrow> 2)"

definition node_bytes :: "externals \<Rightarrow> node \<Rightarrow> bytes" where
  "node_bytes E n =
     [kind_flags E (node_kind n), of_nat (length (node_prefix n))] @ x_pack_to E (node_prefix n) @
     node_body E (node_kind n)"

lemma next_power_of_two_ge: "n \<le> next_power_of_two n"
proof (induction n rule: next_power_of_two.induct)
  case (1 n)
  show ?case
  proof (cases "n \<le> 1")
    case True
    then show ?thesis by (simp add: next_power_of_two.simps [of n])
  next
    case False
    then have "(n + 1) div 2 \<le> next_power_of_two ((n + 1) div 2)" by (rule 1)
    with False show ?thesis by (simp add: next_power_of_two.simps [of n])
  qed
qed

lemma map_filter_id_length:
  "length (List.map_filter (\<lambda>c. c) cs) = length (filter (\<lambda>c. c \<noteq> None) cs)"
  by (induction cs) (auto simp: List.map_filter_def)

lemma children_slots:
  "fst (children_slot_size cs) \<le> snd (children_slot_size cs)"
  "fst (children_slot_size cs) = length (List.map_filter (\<lambda>c. c) cs)"
  by (simp_all add: children_slot_size_def Let_def map_filter_id_length next_power_of_two_ge
      le_max_iff_disj)

lemma map_filter_id_set: "p \<in> set (List.map_filter (\<lambda>c. c) cs) \<longleftrightarrow> Some p \<in> set cs"
  by (induction cs) (auto simp: List.map_filter_def)

lemma write_account_eq:
  assumes E: "rlp_node_laws E" and wf: "node_kind_wf (AccountLeaf nonce bal code root)"
    and w: "length w = k" and buf: "length buf = k + length (node_body E (AccountLeaf nonce bal code root))"
  shows "write_account E nonce bal code root k (w @ drop k buf) =
    Ok (w @ node_body E (AccountLeaf nonce bal code root), length buf)"
proof -
  define cd where "cd = (if code \<noteq> x_keccak_empty E then code else [])"
  define W where "W = ((w @ nonce) @ bal) @ cd"
  define K where "K = k + length nonce + length bal + length cd"
  have W: "length W = K" using w by (simp add: W_def K_def)
  have code: "length code = 32" using wf by (simp add: node_kind_wf_def)
  have s1: "write_at (w @ drop k buf) k nonce = (w @ nonce) @ drop (k + length nonce) buf"
    using w by (rule write_at_step)
  have s2: "write_at ((w @ nonce) @ drop (k + length nonce) buf) (k + length nonce) bal =
      ((w @ nonce) @ bal) @ drop (k + length nonce + length bal) buf"
    using w by (intro write_at_step) simp
  have s3: "write_at (((w @ nonce) @ bal) @ drop (k + length nonce + length bal) buf) (k + length nonce + length bal) code =
      (((w @ nonce) @ bal) @ code) @ drop (k + length nonce + length bal + length code) buf"
    using w by (intro write_at_step) simp
  have "write_account E nonce bal code root k (w @ drop k buf) =
      (case root of None \<Rightarrow> Ok (W @ drop K buf, K) | Some p \<Rightarrow> write_pointers E [p] K (W @ drop K buf))"
    unfolding write_account_def Let_def s1 s2 s3 W_def K_def cd_def using code
    by (simp split: option.splits)
  also have "\<dots> = Ok (w @ node_body E (AccountLeaf nonce bal code root), length buf)"
  proof (cases root)
    case None
    then show ?thesis using buf by (simp add: node_body_def W_def K_def cd_def)
  next
    case (Some p)
    then have p: "rlp_node_wf (ptr_rlp p)" using wf by (simp add: node_kind_wf_def)
    with Some buf have "length buf = K + 37"
      by (simp add: node_body_def K_def cd_def pointer_bytes [OF E])
    then show ?thesis
      using write_pointers_eq [OF E, of "[p]" W K buf] p W Some
      by (simp add: node_body_def W_def cd_def del: write_pointers.simps)
  qed
  finally show ?thesis .
qed

lemma write_branch_eq:
  assumes E: "rlp_node_laws E" and wf: "node_kind_wf (Branch cs)"
    and w: "length w = k" and buf: "length buf = k + length (node_body E (Branch cs))"
  shows "write_branch E cs k (w @ drop k buf) = Ok (w @ node_body E (Branch cs), length buf)"
proof -
  let ?ps = "List.map_filter (\<lambda>c. c) cs"
  define W where "W = w @ to_be_bytes_u16 (children_bitmask cs)"
  define pad where "pad = (snd (children_slot_size cs) - fst (children_slot_size cs)) * 37"
  have ps: "list_all (\<lambda>p. rlp_node_wf (ptr_rlp p)) ?ps"
    using wf by (auto simp: list_all_iff map_filter_id_set node_kind_wf_def)
  have body: "length (concat (map (pointer_bytes E) ?ps)) = 37 * length ?ps"
    using ps by (induction ?ps arbitrary: cs) (auto simp: length_concat pointer_bytes [OF E] list_all_iff
        cong: map_cong simp: sum_list_triv)
  have len: "length buf = k + 2 + 37 * length ?ps + pad"
    using buf body by (simp add: node_body_def pad_def)
  have s1: "write_at (w @ drop k buf) k (to_be_bytes_u16 (children_bitmask cs)) = W @ drop (k + 2) buf"
    using write_at_step [OF w] by (simp add: W_def)
  have s2: "write_pointers E ?ps (k + 2) (W @ drop (k + 2) buf) =
      Ok ((W @ concat (map (pointer_bytes E) ?ps)) @ drop (k + 2 + 37 * length ?ps) buf, k + 2 + 37 * length ?ps)"
    using len w by (intro write_pointers_eq [OF E ps]) (simp_all add: W_def)
  have s3: "write_at ((W @ concat (map (pointer_bytes E) ?ps)) @ drop (k + 2 + 37 * length ?ps) buf)
      (k + 2 + 37 * length ?ps) (replicate pad 0) =
      ((W @ concat (map (pointer_bytes E) ?ps)) @ replicate pad 0) @ drop (k + 2 + 37 * length ?ps + pad) buf"
    using write_at_step [of "W @ concat (map (pointer_bytes E) ?ps)" "k + 2 + 37 * length ?ps" buf "replicate pad 0"]
      w body by (simp add: W_def)
  have pad: "usize_sub (snd (children_slot_size cs)) (fst (children_slot_size cs)) * 37 = pad"
    using children_slots [of cs] by (simp add: pad_def)
  have "write_branch E cs k (w @ drop k buf) =
      Ok (((W @ concat (map (pointer_bytes E) ?ps)) @ replicate pad 0) @ drop (k + 2 + 37 * length ?ps + pad) buf,
        k + 2 + 37 * length ?ps + pad)"
    unfolding write_branch_def Let_def split_beta s1 s2 bind_result.simps fst_conv snd_conv pad s3 ..
  then show ?thesis using len by (simp add: node_body_def W_def pad_def)
qed

lemma length_node_body:
  assumes "rlp_node_laws E" and "node_kind_wf (node_kind n)"
  shows "node_size E n = 2 + packed_length (length (node_prefix n)) + length (node_body E (node_kind n))"
proof (cases "node_kind n")
  case (AccountLeaf nonce bal code root)
  with assms show ?thesis
    by (auto simp: node_size_def node_body_def node_kind_wf_def pointer_bytes split: option.splits)
next
  case (StorageLeaf v)
  then show ?thesis by (simp add: node_size_def node_body_def)
next
  case (Branch cs)
  let ?ps = "List.map_filter (\<lambda>c. c) cs"
  have "\<forall>p \<in> set ?ps. length (pointer_bytes E p) = 37"
    using assms Branch by (auto simp: map_filter_id_set node_kind_wf_def pointer_bytes)
  then have "length (concat (map (pointer_bytes E) ?ps)) = 37 * length ?ps"
    by (induction ?ps arbitrary: cs) (auto simp: length_concat sum_list_triv cong: map_cong)
  moreover have "(s - t) * 37 + 37 * t = s * 37" if "t \<le> s" for s t :: nat
    using that by (simp add: diff_mult_distrib)
  ultimately show ?thesis
    using Branch children_slots [of cs] by (simp add: node_size_def node_body_def)
qed

lemma node_serialize_eq:
  assumes "codec_laws E" and "node_wf n" and "length buf = node_size E n"
  shows "node_serialize_into E n buf = Ok (node_bytes E n, node_size E n)"
proof -
  have E: "rlp_node_laws E" "nibble_pack_laws E" using assms(1) by (simp_all add: codec_laws_def)
  have wf: "node_kind_wf (node_kind n)" using assms(2) by (simp add: node_wf_def)
  let ?k = "2 + packed_length (length (node_prefix n))"
  have pk: "length (x_pack_to E (node_prefix n)) = packed_length (length (node_prefix n))"
    by (simp add: nibble_pack_lawsD [OF E(2)] packed_length_def)
  have len: "length buf = ?k + length (node_body E (node_kind n))"
    using assms(3) length_node_body [OF E(1) wf] by simp
  have hdr: "write_at (buf[0 := f, 1 := g]) 2 (x_pack_to E (node_prefix n)) =
      ([f, g] @ x_pack_to E (node_prefix n)) @ drop ?k buf" for f g
    using header_eq [of E "node_prefix n" buf f g] len pk by simp
  have w: "length ([f, g] @ x_pack_to E (node_prefix n)) = ?k" for f g :: byte using pk by simp
  show ?thesis
  proof (cases "node_kind n")
    case (AccountLeaf nonce bal code root)
    show ?thesis
      using write_account_eq [OF E(1), of nonce bal code root, OF _ w] wf len assms(3)
      by (simp only: node_serialize_into_def Let_def AccountLeaf hdr node_kind.case
          node_bytes_def kind_flags_def order.irrefl if_False append_assoc) 
  next
    case (StorageLeaf v)
    have "write_at (([0, g] @ x_pack_to E (node_prefix n)) @ drop ?k buf) ?k v =
        (([0, g] @ x_pack_to E (node_prefix n)) @ v) @ drop (?k + length v) buf" for g
      by (rule write_at_step [OF w])
    then show ?thesis
      using len assms(3) by (simp only: node_serialize_into_def Let_def StorageLeaf hdr node_kind.case
          node_bytes_def kind_flags_def node_body_def order.irrefl if_False) simp
  next
    case (Branch cs)
    show ?thesis
      using write_branch_eq [OF E(1), of cs, OF _ w] wf len assms(3)
      by (simp only: node_serialize_into_def Let_def Branch hdr node_kind.case
          node_bytes_def kind_flags_def order.irrefl if_False append_assoc)
  qed
qed

subsection \<open>Decoding\<close>

lemma byte_at_Ok [simp]: "i < length bs \<Longrightarrow> byte_at bs i = Ok (bs ! i)"
  by (simp add: byte_at_def)

lemma bytes_range_Ok [simp]: "a \<le> b \<Longrightarrow> b \<le> length bs \<Longrightarrow> bytes_range bs a b = Ok (subl bs a (b - a))"
  by (simp add: bytes_range_def)

lemma read_prefix_eq:
  assumes "nibble_pack_laws E" and "length p \<le> 64" and "list_all is_nibble p"
  shows "read_prefix ([f, of_nat (length p)] @ x_pack_to E p @ body) =
    Ok (path_of p, 2 + packed_length (length p))"
proof -
  let ?bs = "[f, of_nat (length p)] @ x_pack_to E p @ body"
  have len: "unat (of_nat (length p) :: byte) = length p"
    using assms(2) by (subst unat_of_nat) simp
  have pk: "length (x_pack_to E p) = packed_length (length p)"
    by (simp add: nibble_pack_lawsD [OF assms(1)] packed_length_def)
  have "bytes_range ?bs 2 (2 + packed_length (length p)) = (Ok (x_pack_to E p) :: (_, value_error) result)"
    using pk by (simp add: subl_def)
  moreover have "raw_path_unpack (x_pack_to E p) =
      (Ok (path_of (if even (length p) then p else p @ [0])) :: (_, value_error) result)"
    using pk assms(2,3)
    by (simp add: raw_path_unpack_eq nibble_pack_lawsD [OF assms(1)] packed_length_def)
  moreover have "raw_path_truncate (length p) (path_of (if even (length p) then p else p @ [0])) =
      (Ok (path_of p) :: (_, value_error) result)"
    using assms(2,3) by (simp add: raw_path_truncate_eq nibble_list_def is_nibble_def)
  ultimately show ?thesis
    by (simp add: read_prefix_def len Let_def)
qed

lemma prefix_nibbles_eq: "length p \<le> 64 \<Longrightarrow> prefix_nibbles (path_of p) = Ok p"
  by (simp add: prefix_nibbles_def nibbles_try_from_def)

lemma read_rlp_int_eq:
  assumes "rlp_int_string cap v" and "length w = k"
  shows "read_rlp_int cap (w @ v @ rest) k = Ok (v, length v)"
proof -
  obtain h t where v: "v = h # t" using assms(1) by (auto simp: rlp_int_string_def)
  have "subl (w @ v @ rest) k (length v) = v" using assms(2) by (simp add: subl_def)
  with v assms show ?thesis
    by (auto simp: read_rlp_int_def rlp_int_string_Cons nth_append Let_def split: if_splits)
qed

lemma bitmask_test:
  assumes "length cs = 16" and "i < 16"
  shows "children_bitmask cs AND 2 ^ (15 - i) = 0 \<longleftrightarrow> cs ! i = None"
proof -
  define bs where "bs = rev (map (\<lambda>c. c \<noteq> None) cs)"
  have "children_bitmask cs = (\<Sum>j<16. push_bit (15 - j) (of_bool (cs ! j \<noteq> None)))"
    using assms(1)
    by (simp add: children_bitmask_def enumerate_eq_zip interv_sum_list_conv_sum_set_nat
        sum_list_sum_nth atLeast0LessThan)
  also have "\<dots> = (\<Sum>j<16. of_bool (bs ! j) * 2 ^ j)"
  proof -
    have "(\<Sum>j<16. push_bit (15 - j) (of_bool (cs ! j \<noteq> None)) :: u16) =
        (\<Sum>j<16. push_bit (15 - (16 - Suc j)) (of_bool (cs ! (16 - Suc j) \<noteq> None)))"
      by (rule sum.nat_diff_reindex [symmetric])
    also have "\<dots> = (\<Sum>j<16. of_bool (bs ! j) * 2 ^ j)"
      using assms(1) by (intro sum.cong) (simp_all add: bs_def rev_nth push_bit_eq_mult mult.commute)
    finally show ?thesis .
  qed
  also have "\<dots> = horner_sum of_bool 2 bs"
    using assms(1) by (simp add: horner_sum_eq_sum bs_def atLeast0LessThan)
  finally have "bit (children_bitmask cs) (15 - i) \<longleftrightarrow> 15 - i < 16 \<and> bs ! (15 - i)"
    using assms by (simp add: bit_horner_sum_bit_word_iff bs_def)
  moreover have "bs ! (15 - i) \<longleftrightarrow> cs ! i \<noteq> None"
    using assms by (simp add: bs_def rev_nth)
  moreover have "15 - i < 16" by simp
  ultimately show ?thesis by (cases "cs ! i") (simp_all add: bit_iff_and_push_bit_not_eq_0 push_bit_eq_mult)
qed

lemma read_children_eq:
  assumes E: "rlp_node_laws E" and cs: "length cs = 16" "\<forall>p. Some p \<in> set cs \<longrightarrow> rlp_node_wf (ptr_rlp p)"
    and w: "length w = base"
    and bs: "bs = w @ concat (map (pointer_bytes E) (List.map_filter (\<lambda>c. c) cs)) @ rest"
    and k: "k \<le> 16"
  shows "read_children E bs base (children_bitmask cs) [k..<16]
      (length (List.map_filter (\<lambda>c. c) (take k cs))) = Ok (drop k cs)"
  using k
proof (induction "16 - k" arbitrary: k)
  case 0
  with cs(1) show ?case by simp
next
  case (Suc m)
  then have k: "k < 16" and upt: "[k..<16] = k # [Suc k..<16]" by (simp_all add: upt_rec)
  let ?n = "\<lambda>j. length (List.map_filter (\<lambda>c. c) (take j cs))"
  have dr: "drop k cs = cs ! k # drop (Suc k) cs" using k cs(1) by (simp add: Cons_nth_drop_Suc)
  have tk: "take (Suc k) cs = take k cs @ [cs ! k]" using k cs(1) by (simp add: take_Suc_conv_app_nth)
  have IH: "read_children E bs base (children_bitmask cs) [Suc k..<16] (?n (Suc k)) = Ok (drop (Suc k) cs)"
    using Suc.hyps(1) [of "Suc k"] Suc.hyps(2) k by simp
  show ?case
  proof (cases "cs ! k")
    case None
    then have "?n (Suc k) = ?n k" by (simp add: tk List.map_filter_def)
    with None IH show ?thesis
      by (simp add: upt dr bitmask_test [OF cs(1) k])
  next
    case (Some p)
    then have n: "?n (Suc k) = ?n k + 1" by (simp add: tk List.map_filter_def)
    have p: "rlp_node_wf (ptr_rlp p)" using Some cs k by (metis nth_mem)
    let ?A = "concat (map (pointer_bytes E) (List.map_filter (\<lambda>c. c) (take k cs)))"
    let ?B = "concat (map (pointer_bytes E) (List.map_filter (\<lambda>c. c) (drop (Suc k) cs)))"
    have "\<forall>q \<in> set (List.map_filter (\<lambda>c. c) (take k cs)). length (pointer_bytes E q) = 37"
      using cs(2) by (metis map_filter_id_set in_set_takeD pointer_bytes(2) [OF E])
    then have A: "length ?A = ?n k * 37"
      by (simp add: length_concat cong: map_cong) (simp add: sum_list_triv)
    have "cs = take k cs @ Some p # drop (Suc k) cs" using Some dr by (metis append_take_drop_id)
    moreover have "List.map_filter (\<lambda>c. c) (xs @ Some p # ys) =
        List.map_filter (\<lambda>c. c) xs @ p # List.map_filter (\<lambda>c. c) ys" for xs ys
      by (simp add: List.map_filter_def)
    ultimately have "List.map_filter (\<lambda>c. c) cs =
        List.map_filter (\<lambda>c. c) (take k cs) @ p # List.map_filter (\<lambda>c. c) (drop (Suc k) cs)"
      by metis
    then have "bs = (w @ ?A) @ pointer_bytes E p @ ?B @ rest" by (simp add: bs)
    then have "subl bs (base + ?n k * 37) 37 = pointer_bytes E p" and "base + ?n k * 37 + 37 \<le> length bs"
      using w A pointer_bytes [OF E p] by (simp_all add: subl_def)
    with Some IH n show ?thesis
      by (simp add: upt dr bitmask_test [OF cs(1) k] pointer_bytes [OF E p])
  qed
qed

lemma account_flags_tests:
  "account_flags E code root \<noteq> 0" "account_flags E code root AND 1 = 1"
  "account_flags E code root AND 0x80 \<noteq> 0 \<longleftrightarrow> root \<noteq> None"
  "account_flags E code root AND 0x40 \<noteq> 0 \<longleftrightarrow> code \<noteq> x_keccak_empty E"
  by (cases "root = None"; cases "code = x_keccak_empty E"; simp add: account_flags_def)+

lemma node_from_bytes_eq:
  assumes "codec_laws E" and "node_wf n"
  shows "node_from_bytes E (node_bytes E n) = Ok n"
proof -
  have E: "rlp_node_laws E" "nibble_pack_laws E" using assms(1) by (simp_all add: codec_laws_def)
  have wf: "node_kind_wf (node_kind n)" and p: "length (node_prefix n) \<le> 64" "list_all is_nibble (node_prefix n)"
    using assms(2) by (simp_all add: node_wf_def)
  define k where "k = 2 + packed_length (length (node_prefix n))"
  define w where "w = [kind_flags E (node_kind n), of_nat (length (node_prefix n))] @ x_pack_to E (node_prefix n)"
  have w: "length w = k"
    by (simp add: w_def k_def nibble_pack_lawsD [OF E(2)] packed_length_def)
  have bs: "node_bytes E n = w @ node_body E (node_kind n)" by (simp add: node_bytes_def w_def)
  have hd: "byte_at (node_bytes E n) 0 = (Ok (kind_flags E (node_kind n)) :: (_, value_error) result)"
    by (simp add: node_bytes_def)
  have pre: "read_prefix (node_bytes E n) = Ok (path_of (node_prefix n), k)"
    unfolding node_bytes_def k_def by (rule read_prefix_eq [OF E(2) p])
  note nib = prefix_nibbles_eq [OF p(1)]
  show ?thesis
  proof (cases "node_kind n")
    case (StorageLeaf v)
    then have "read_rlp_int 33 (node_bytes E n) k = Ok (v, length v)"
      using read_rlp_int_eq [of 33 v w k "[]"] wf w by (simp add: bs node_body_def node_kind_wf_def)
    with StorageLeaf show ?thesis
      by (simp add: node_from_bytes_def hd kind_flags_def read_storage_leaf_def pre nib node_new_def)
  next
    case (AccountLeaf nonce bal code root)
    define cd where "cd = (if code \<noteq> x_keccak_empty E then code else [])"
    define rt where "rt = (case root of None \<Rightarrow> [] | Some q \<Rightarrow> pointer_bytes E q)"
    have full: "node_bytes E n = w @ nonce @ bal @ cd @ rt"
      by (simp add: bs AccountLeaf node_body_def cd_def rt_def)
    have nonce: "read_rlp_int 9 (node_bytes E n) k = Ok (nonce, length nonce)"
      unfolding full using wf w AccountLeaf by (intro read_rlp_int_eq) (simp_all add: node_kind_wf_def)
    have bal: "read_rlp_int 33 (node_bytes E n) (k + length nonce) = Ok (bal, length bal)"
      unfolding full append_assoc [symmetric, of w nonce]
      using wf w AccountLeaf by (intro read_rlp_int_eq) (simp_all add: node_kind_wf_def)
    let ?c = "k + length nonce + length bal"
    have code: "length code = 32" using wf AccountLeaf by (simp add: node_kind_wf_def)
    have cd: "subl (node_bytes E n) ?c 32 = code" if "code \<noteq> x_keccak_empty E"
      using that w code by (simp add: full cd_def subl_def)
    have rt: "subl (node_bytes E n) (?c + length cd) 37 = pointer_bytes E q" if "root = Some q" for q
      using that w wf AccountLeaf pointer_bytes(2) [OF E(1), of q]
      by (simp add: full rt_def subl_def node_kind_wf_def)
    have len: "length (node_bytes E n) = ?c + length cd + (if root = None then 0 else 37)"
      using w wf AccountLeaf pointer_bytes(2) [OF E(1)]
      by (auto simp: full rt_def node_kind_wf_def split: option.splits)
    show ?thesis
      using AccountLeaf wf code cd rt len pointer_bytes(3) [OF E(1)]
      by (auto simp: node_from_bytes_def hd kind_flags_def account_flags_tests read_account_leaf_def
          Let_def pre nonce bal nib node_new_def cd_def node_kind_wf_def split: option.splits)
  next
    case (Branch cs)
    then have cs: "length cs = 16" "\<forall>p. Some p \<in> set cs \<longrightarrow> rlp_node_wf (ptr_rlp p)"
      using wf by (simp_all add: node_kind_wf_def)
    let ?m = "to_be_bytes_u16 (children_bitmask cs)"
    let ?ps = "concat (map (pointer_bytes E) (List.map_filter (\<lambda>c. c) cs))"
    obtain rest where full: "node_bytes E n = (w @ ?m) @ ?ps @ rest"
      by (simp add: bs Branch node_body_def)
    have m: "bytes_range (node_bytes E n) k (k + 2) = (Ok ?m :: (_, value_error) result)"
      using w by (simp add: full subl_def)
    have "read_children E (node_bytes E n) (k + 2) (children_bitmask cs) [0..<16] 0 = Ok cs"
      using read_children_eq [OF E(1) cs, of "w @ ?m" "k + 2" "node_bytes E n" rest 0] w full by simp
    then show ?thesis
      using Branch m
      by (simp add: node_from_bytes_def hd kind_flags_def read_branch_def pre nib node_new_def
          from_to_be_bytes_u16)
  qed
qed

interpretation node_value: value_codec "node_ops E" "\<lambda>n. codec_laws E \<and> node_wf n" for E
proof (unfold_locales, goal_cases)
  case (1 n)
  then show ?case by (auto simp: node_ops_def node_size_def Let_def split: node_kind.splits)
next
  case (2 n buf)
  then have "length (node_bytes E n) = node_size E n"
    using length_node_body [of E n]
    by (simp add: node_bytes_def codec_laws_def node_wf_def nibble_pack_lawsD packed_length_def)
  with 2 show ?case
    by (simp add: node_ops_def node_serialize_eq node_from_bytes_eq)
qed

subsection \<open>Growth of a node\<close>

lemma next_power_of_two_pos: "1 \<le> next_power_of_two n"
proof (induction n rule: next_power_of_two.induct)
  case (1 n)
  then show ?case by (cases "n \<le> 1") (simp_all add: next_power_of_two.simps [of n])
qed

lemma next_power_of_two_mono: "a \<le> b \<Longrightarrow> next_power_of_two a \<le> next_power_of_two b"
proof (induction b arbitrary: a rule: next_power_of_two.induct)
  case (1 b)
  show ?case
  proof (cases "a \<le> 1")
    case True
    then have "next_power_of_two a = 1" by (simp add: next_power_of_two.simps [of a])
    then show ?thesis using next_power_of_two_pos [of b] by simp
  next
    case False
    with "1.prems" have "\<not> b \<le> 1" and "(a + 1) div 2 \<le> (b + 1) div 2" by simp_all
    then have "next_power_of_two ((a + 1) div 2) \<le> next_power_of_two ((b + 1) div 2)" by (rule "1.IH")
    with False \<open>\<not> b \<le> 1\<close> show ?thesis
      by (simp add: next_power_of_two.simps [of a] next_power_of_two.simps [of b])
  qed
qed

lemma count_update_Some:
  "i < length cs \<Longrightarrow> cs ! i = None \<Longrightarrow>
   length (filter (\<lambda>c. c \<noteq> None) (cs[i := Some p])) = Suc (length (filter (\<lambda>c. c \<noteq> None) cs))"
  by (induction cs arbitrary: i) (auto split: nat.splits)

lemma count_less:
  "i < length cs \<Longrightarrow> cs ! i = None \<Longrightarrow> length (filter (\<lambda>c. c \<noteq> None) cs) < length cs"
  using length_filter_less [of None cs "\<lambda>c. c \<noteq> None"] by (metis nth_mem)

text \<open>
  C38. \<open>size_incr_with_new_child\<close> is the number of bytes by which a branch or an account leaf grows
  when a child is set where there was none; this is what the space checks before an insertion
  rely on. (Its documentation comment says that it returns the size of the grown node; the code returns the
  growth.)
\<close>

theorem size_incr_exact:
  assumes "node_wf n" and "set_child i p n = Ok n'"
    and "if is_branch n then node_child i n = Ok None else direct_child n = Ok None"
  shows "node_size E n' = node_size E n + size_incr_with_new_child n"
proof (cases "node_kind n")
  case (AccountLeaf nonce bal code root)
  with assms show ?thesis
    by (auto simp: set_child_def direct_child_def is_branch_def node_size_def size_incr_with_new_child_def)
next
  case (StorageLeaf v)
  with assms show ?thesis by (simp add: set_child_def)
next
  case (Branch cs)
  with assms have cs: "length cs = 16" "i < 16" "cs ! i = None" "n' = n\<lparr>node_kind := Branch (cs[i := Some p])\<rparr>"
    by (auto simp: set_child_def node_child_def is_branch_def node_wf_def node_kind_wf_def split: if_splits)
  define t where "t = length (filter (\<lambda>c. c \<noteq> None) cs)"
  have t: "t < 16" using count_less [of i cs] cs by (simp add: t_def)
  have "next_power_of_two t \<le> next_power_of_two (Suc t)" by (rule next_power_of_two_mono) simp
  moreover have "children_slot_size (cs[i := Some p]) = (Suc t, max (next_power_of_two (Suc t)) 2)"
    using count_update_Some [of i cs p] cs by (simp add: children_slot_size_def t_def Let_def)
  moreover have "children_slot_size cs = (t, max (next_power_of_two t) 2)"
    by (simp add: children_slot_size_def t_def Let_def)
  ultimately show ?thesis
    using Branch cs(4) t by (simp add: node_size_def size_incr_with_new_child_def Let_def)
qed

theorem size_incr_exact_witness:
  "node_size sample_externals (node_new [] (Branch ((replicate 16 None)[3 := Some (pointer_new (Location 1) [1])]))) =
     node_size sample_externals (node_new [] (Branch (replicate 16 None))) +
     size_incr_with_new_child (node_new [] (Branch (replicate 16 None)))"
  by (rule size_incr_exact [where i = 3 and p = "pointer_new (Location 1) [1]"])
     (simp_all add: node_wf_def node_kind_wf_def node_new_def set_child_def is_branch_def node_child_def)

text \<open>
  C32. The on-page encoding of a well-formed node fills exactly \<open>size\<close> bytes and decodes to the
  same node, for all three node kinds.
\<close>

theorem node_encoding_roundtrip:
  assumes "rlp_node_laws E" and "nibble_pack_laws E" and "node_wf n"
  shows "\<exists>bs. value_serialize (node_ops E) n = Ok bs \<and> length bs = node_size E n \<and> node_from_bytes E bs = Ok n"
proof -
  have "codec_laws E" using assms(1,2) by (simp add: codec_laws_def)
  with assms(3) obtain bs where
    "v_serialize_into (node_ops E) n (replicate (v_size (node_ops E) n) 0) = Ok (bs, v_size (node_ops E) n)"
    "length bs = v_size (node_ops E) n" "v_from_bytes (node_ops E) bs = Ok n"
    using node_value.serialize_decode [of E n "replicate (v_size (node_ops E) n) 0"] by auto
  then show ?thesis by (simp add: value_serialize_def) (simp add: node_ops_def)
qed

theorem node_encoding_roundtrip_witness:
  "\<exists>bs. value_serialize (node_ops sample_externals) (node_new [1, 2, 3] (StorageLeaf [0x81, 0xff])) = Ok bs \<and>
     length bs = node_size sample_externals (node_new [1, 2, 3] (StorageLeaf [0x81, 0xff])) \<and>
     node_from_bytes sample_externals bs = Ok (node_new [1, 2, 3] (StorageLeaf [0x81, 0xff]))"
  by (rule node_encoding_roundtrip [OF sample_rlp_node_laws sample_nibble_pack_laws])
     (simp add: node_wf_def node_kind_wf_def node_new_def is_nibble_def rlp_int_string_def)

text \<open>
  A leaf made by \<open>new_leaf\<close> for a path of at most 64 nibbles is well-formed and gives the value
  back; an account comes back with the empty storage root, whatever root was passed. A longer path
  is refused with \<open>MaxPrefixLengthExceeded\<close>.
\<close>

theorem new_leaf_value:
  assumes "rlp_int_laws E" and "raw_path_wf p" and "\<And>a. v = TAccount a \<Longrightarrow> length (acc_code_hash a) = 32"
  shows "new_leaf E p v =
      (if rp_len p \<le> 64 then Ok (node_new (raw_path_nibbles p) (case v of
          TAccount a \<Rightarrow> AccountLeaf (x_encode_u64 E (acc_nonce a)) (x_encode_u256 E (acc_balance a)) (acc_code_hash a) None
        | TStorage x \<Rightarrow> StorageLeaf (x_encode_u256 E x)))
       else Err MaxPrefixLengthExceeded) \<and>
    (\<forall>n. new_leaf E p v = Ok n \<longrightarrow> node_wf n \<and>
      node_value E n = Ok (case v of TAccount a \<Rightarrow> TAccount (a\<lparr>acc_storage_root := x_empty_root_hash E\<rparr>)
        | TStorage x \<Rightarrow> TStorage x))"
proof -
  have enc: "new_leaf E p v =
      (if rp_len p \<le> 64 then Ok (node_new (raw_path_nibbles p) (case v of
          TAccount a \<Rightarrow> AccountLeaf (x_encode_u64 E (acc_nonce a)) (x_encode_u256 E (acc_balance a)) (acc_code_hash a) None
        | TStorage x \<Rightarrow> StorageLeaf (x_encode_u256 E x)))
       else Err MaxPrefixLengthExceeded)"
    by (simp add: new_leaf_def nibbles_try_from_def new_account_leaf_def new_storage_leaf_def
        split: trie_value.splits)
  have int: "rlp_int_string 9 (x_encode_u64 E k)" "x_decode_u64 E (x_encode_u64 E k) = Some k"
    "rlp_int_string 33 (x_encode_u256 E b)" "x_decode_u256 E (x_encode_u256 E b) = Some b" for k b
    using assms(1) by (simp_all add: rlp_int_laws_def)
  have "list_all is_nibble (raw_path_nibbles p)" "length (raw_path_nibbles p) = rp_len p"
    using assms(2) by (simp_all add: raw_path_wf_def raw_path_wf_len)
  then show ?thesis
    using int assms(3)
    by (auto simp: enc node_wf_def node_kind_wf_def node_new_def node_value_def split: trie_value.splits if_splits)
qed

theorem new_leaf_value_witness:
  "new_leaf sample_externals (path_of [1, 2]) (TStorage 5) =
     Ok (node_new [1, 2] (StorageLeaf (x_encode_u256 sample_externals 5)))"
proof -
  have p: "raw_path_wf (path_of [1, 2])" by (simp add: nibble_list_def is_nibble_def)
  show ?thesis
    using new_leaf_value [OF sample_rlp_int_laws p, of "TStorage 5", THEN conjunct1] by simp
qed

lemma rlp_node_wf_len: "rlp_node_wf r \<Longrightarrow> length r \<le> 33"
  by (auto simp: rlp_node_wf_def)

subsection \<open>The buffers of the RLP encoding\<close>

lemma buffer_exact:
  "length bs \<le> cap \<Longrightarrow> length bs = n \<Longrightarrow> bind_result (fixed_buffer cap bs) (\<lambda>buf. bind_result (buffer_prefix n buf) g) = g bs"
  by (auto simp: fixed_buffer_def buffer_prefix_def subl_def)

lemma rlp_int_string_length: "rlp_int_string m v \<Longrightarrow> 1 \<le> m \<Longrightarrow> length v \<le> m"
  by (auto simp: rlp_int_string_def split: if_splits)

lemma rlp_length_bounds:
  assumes "rlp_list_laws E"
  shows "n < 2 ^ 16 \<Longrightarrow> rlp_length E n = (if n < 56 then 1 else if n < 256 then 2 else 3) + n"
    and "length (x_list_header E n) = x_length_of_length E n"
    and "length k \<le> 64 \<Longrightarrow> key_length E k \<le> 34"
    and "length k \<le> 64 \<Longrightarrow> length v \<le> 110 \<Longrightarrow> length (x_leaf_encode E k v) \<le> 148"
    and "length k \<le> 64 \<Longrightarrow> length c \<le> 33 \<Longrightarrow> length (x_extension_encode E k c) \<le> 69"
proof -
  have law: "rlp_length E n = (if n < 56 then 1 else if n < 256 then 2 else 3) + n" if "n < 2 ^ 16" for n
    using assms that by (simp add: rlp_list_laws_def rlp_length_def)
  then show "n < 2 ^ 16 \<Longrightarrow> rlp_length E n = (if n < 56 then 1 else if n < 256 then 2 else 3) + n" .
  show "length (x_list_header E n) = x_length_of_length E n" using assms by (simp add: rlp_list_laws_def)
  have key: "key_length E k \<le> 34" if "length k \<le> 64" for k
  proof -
    have "length k div 2 + 1 \<le> 33" using that by linarith
    then show ?thesis by (simp add: key_length_def law)
  qed
  then show "length k \<le> 64 \<Longrightarrow> key_length E k \<le> 34" .
  show "length (x_leaf_encode E k v) \<le> 148" if "length k \<le> 64" "length v \<le> 110"
  proof -
    have "rlp_length E (length v) \<le> 112" using that(2) by (simp add: law)
    then have "key_length E k + rlp_length E (length v) \<le> 146" using key [OF that(1)] by linarith
    moreover have "length (x_leaf_encode E k v) \<le> rlp_length E (key_length E k + rlp_length E (length v))"
      using assms by (simp add: rlp_list_laws_def)
    ultimately show ?thesis by (simp add: law split: if_splits)
  qed
  show "length (x_extension_encode E k c) \<le> 69" if "length k \<le> 64" "length c \<le> 33"
  proof -
    have "key_length E k + length c \<le> 67" using key [OF that(1)] that(2) by linarith
    moreover have "length (x_extension_encode E k c) \<le> rlp_length E (key_length E k + length c)"
      using assms by (simp add: rlp_list_laws_def)
    ultimately show ?thesis by (simp add: law split: if_splits)
  qed
qed

lemma account_leaf_fits:
  assumes "rlp_int_string 9 nonce" and "rlp_int_string 33 bal" and "length code = 32" and "length root = 32"
  shows "length (encode_account_leaf nonce bal code root) = account_leaf_length nonce bal"
    and "account_leaf_length nonce bal \<le> 110"
    and "unat (encode_account_leaf nonce bal code root ! 1) = account_leaf_length nonce bal - 2"
proof -
  have le: "length nonce \<le> 9" "length bal \<le> 33" using assms(1,2) rlp_int_string_length by fastforce+
  then have "unat (of_nat (66 + (length nonce + length bal)) :: byte) = 66 + (length nonce + length bal)"
    by (simp only: unat_of_nat) simp
  with le assms(3,4) show "length (encode_account_leaf nonce bal code root) = account_leaf_length nonce bal"
    "account_leaf_length nonce bal \<le> 110" "unat (encode_account_leaf nonce bal code root ! 1) = account_leaf_length nonce bal - 2"
    by (simp_all add: encode_account_leaf_def account_leaf_length_def Let_def del: of_nat_add)
qed

lemma branch_fits:
  assumes "rlp_list_laws E" and "length cs = 16" and "\<And>p. Some p \<in> set cs \<Longrightarrow> rlp_node_wf (ptr_rlp p)"
  shows "length (encode_branch E cs) = branch_length E cs" and "branch_length E cs \<le> MAX_RLP_ENCODED_LEN"
proof -
  have "(case c of Some p \<Rightarrow> length (ptr_rlp p) | None \<Rightarrow> 1) \<le> 33" if "c \<in> set cs" for c
    using that assms(3) rlp_node_wf_len by (auto split: option.splits)
  then have "sum_list (map (\<lambda>c. case c of Some p \<Rightarrow> length (ptr_rlp p) | None \<Rightarrow> 1) cs) \<le> sum_list (map (\<lambda>c. 33) cs)"
    by (intro sum_list_mono)
  then have "branch_payload_length cs \<le> 16 * 33 + 1" using assms(2) by (simp add: branch_payload_length_def sum_list_triv)
  then show "branch_length E cs \<le> MAX_RLP_ENCODED_LEN"
    using rlp_length_bounds(1) [OF assms(1), of "branch_payload_length cs"]
    by (simp add: branch_length_def rlp_length_def MAX_RLP_ENCODED_LEN_def split: if_splits)
  show "length (encode_branch E cs) = branch_length E cs"
    by (simp add: branch_length_def branch_payload_length_def encode_branch_def rlp_length_bounds(2) [OF assms(1)] length_concat comp_def
        option.case_distrib [where h = length] cong: option.case_cong)
qed

text \<open>
  C39. The fixed buffers of the RLP encoding suffice: for every well-formed node the 110 bytes for an
  account, the 532 bytes for the branch below an extension and the 532 bytes of the result are never
  exceeded, the lengths that \<open>encode_account_leaf\<close> and \<open>encode_branch\<close> return are the numbers of bytes they have
  written, and \<open>rlp_encode\<close> returns the encoding without a panic. The length byte of an account does not
  overflow.
\<close>

theorem rlp_buffers_suffice:
  assumes "rlp_node_laws E" and "rlp_list_laws E" and "length (x_empty_root_hash E) = 32" and "node_wf n"
  shows "(rlp_encode E n :: (_, 'e) result) = Ok (node_rlp_encode E n) \<and> length (node_rlp_encode E n) \<le> MAX_RLP_ENCODED_LEN \<and>
    (case node_kind n of
       AccountLeaf nonce bal code root \<Rightarrow> \<forall>h. length h = 32 \<longrightarrow>
         unat (encode_account_leaf nonce bal code h ! 1) + 2 = length (encode_account_leaf nonce bal code h)
     | Branch cs \<Rightarrow> length (encode_branch E cs) = branch_length E cs
     | StorageLeaf v \<Rightarrow> True)"
proof -
  have pre: "length (node_prefix n) \<le> 64" using assms(4) by (simp add: node_wf_def)
  note bounds = rlp_length_bounds(4,5) [OF assms(2) pre]
  show ?thesis
  proof (cases "node_kind n")
    case (AccountLeaf nonce bal code root)
    with assms(4) have wf: "rlp_int_string 9 nonce" "rlp_int_string 33 bal" "length code = 32"
      by (simp_all add: node_wf_def node_kind_wf_def)
    define h where "h = (case root of None \<Rightarrow> x_empty_root_hash E
       | Some p \<Rightarrow> (case x_as_hash E (ptr_rlp p) of Some h \<Rightarrow> h | None \<Rightarrow> x_empty_root_hash E))"
    have h: "length h = 32" using assms(3) rlp_node_lawsD(3) [OF assms(1)] by (auto simp: h_def split: option.splits)
    note fits = account_leaf_fits [OF wf]
    have len: "length (encode_account_leaf nonce bal code h) \<le> 110" using fits(1,2) [OF h] by simp
    have "node_encode E n = (Ok (node_rlp_encode E n) :: (_, 'e) result)"
      using AccountLeaf by (simp add: node_encode_def node_rlp_encode_def h_def [symmetric] buffer_exact [OF len fits(1) [OF h]])
    then show ?thesis
      using AccountLeaf bounds(1) [OF len] fits by (auto simp: rlp_encode_def node_rlp_encode_def h_def [symmetric] account_leaf_length_def MAX_RLP_ENCODED_LEN_def)
  next
    case (StorageLeaf v)
    then have "length v \<le> 33" using assms(4) rlp_int_string_length [of 33 v] by (simp add: node_wf_def node_kind_wf_def)
    then show ?thesis
      using StorageLeaf bounds(1) [of v] by (simp add: rlp_encode_def node_encode_def node_rlp_encode_def MAX_RLP_ENCODED_LEN_def)
  next
    case (Branch cs)
    with assms(4) have fits: "length (encode_branch E cs) = branch_length E cs" "branch_length E cs \<le> MAX_RLP_ENCODED_LEN"
      using branch_fits [OF assms(2), of cs] by (simp_all add: node_wf_def node_kind_wf_def)
    have len: "length (encode_branch E cs) \<le> 532" using fits by (simp add: MAX_RLP_ENCODED_LEN_def)
    have child: "length (x_from_rlp E r) \<le> 33" for r by (simp add: rlp_node_lawsD(5,6) [OF assms(1)])
    have "node_encode E n = (Ok (node_rlp_encode E n) :: (_, 'e) result)"
      using Branch by (simp add: node_encode_def node_rlp_encode_def buffer_exact [OF len fits(1)])
    then show ?thesis
      using Branch fits bounds(2) [OF child, of "encode_branch E cs"] by (simp add: rlp_encode_def node_rlp_encode_def MAX_RLP_ENCODED_LEN_def)
  qed
qed

theorem rlp_buffers_suffice_witness:
  "rlp_encode sample_externals (node_new [1] (Branch (replicate 16 (Some (pointer_new (Location 1) (0xa0 # replicate 32 7)))))) =
     Ok (node_rlp_encode sample_externals (node_new [1] (Branch (replicate 16 (Some (pointer_new (Location 1) (0xa0 # replicate 32 7))))))) \<and>
   length (encode_branch sample_externals (replicate 16 (Some (pointer_new (Location 1) (0xa0 # replicate 32 7))))) = 532"
proof -
  define cs where "cs = replicate 16 (Some (pointer_new (Location 1) (0xa0 # replicate 32 7)))"
  have wf: "node_wf (node_new [1] (Branch cs))" 
    by (simp add: cs_def node_wf_def node_kind_wf_def node_new_def is_nibble_def pointer_new_def rlp_node_wf_def)
  have "branch_payload_length cs = 529" by (simp add: cs_def branch_payload_length_def pointer_new_def sum_list_replicate)
  then have "branch_length sample_externals cs = 532" by (simp add: branch_length_def sample_externals_def)
  moreover have root: "length (x_empty_root_hash sample_externals) = 32" by (simp add: sample_externals_def)
  moreover have "node_kind (node_new [1] (Branch cs)) = Branch cs" by (simp add: node_new_def)
  ultimately show ?thesis
    using rlp_buffers_suffice [OF sample_rlp_node_laws sample_rlp_list_laws root wf, THEN conjunct2]
    by (simp add: cs_def [symmetric] rlp_buffers_suffice [OF sample_rlp_node_laws sample_rlp_list_laws root wf, THEN conjunct1])
qed

end
