(* ===== verification/Slotted_Page_Spec.thy ===== *)
theory Slotted_Page_Spec
  imports Slotted_Page_Alloc Node
begin

text \<open>
  The operations of a slotted page as updates of its map of cells, the interface they offer to the
  storage engine as the locale \<open>cell_store\<close>, interpreted on pages of trie nodes, and the properties of
  the component.
\<close>

subsection \<open>The operations on the abstract view\<close>

lemma cell_data_None: "cell_data c i = None \<longleftrightarrow> num_cells c \<le> i \<or> cp_is_deleted (cell_pointer_at c i)"
  by (auto simp: cell_data_def Let_def)

lemma next_free_ready:
  assumes "page_inv c" and "next_free_cell_index c = Ok i"
  shows "slot_ready (num_cells c) c i" and "cell_data c i = None"
proof -
  have "i \<le> num_cells c \<and> i < MAX_NUM_CELLS \<and> (i < num_cells c \<longrightarrow> cp_is_deleted (cell_pointer_at c i))"
    using assms by (fastforce simp: next_free_cell_index_def page_inv_def array_inv_def find_Some_iff split: option.splits if_splits)
  then show "slot_ready (num_cells c) c i" "cell_data c i = None"
    using assms(1) by (auto simp: slot_ready_def page_inv_def cell_data_None)
qed

lemma next_free_error:
  assumes "page_inv c"
  shows "(\<exists>i. next_free_cell_index c = Ok i) \<or>
    next_free_cell_index c = Err NoFreeCells \<and> num_cells c = 255 \<and> (\<forall>i < 255. cell_data c i \<noteq> None)"
  by (auto simp: next_free_cell_index_def cell_data_None find_None_iff page_consts split: option.splits)

definition stores :: "'v value_ops \<Rightarrow> bytes \<Rightarrow> nat \<Rightarrow> 'v \<Rightarrow> bytes \<Rightarrow> bool" where
  "stores ops c i v c' \<longleftrightarrow>
     (\<exists>bs. cell_data c' = (cell_data c)(i \<mapsto> bs) \<and> length bs = v_size ops v \<and> v_from_bytes ops bs = Ok v)"

lemma stores_get_value:
  "stores ops c i v c' \<Longrightarrow> page_inv c' \<Longrightarrow> get_value ops c' i = Ok v"
  by (auto simp: stores_def get_value_cell_data)

lemma stores_get_other:
  "stores ops c i v c' \<Longrightarrow> page_inv c \<Longrightarrow> page_inv c' \<Longrightarrow> k \<noteq> i \<Longrightarrow> get_value ops c' k = get_value ops c k"
  by (auto simp: stores_def get_value_cell_data)

lemma allocate_write:
  assumes "slot_ready m c index" and "value_codec ops valid" and "valid v" and "v_size ops v < 60000"
  shows "if fits c index (v_size ops v)
    then \<exists>cp c1 c'. allocate_cell_pointer c index (v_size ops v mod 2 ^ 16) = (Ok cp, c1) \<and>
      write_value ops c1 (cp_offset cp) (cp_length cp) v = (Ok (), c') \<and> page_inv c' \<and> stores ops c index v c' \<and>
      num_cells c' = cells_with c index \<and> occupied c' = occupied c + v_size ops v
    else allocate_cell_pointer c index (v_size ops v mod 2 ^ 16) = (Err PageIsFull, c)"
proof (cases "fits c index (v_size ops v)")
  case False
  then show ?thesis
    using allocate_cell_pointer_spec [OF assms(1) value_codec.size_pos [OF assms(2,3)] assms(4)] assms(4) by simp
next
  case True
  then obtain slot c1 where c1: "allocate_cell_pointer c index (v_size ops v) = (Ok (cp_bytes slot (v_size ops v)), c1)"
    "allocated c index (v_size ops v) slot c1"
    using allocate_cell_pointer_spec [OF assms(1) value_codec.size_pos [OF assms(2,3)] assms(4)] by auto
  then have inv: "page_inv c1" and live: "(index, slot, v_size ops v) \<in> set (live_cells (num_cells c1) c1)"
    unfolding allocated_def by blast+
  have "array_inv (num_cells c1) c1" using inv by (simp add: page_inv_def)
  from array_inv_cell [OF this live]
  have cp: "cp_offset (cp_bytes slot (v_size ops v)) = slot" "cp_length (cp_bytes slot (v_size ops v)) = v_size ops v"
    by auto
  obtain bs c' where w: "write_value ops c1 slot (v_size ops v) v = (Ok (), c')" "v_from_bytes ops bs = Ok v" "length bs = v_size ops v"
    "page_inv c'" "cell_data c' = (cell_data c1)(index \<mapsto> bs)" "num_cells c' = num_cells c1" "occupied c' = occupied c1"
    using write_value_spec [OF inv live assms(2,3) refl] by blast
  have "cell_data c' = (cell_data c)(index \<mapsto> bs)"
    using w(5) c1(2) by (auto simp: allocated_def fun_eq_iff)
  then have "stores ops c index v c'" using w by (auto simp: stores_def)
  then show ?thesis using True c1 cp w assms(4) by (simp add: allocated_def)
qed

lemma insert_value_cases:
  assumes "page_inv c" and "value_codec ops valid" and "valid v" and "v_size ops v < 60000"
  shows "case next_free_cell_index c of
      Ok i \<Rightarrow> cell_data c i = None \<and>
        (if fits c i (v_size ops v)
         then \<exists>c'. insert_value ops c v = (Ok i, c') \<and> page_inv c' \<and> stores ops c i v c' \<and>
           num_cells c' = cells_with c i \<and> occupied c' = occupied c + v_size ops v
         else insert_value ops c v = (Err PageIsFull, c))
    | Err e \<Rightarrow> insert_value ops c v = (Err e, c)
    | _ \<Rightarrow> False"
proof -
  consider i where "next_free_cell_index c = Ok i" | "next_free_cell_index c = Err NoFreeCells"
    using next_free_error [OF assms(1)] by blast
  then show ?thesis
  proof cases
    case (1 i)
    note ready = next_free_ready [OF assms(1) 1]
    from allocate_write [OF ready(1) assms(2-4)] show ?thesis
      using 1 ready(2) by (auto simp: insert_value_def split: if_splits)
  qed (simp add: insert_value_def)
qed

lemma cells_okI:
  assumes "\<And>i offset len. (i, offset, len) \<in> A \<Longrightarrow> 0 < len \<and> len \<le> offset \<and> offset + 3 * m + 1 \<le> 4088"
    and "\<And>a b. a \<in> A \<Longrightarrow> b \<in> A \<Longrightarrow> disjoint_cells a b"
  shows "cells_ok m A"
  using assms by (auto simp: cells_ok_def)

lemma cells_okD:
  assumes "cells_ok m A"
  shows "(i, offset, len) \<in> A \<Longrightarrow> 0 < len \<and> len \<le> offset \<and> offset + 3 * m + 1 \<le> 4088"
    and "a \<in> A \<Longrightarrow> b \<in> A \<Longrightarrow> disjoint_cells a b"
  using assms by (auto simp: cells_ok_def)

lemma cells_ok_mono:
  assumes "cells_ok m B" and "A \<subseteq> B" and "k \<le> m" shows "cells_ok k A"
proof (rule cells_okI)
  show "0 < len \<and> len \<le> offset \<and> offset + 3 * k + 1 \<le> 4088" if "(i, offset, len) \<in> A" for i offset len
    using cells_okD(1) [OF assms(1), of i offset len] that assms(2,3) by auto
  show "disjoint_cells a b" if "a \<in> A" "b \<in> A" for a b
    using cells_okD(2) [OF assms(1)] that assms(2) by blast
qed

lemma array_inv_page: 
  assumes "array_inv m c" shows "page_inv c"
proof -
  have "cells_ok (num_cells c) (set (live_cells (num_cells c) c))"
    by (rule cells_ok_mono [where m = m and B = "set (live_cells m c)"]) (use assms live_cells_array [OF assms] in \<open>simp_all add: array_inv_def\<close>)
  then show ?thesis using assms by (simp add: page_inv_def array_inv_def)
qed

lemma trim_cells:
  "trim_cells c n \<le> n" "\<And>k. trim_cells c n \<le> k \<Longrightarrow> k < n \<Longrightarrow> cp_is_deleted (cell_pointer_at c k)"
  "trim_cells c n = 0 \<or> \<not> cp_is_deleted (cell_pointer_at c (trim_cells c n - 1))"
proof (induction n)
  case (Suc n)
  { case 1 show ?case using Suc.IH(1) by simp }
  { case (2 k) then show ?case using Suc.IH(2) [of k] by (cases "k = n") (auto split: if_splits) }
  { case 3 show ?case using Suc.IH(3) by simp }
qed simp_all

text \<open>Clearing the pointer of a cell, before the deleted pointers at the end are dropped.\<close>

definition cleared :: "bytes \<Rightarrow> nat \<Rightarrow> bytes" where
  "cleared c i = write_at c (get_content_index i) (cp_bytes 0 0)"

lemma cleared_spec:
  assumes "page_inv c" and "i < num_cells c"
  shows "set_cell_pointer c i 0 0 = (Ok (cp_bytes 0 0), cleared c i)" and "length (cleared c i) = 4088"
    and "num_cells (cleared c i) = num_cells c"
    and "\<And>k. k < 256 \<Longrightarrow> cell_pointer_at (cleared c i) k = (if k = i then cp_bytes 0 0 else cell_pointer_at c k)"
    and "\<And>k offset l. (k, offset, l) \<in> set (live_cells (num_cells c) c) \<Longrightarrow> region (cleared c i) offset l = region c offset l"
proof -
  have len: "length c = 4088" and inv: "array_inv (num_cells c) c" and i: "i < 256" "num_cells c \<le> 255"
    using assms num_cells_less [of c] by (auto simp: page_inv_def array_inv_def page_consts simp del: num_cells_less)
  show "set_cell_pointer c i 0 0 = (Ok (cp_bytes 0 0), cleared c i)"
    unfolding cleared_def using len i by (intro set_cell_pointer_eq) auto
  show "length (cleared c i) = 4088" "num_cells (cleared c i) = num_cells c"
    using len i by (simp_all add: cleared_def page_consts)
  show "cell_pointer_at (cleared c i) k = (if k = i then cp_bytes 0 0 else cell_pointer_at c k)" if "k < 256" for k
    using len i that by (simp add: cleared_def cell_pointer_at_write)
  show "region (cleared c i) offset l = region c offset l" if "(k, offset, l) \<in> set (live_cells (num_cells c) c)" for k offset l
    unfolding cleared_def using array_inv_cell [OF inv that] assms(2) len
    by (intro region_write_header) (auto simp: page_consts)
qed

lemma delete_value_spec:
  assumes "page_inv c" and "i < num_cells c"
  shows "\<exists>c'. delete_value c i = (Ok (), c') \<and> slot_ready (num_cells c) c' i \<and> page_inv c' \<and>
    cell_data c' = (cell_data c)(i := None) \<and>
    occupied c' + cp_length (cell_pointer_at c i) = occupied c \<and>
    (num_cells c' = 0 \<or> cell_data c' (num_cells c' - 1) \<noteq> None)"
proof -
  note cl = cleared_spec [OF assms]
  define n where "n = num_cells c"
  define t where "t = trim_cells (cleared c i) n"
  define c' where "c' = (if t < n then set_num_cells (cleared c i) t else cleared c i)"
  have inv: "array_inv n c" and n: "n \<le> 255" "i < n"
    using assms by (simp_all add: n_def page_inv_def array_inv_def page_consts)
  have t: "t \<le> n" and dead: "\<And>k. t \<le> k \<Longrightarrow> k < n \<Longrightarrow> cp_is_deleted (cell_pointer_at (cleared c i) k)"
    and last: "t = 0 \<or> \<not> cp_is_deleted (cell_pointer_at (cleared c i) (t - 1))"
    using trim_cells [of "cleared c i" n] by (auto simp: t_def)
  have "cleared c i \<noteq> []" using cl(2) by auto
  then have c': "length c' = 4088" "num_cells c' = t" "\<And>k. cell_pointer_at c' k = cell_pointer_at (cleared c i) k"
    using cl(2,3) t n by (auto simp: c'_def n_def)
  have ptr: "cell_pointer_at c' k = (if k = i then cp_bytes 0 0 else cell_pointer_at c k)" if "k < n" for k
    using c'(3) cl(4) n that by simp
  have reg: "region c' offset l = region c offset l" if "(k, offset, l) \<in> set (live_cells n c)" for k offset l
    using cl(5) [OF that [unfolded n_def]] array_inv_cell [OF inv that [unfolded n_def]] by (simp add: c'_def)
  have sub: "set (live_cells n c') \<subseteq> set (live_cells n c)"
    using ptr by (auto simp: live_cells_def split: if_splits)
  have ainv: "array_inv n c'"
    using c' t n dead cells_ok_mono [OF _ sub order_refl] inv
    by (auto simp: array_inv_def page_consts)
  moreover have "cp_is_deleted (cell_pointer_at c' i)" using ptr n by simp
  ultimately have "slot_ready n c' i" using n by (simp add: slot_ready_def page_consts)
  moreover have "delete_value c i = (Ok (), c')"
    using cl(1) by (simp add: delete_value_def Let_def c'_def t_def n_def)
  moreover have "cell_data c' k = ((cell_data c)(i := None)) k" for k
  proof (cases "k < n \<and> \<not> cp_is_deleted (cell_pointer_at c' k)")
    case True
    then have "k < t" "k \<noteq> i" "\<not> cp_is_deleted (cell_pointer_at c k)"
      using dead [of k] c'(3) ptr [of k] by (auto simp: not_le [symmetric] split: if_splits)
    moreover from this True have "(k, cp_offset (cell_pointer_at c k), cp_length (cell_pointer_at c k)) \<in> set (live_cells n c)"
      by (simp add: live_cells_iff)
    ultimately show ?thesis using True reg ptr [of k] c'(2) by (simp add: cell_data_def Let_def n_def)
  next
    case False
    then show ?thesis using t c'(2) ptr [of k] by (auto simp: cell_data_def Let_def n_def split: if_splits)
  qed
  then have "cell_data c' = (cell_data c)(i := None)" by blast
  moreover have "occupied c' + cp_length (cell_pointer_at c i) = occupied c"
  proof -
    have "occupied c' = (\<Sum>k < n. cp_length (cell_pointer_at c' k))"
      unfolding occupied_sum by (rule sum.mono_neutral_left) (use c' t dead in \<open>auto simp: cp_deleted_iff\<close>)
    also have "\<dots> = (\<Sum>k \<in> {..<n} - {i}. cp_length (cell_pointer_at c k))"
      using n ptr by (subst sum.remove [of _ i]) auto
    finally show ?thesis
      unfolding occupied_sum [of c] n_def [symmetric] using n by (subst sum.remove [of "{..<n}" i]) auto
  qed
  moreover have "t = 0 \<or> cell_data c' (t - 1) \<noteq> None"
    using last c' by (auto simp: cell_data_None)
  ultimately show ?thesis using array_inv_page [OF ainv] c'(2) by (auto simp: n_def)
qed

lemma set_value_grow:
  assumes "page_inv c" and "i < num_cells c" and "value_codec ops valid" and "valid v" and "v_size ops v < 60000"
    and "cp_length (cell_pointer_at c i) < v_size ops v" and "delete_value c i = (Ok (), c1)"
  shows "if fits c1 i (v_size ops v)
    then \<exists>c'. set_value ops c i v = (Ok (), c') \<and> page_inv c' \<and> stores ops c i v c'
    else set_value ops c i v = (Err PageIsFull, c1)"
proof -
  have "slot_ready (num_cells c) c1 i" and data: "cell_data c1 = (cell_data c)(i := None)"
    using delete_value_spec [OF assms(1,2)] assms(7) by auto
  from allocate_write [OF this(1) assms(3-5)] show ?thesis
    using assms data by (auto simp: set_value_def get_cell_pointer_eq page_inv_def array_inv_def stores_def split: if_splits)
qed


lemma set_value_shrink:
  assumes "page_inv c" and "i < num_cells c" and "value_codec ops valid" and "valid v"
    and "v_size ops v \<le> cp_length (cell_pointer_at c i)"
  shows "\<exists>c'. set_value ops c i v = (Ok (), c') \<and> page_inv c' \<and> stores ops c i v c'"
proof -
  define cp s where "cp = cell_pointer_at c i" and "s = v_size ops v"
  have pos: "0 < s" unfolding s_def by (rule value_codec.size_pos [OF assms(3,4)])
  have inv: "array_inv (num_cells c) c" and len: "length c = 4088" "num_cells c \<le> 255"
    using assms(1) by (simp_all add: page_inv_def array_inv_def page_consts)
  have "\<not> cp_is_deleted cp" using pos assms(5) by (simp add: cp_deleted_iff cp_def s_def)
  then have live: "(i, cp_offset cp, cp_length cp) \<in> set (live_cells (num_cells c) c)"
    using assms(2) by (simp add: live_cells_iff cp_def)
  note cell = array_inv_cell [OF inv live]
  define c1 where "c1 = (if s < cp_length cp then write_at c (get_content_index i) (cp_bytes (cp_offset cp) s) else c)"
  have c1: "length c1 = 4088" "num_cells c1 = num_cells c"
    using len assms(2) by (simp_all add: c1_def page_consts)
  have ptr: "cell_pointer_at c1 k = cell_pointer_at c k" if "k < num_cells c" "k \<noteq> i" for k
    using that len assms(2) by (simp add: c1_def cell_pointer_at_write)
  have own: "cp_offset (cell_pointer_at c1 i) = cp_offset cp" "cp_length (cell_pointer_at c1 i) = s"
    using len assms(2,5) cell by (auto simp: c1_def cell_pointer_at_write cp_def s_def)
  have step: "set_value ops c i v = write_value ops c1 (cp_offset cp) s v"
    using assms(1,2,5) len cell set_cell_pointer_eq [of c i "cp_offset cp" s]
    by (auto simp: set_value_def get_cell_pointer_eq cp_def [symmetric] s_def [symmetric] c1_def Let_def)
  have live1: "(k, o2, l) \<in> set (live_cells (num_cells c) c1) \<longleftrightarrow>
      (if k = i then o2 = cp_offset cp \<and> l = s else (k, o2, l) \<in> set (live_cells (num_cells c) c))" for k o2 l
    using ptr [of k] own pos assms(2) by (auto simp: live_cells_iff cp_deleted_iff)
  have reg: "region c1 o2 l = region c o2 l" if "(k, o2, l) \<in> set (live_cells (num_cells c) c)" for k o2 l
    using array_inv_cell [OF inv that] assms(2) len
    by (auto simp: c1_def page_consts intro!: region_write_header)
  have ok: "cells_ok (num_cells c) (set (live_cells (num_cells c) c))" using inv by (simp add: array_inv_def)
  have "cells_ok (num_cells c) (set (live_cells (num_cells c) c1))"
  proof (rule cells_okI)
    fix a b assume ab: "a \<in> set (live_cells (num_cells c) c1)" "b \<in> set (live_cells (num_cells c) c1)"
    have "disjoint_cells (i, cp_offset cp, cp_length cp) x \<and> disjoint_cells x (i, cp_offset cp, cp_length cp)"
      if "x \<in> set (live_cells (num_cells c) c)" for x using cells_okD(2) [OF ok] that live by blast
    then show "disjoint_cells a b"
      using ab cells_okD(2) [OF ok] assms(5) live1 unfolding s_def [symmetric] cp_def [symmetric]
      by (cases a; cases b) (fastforce simp: disjoint_cells_def split: if_splits)
  next
    fix k o2 l assume "(k, o2, l) \<in> set (live_cells (num_cells c) c1)"
    then show "0 < l \<and> l \<le> o2 \<and> o2 + 3 * num_cells c + 1 \<le> 4088"
      using cells_okD(1) [OF ok] cell pos assms(5) by (auto simp: live1 s_def cp_def split: if_splits)
  qed
  then have inv1: "page_inv c1" using c1 len by (simp add: page_inv_def array_inv_def page_consts)
  have "(i, cp_offset cp, s) \<in> set (live_cells (num_cells c1) c1)" using live1 c1 by simp
  from write_value_spec [OF inv1 this assms(3,4)] obtain bs c' where
    w: "write_value ops c1 (cp_offset cp) s v = (Ok (), c')" "v_from_bytes ops bs = Ok v" "length bs = s" "page_inv c'"
      "cell_data c' = (cell_data c1)(i \<mapsto> bs)"
    by (auto simp: s_def)
  have "cell_data c1 k = cell_data c k" if "k \<noteq> i" for k
    using that ptr [of k] reg c1(2)
    by (cases "k < num_cells c") (simp_all add: cell_data_def live_cells_iff Let_def)
  then have "(cell_data c1)(i \<mapsto> bs) = (cell_data c)(i \<mapsto> bs)" by auto
  with w step show ?thesis by (auto simp: stores_def s_def)
qed

lemma swap_bytes_nth:
  "a < length c \<Longrightarrow> b < length c \<Longrightarrow> p < length c \<Longrightarrow>
   swap_bytes c a b ! p = c ! (if p = a then b else if p = b then a else p)"
  by (auto simp: swap_bytes_def nth_list_update)

lemma length_swap_bytes [simp]: "length (swap_bytes c a b) = length c"
  by (simp add: swap_bytes_def)

lemma cell_pointer_at_list:
  assumes "length c = 4088" and "k < 256"
  shows "cell_pointer_at c k = [c ! (1 + 3 * k), c ! (2 + 3 * k), c ! (3 + 3 * k)]"
proof (rule nth_equalityI)
  fix j assume "j < length (cell_pointer_at c k)"
  then have "j < 3" using assms by (simp add: cell_pointer_at_def page_consts)
  then have "j = 0 \<or> j = 1 \<or> j = 2" by auto
  then show "cell_pointer_at c k ! j = [c ! (1 + 3 * k), c ! (2 + 3 * k), c ! (3 + 3 * k)] ! j"
    using assms by (auto simp: cell_pointer_at_def page_consts subl_nth numeral_3_eq_3)
qed (use assms in \<open>simp add: cell_pointer_at_def page_consts\<close>)

definition swapped :: "bytes \<Rightarrow> nat \<Rightarrow> nat \<Rightarrow> bytes" where
  "swapped c i j = swap_bytes (swap_bytes (swap_bytes c (1 + 3 * i) (1 + 3 * j)) (2 + 3 * i) (2 + 3 * j)) (3 + 3 * i) (3 + 3 * j)"

lemma swapped_nth:
  assumes "length c = 4088" and "i < 256" and "j < 256" and "p < 4088"
  shows "swapped c i j ! p =
    (if 1 + 3 * i \<le> p \<and> p < 4 + 3 * i then c ! (p - 3 * i + 3 * j)
     else if 1 + 3 * j \<le> p \<and> p < 4 + 3 * j then c ! (p - 3 * j + 3 * i) else c ! p)"
proof -
  have "p = 1 + 3 * q \<or> p = 2 + 3 * q \<or> p = 3 + 3 * q" if "1 + 3 * q \<le> p" "p < 4 + 3 * q" for q using that by linarith
  then show ?thesis
    using assms by (auto simp: swapped_def swap_bytes_nth)
qed

definition swap_index :: "nat \<Rightarrow> nat \<Rightarrow> nat \<Rightarrow> nat" where
  "swap_index i j k = (if k = i then j else if k = j then i else k)"

lemma swap_index_inj: "swap_index i j k = swap_index i j l \<longleftrightarrow> k = l"
  by (auto simp: swap_index_def)

lemma swapped_pointer:
  assumes "length c = 4088" and "i < 256" and "j < 256" and "k < 256"
  shows "cell_pointer_at (swapped c i j) k = cell_pointer_at c (swap_index i j k)"
proof -
  have lt: "swap_index i j k < 256" using assms by (simp add: swap_index_def)
  have nth: "swapped c i j ! (d + 3 * k) = c ! (d + 3 * swap_index i j k)" if d: "1 \<le> d" "d \<le> 3" for d
  proof -
    have "1 + 3 * q \<le> d + 3 * k \<and> d + 3 * k < 4 + 3 * q \<longleftrightarrow> k = q" for q using d by auto
    then show ?thesis using assms d by (simp add: swapped_nth swap_index_def)
  qed
  have "length (swapped c i j) = 4088" using assms by (simp add: swapped_def)
  then show ?thesis
    using assms lt nth [of 1] nth [of 2] nth [of 3] by (simp only: cell_pointer_at_list)
qed

lemma swap_cell_pointers_eq:
  "i < num_cells c \<Longrightarrow> j < num_cells c \<Longrightarrow> swap_cell_pointers c i j = (Ok (), swapped c i j)"
  by (simp add: swap_cell_pointers_def swapped_def page_consts numeral_3_eq_3 eval_nat_numeral)

lemma swap_spec:
  assumes "page_inv c" and "i < num_cells c" and "j < num_cells c"
  shows "page_inv (swapped c i j)" and "cell_data (swapped c i j) = (\<lambda>k. cell_data c (swap_index i j k))"
proof -
  have inv: "array_inv (num_cells c) c" and len: "length c = 4088" "num_cells c \<le> 255"
    using assms(1) by (simp_all add: page_inv_def array_inv_def page_consts)
  have sw: "length (swapped c i j) = 4088" "num_cells (swapped c i j) = num_cells c"
    using len assms by (simp_all add: swapped_def num_cells_def swap_bytes_nth)
  have lt: "swap_index i j k < num_cells c \<longleftrightarrow> k < num_cells c" for k using assms by (simp add: swap_index_def)
  have ptr: "cell_pointer_at (swapped c i j) k = cell_pointer_at c (swap_index i j k)" if "k < num_cells c" for k
    using swapped_pointer [of c i j k] len assms that by simp
  have live: "(k, offset, l) \<in> set (live_cells (num_cells c) (swapped c i j)) \<longleftrightarrow>
      (swap_index i j k, offset, l) \<in> set (live_cells (num_cells c) c)" for k offset l
    using ptr [of k] lt [of k] by (auto simp: live_cells_iff)
  have ok: "cells_ok (num_cells c) (set (live_cells (num_cells c) c))" using inv by (simp add: array_inv_def)
  have "cells_ok (num_cells c) (set (live_cells (num_cells c) (swapped c i j)))"
  proof (rule cells_okI)
    show "0 < l \<and> l \<le> offset \<and> offset + 3 * num_cells c + 1 \<le> 4088"
      if "(k, offset, l) \<in> set (live_cells (num_cells c) (swapped c i j))" for k offset l
      using cells_okD(1) [OF ok] that live by blast
    show "disjoint_cells a b" if "a \<in> set (live_cells (num_cells c) (swapped c i j))"
      "b \<in> set (live_cells (num_cells c) (swapped c i j))" for a b
    proof -
      obtain ka oa la kb ob lb where ab: "a = (ka, oa, la)" "b = (kb, ob, lb)" by (cases a; cases b)
      have "disjoint_cells (swap_index i j ka, oa, la) (swap_index i j kb, ob, lb)"
        using cells_okD(2) [OF ok] that ab live by blast
      then show ?thesis by (simp add: ab disjoint_cells_def swap_index_inj)
    qed
  qed
  then show "page_inv (swapped c i j)" using sw len by (simp add: page_inv_def array_inv_def page_consts)
  have "region (swapped c i j) offset l = region c offset l" if "(k, offset, l) \<in> set (live_cells (num_cells c) c)" for k offset l
    using array_inv_cell [OF inv that] assms(2,3) len sw
    by (intro nth_equalityI) (auto simp: region_def subl_nth swapped_nth)
  then show "cell_data (swapped c i j) = (\<lambda>k. cell_data c (swap_index i j k))"
    using sw lt ptr by (auto simp: fun_eq_iff cell_data_def Let_def live_cells_iff)
qed

subsection \<open>The space counters\<close>

lemma space_counters:
  assumes "page_inv c"
  shows "num_free_bytes c = 4087 - 3 * num_cells c - occupied c"
    and "num_dead_bytes c (num_cells c) = 0"
    and "num_occupied_bytes c = occupied c + 3 * num_cells c"
    and "num_occupied_bytes c + num_free_bytes c + 1 = DATA_SIZE"
    and "num_occupied_cells c = card {i. cell_data c i \<noteq> None}"
proof -
  have inv: "array_inv (num_cells c) c" and len: "length c = 4088" using assms by (simp_all add: page_inv_def array_inv_def)
  note le = occupied_le [OF inv]
  have tot: "total_occupied_space c = occupied c" by (rule total_occupied_space_eq [OF inv])
  show free: "num_free_bytes c = 4087 - 3 * num_cells c - occupied c"
    using le by (simp add: num_free_bytes_def num_free_bytes_with_cell_count_def tot len page_consts)
  have "sum_list (map cp_length (filter (\<lambda>cp. \<not> cp_is_deleted cp) (cell_pointers_iter c))) = occupied c"
    unfolding map_live_pointers occupied_def by (intro arg_cong [where f = sum_list] map_cong) (auto simp: live_cells_iff)
  then show occ: "num_occupied_bytes c = occupied c + 3 * num_cells c" by (simp add: num_occupied_bytes_def page_consts)
  show "num_occupied_bytes c + num_free_bytes c + 1 = DATA_SIZE" using occ free le by simp
  have "sum_list (map cp_length (cell_pointers_iter c)) = occupied c"
    by (simp add: cell_pointers_iter_def occupied_sum comp_def interv_sum_list_conv_sum_set_nat atLeast0LessThan)
  then show "num_dead_bytes c (num_cells c) = 0"
    using le free by (simp add: num_dead_bytes_def num_free_bytes_def Let_def len page_consts)
  have "num_occupied_cells c = length (filter (\<lambda>i. \<not> cp_is_deleted (cell_pointer_at c i)) [0..<num_cells c])"
    by (simp add: num_occupied_cells_def cell_pointers_iter_def filter_map comp_def)
  also have "\<dots> = card {i. cell_data c i \<noteq> None}"
    by (subst distinct_card [symmetric]) (auto simp: cell_data_None intro!: arg_cong [where f = card])
  finally show "num_occupied_cells c = card {i. cell_data c i \<noteq> None}" .
qed

subsection \<open>The interface of a page of cells\<close>

text \<open>
  What the storage engine relies on: an insertion that succeeds makes the value readable under a new
  index and disturbs no other index, one that fails leaves the page alone, and a removal only
  affects its own index.
\<close>

locale cell_store =
  fixes inv :: "'p \<Rightarrow> bool" and valid :: "'v \<Rightarrow> bool" and live :: "'p \<Rightarrow> nat \<Rightarrow> bool"
    and lookup :: "'p \<Rightarrow> nat \<Rightarrow> ('v, 'e) result"
    and ins :: "'p \<Rightarrow> 'v \<Rightarrow> (nat, 'e) result \<times> 'p"
    and rem :: "'p \<Rightarrow> nat \<Rightarrow> (unit, 'e) result \<times> 'p"
  assumes ins_ok: "inv p \<Longrightarrow> valid v \<Longrightarrow> ins p v = (Ok i, p') \<Longrightarrow>
      inv p' \<and> \<not> live p i \<and> live p' i \<and> lookup p' i = Ok v \<and> (\<forall>k. k \<noteq> i \<longrightarrow> lookup p' k = lookup p k \<and> live p' k = live p k)"
    and ins_err: "inv p \<Longrightarrow> valid v \<Longrightarrow> ins p v = (r, p') \<Longrightarrow> (\<forall>i. r \<noteq> Ok i) \<Longrightarrow> p' = p"
    and rem_ok: "inv p \<Longrightarrow> live p i \<Longrightarrow>
      \<exists>p'. rem p i = (Ok (), p') \<and> inv p' \<and> \<not> live p' i \<and> (\<forall>k. k \<noteq> i \<longrightarrow> lookup p' k = lookup p k \<and> live p' k = live p k)"
begin

lemma ins_rem:
  assumes "inv p" and "valid v" and "ins p v = (Ok i, p')"
  obtains p'' where "rem p' i = (Ok (), p'')" and "inv p''" and "live p'' = live p"
    and "\<And>k. live p k \<Longrightarrow> lookup p'' k = lookup p k"
proof -
  have i: "inv p'" "\<not> live p i" "live p' i" "\<And>k. k \<noteq> i \<Longrightarrow> lookup p' k = lookup p k \<and> live p' k = live p k"
    using ins_ok [OF assms] by auto
  from rem_ok [OF i(1,3)] obtain p'' where r: "rem p' i = (Ok (), p'')" "inv p''" "\<not> live p'' i"
    "\<And>k. k \<noteq> i \<Longrightarrow> lookup p'' k = lookup p' k \<and> live p'' k = live p' k" by blast
  have "live p'' k = live p k" for k using i r by (cases "k = i") auto
  then have "live p'' = live p" by blast
  moreover have "lookup p'' k = lookup p k" if "live p k" for k using i r that by metis
  ultimately show ?thesis using that r by blast
qed

end


lemma node_size_small:
  assumes "node_wf n" shows "node_size E n < 60000"
proof -
  have int: "length v \<le> max m 1" if "rlp_int_string m v" for m v
    using that by (auto simp: rlp_int_string_def split: if_splits)
  have prefix: "packed_length (length (node_prefix n)) \<le> 64"
    using assms unfolding node_wf_def packed_length_def by linarith
  show ?thesis
  proof (cases "node_kind n")
    case (AccountLeaf nonce bal code root)
    with assms have "rlp_int_string 9 nonce" "rlp_int_string 33 bal" by (simp_all add: node_wf_def node_kind_wf_def)
    from int [OF this(1)] int [OF this(2)] AccountLeaf prefix show ?thesis by (simp add: node_size_def Let_def)
  next
    case (StorageLeaf v)
    with assms have "rlp_int_string 33 v" by (simp add: node_wf_def node_kind_wf_def)
    from int [OF this] StorageLeaf prefix show ?thesis by (simp add: node_size_def Let_def)
  next
    case (Branch cs)
    with assms have "length cs = 16" by (simp add: node_wf_def node_kind_wf_def)
    then have "length (filter (\<lambda>c. c \<noteq> None) cs) \<le> 16" using length_filter_le [of _ cs] by metis
    moreover have "next_power_of_two 16 = 16" by code_simp
    ultimately have "snd (children_slot_size cs) \<le> 16"
      using next_power_of_two_mono [of "length (filter (\<lambda>c. c \<noteq> None) cs)" 16]
      by (simp add: children_slot_size_def Let_def)
    with Branch prefix show ?thesis by (simp add: node_size_def Let_def)
  qed
qed

interpretation node_page: cell_store page_inv "\<lambda>n. codec_laws E \<and> node_wf n" "\<lambda>c i. cell_data c i \<noteq> None"
  "get_value (node_ops E)" "insert_value (node_ops E)" delete_value for E
proof (unfold_locales, goal_cases)
  case (1 c n i c')
  then have "v_size (node_ops E) n < 60000" using node_size_small [of n E] by (simp add: node_ops_def)
  from insert_value_cases [OF 1(1) node_value.value_codec_axioms [of E] 1(2) this] 1
  show ?case using stores_get_value [of "node_ops E" c i n c'] stores_get_other [of "node_ops E" c i n c']
    by (auto simp: stores_def split: result.splits if_splits)
next
  case (2 c n r c')
  then have "v_size (node_ops E) n < 60000" using node_size_small [of n E] by (simp add: node_ops_def)
  from insert_value_cases [OF 2(1) node_value.value_codec_axioms [of E] 2(2) this] 2
  show ?case by (auto split: result.splits if_splits)
next
  case (3 c i)
  then have "i < num_cells c" by (simp add: cell_data_None)
  from delete_value_spec [OF 3(1) this] 3 show ?case by (auto simp: get_value_cell_data)
qed


subsection \<open>Properties\<close>

lemma empty_page_inv: "page_inv (replicate 4088 0)"
proof -
  have "num_cells (replicate 4088 0) = 0" by (simp add: num_cells_def)
  then show ?thesis by (simp add: page_inv_def array_inv_def live_cells_def cells_ok_def)
qed

lemma empty_page_fits: "fits (replicate 4088 0) 0 n \<longleftrightarrow> n \<le> 4084"
proof -
  have "num_cells (replicate 4088 0) = 0" by (simp add: num_cells_def)
  then show ?thesis by (simp add: fits_def occupied_def live_cells_def)
qed

lemma vec_size [simp]: "v_size vec_ops v = length v"
  by (simp add: vec_ops_def)

lemma empty_page_free:
  "next_free_cell_index (replicate 4088 0) = Ok 0" "cell_data (replicate 4088 0) i = None"
  by (simp_all add: next_free_cell_index_def num_cells_def MAX_NUM_CELLS_def cell_data_None)

lemma empty_page_ready: "slot_ready 0 (replicate 4088 0) 0"
  using next_free_ready(1) [OF empty_page_inv empty_page_free(1)] by (simp add: num_cells_def)

lemma sample_page:
  obtains c where "page_inv c" and "num_cells c = 1" and "cell_data c = [0 \<mapsto> [7, 8]]" and "occupied c = 2"
proof -
  have vec: "valid_vec [7, 8]" if "valid_vec = (\<lambda>v :: bytes. v \<noteq> [])" for valid_vec using that by simp
  obtain c where "page_inv c" "stores vec_ops (replicate 4088 0) 0 [7, 8] c" "num_cells c = cells_with (replicate 4088 0) 0"
      "occupied c = occupied (replicate 4088 0) + v_size vec_ops [7, 8 :: byte]"
    using insert_value_cases [OF empty_page_inv vec_value.value_codec_axioms, of "[7, 8]"] empty_page_free(1) empty_page_fits [of 2]
    by (auto simp: numeral_2_eq_2)
  then show ?thesis
    by (intro that [of c])
       (auto simp: stores_def vec_ops_def vec_from_bytes_def num_cells_def occupied_def live_cells_def fun_eq_iff empty_page_free(2))
qed

text \<open>
  C10. \<open>insert_value\<close> either stores the value under an index that was free, where \<open>get_value\<close> then
  reads it back and every other cell reads as before, or fails and leaves the page as it was: with
  \<open>NoFreeCells\<close> only when all 255 cells are in use, with \<open>PageIsFull\<close> only when the live cells, the new
  one and the pointers do not fit into the page even when packed.
\<close>

theorem insert_value_spec:
  assumes "page_inv c" and "value_codec ops valid" and "valid v" and "v_size ops v < 60000"
  shows "(\<exists>i c'. insert_value ops c v = (Ok i, c') \<and> page_inv c' \<and> fits c i (v_size ops v) \<and>
        cell_data c i = None \<and> get_value ops c' i = Ok v \<and>
        (\<forall>k. k \<noteq> i \<longrightarrow> cell_data c' k = cell_data c k \<and> get_value ops c' k = get_value ops c k)) \<or>
      insert_value ops c v = (Err NoFreeCells, c) \<and> (\<forall>i < 255. cell_data c i \<noteq> None) \<or>
      insert_value ops c v = (Err PageIsFull, c) \<and>
        (\<exists>i. next_free_cell_index c = Ok i \<and> \<not> fits c i (v_size ops v))"
proof -
  consider i where "next_free_cell_index c = Ok i"
    | "next_free_cell_index c = Err NoFreeCells" "\<forall>i < 255. cell_data c i \<noteq> None"
    using next_free_error [OF assms(1)] by blast
  then show ?thesis
  proof cases
    case (1 i)
    show ?thesis
    proof (cases "fits c i (v_size ops v)")
      case True
      then obtain c' where c': "insert_value ops c v = (Ok i, c')" "page_inv c'" "stores ops c i v c'" "cell_data c i = None"
        using insert_value_cases [OF assms] 1 by auto
      then have "\<forall>k. k \<noteq> i \<longrightarrow> cell_data c' k = cell_data c k" by (auto simp: stores_def)
      then have "\<forall>k. k \<noteq> i \<longrightarrow> cell_data c' k = cell_data c k \<and> get_value ops c' k = get_value ops c k"
        using stores_get_other [OF c'(3) assms(1) c'(2)] by simp
      then show ?thesis
        using c' True stores_get_value [OF c'(3,2)] by (intro disjI1 exI [of _ i] exI [of _ c']) simp
    next
      case False
      then show ?thesis using insert_value_cases [OF assms] 1 by simp
    qed
  next
    case 2
    then show ?thesis using insert_value_cases [OF assms] by simp
  qed
qed

theorem insert_value_spec_witness:
  "\<exists>i c'. insert_value vec_ops (replicate 4088 0) [7, 8] = (Ok i, c') \<and> get_value vec_ops c' i = Ok [7, 8]"
  using insert_value_spec [OF empty_page_inv vec_value.value_codec_axioms, of "[7, 8]"] empty_page_free(1)
    empty_page_free(2) [of 0] empty_page_fits [of 2]
  by (auto simp: numeral_2_eq_2 dest: spec [of _ 0])

text \<open>
  C11. \<open>allocate_cell_pointer\<close> terminates on every valid page: two calls are enough, and more fuel
  changes nothing. It neither panics nor corrupts the page: it succeeds exactly when the live cells,
  the new cell and the pointer array fit, then the new cell overlaps no other cell nor the pointers,
  and all other cells keep their data, although they may have been moved; otherwise it returns
  \<open>PageIsFull\<close> and the page is unchanged.
\<close>

theorem allocate_cell_pointer_terminates:
  assumes "slot_ready m c index" and "0 < len" and "len < 60000" and "2 \<le> fuel"
  shows "allocate_cell_pointer_fuel fuel c index len = allocate_cell_pointer c index len \<and>
    (if fits c index len
     then \<exists>slot c'. allocate_cell_pointer c index len = (Ok (cp_bytes slot len), c') \<and> page_inv c' \<and>
       (index, slot, len) \<in> set (live_cells (num_cells c') c') \<and> occupied c' = occupied c + len \<and>
       (\<forall>k. k \<noteq> index \<longrightarrow> cell_data c' k = cell_data c k)
     else allocate_cell_pointer c index len = (Err PageIsFull, c))"
proof -
  obtain f where f: "fuel = Suc (Suc f)" using assms(4) by (auto dest: le_Suc_ex simp: numeral_2_eq_2)
  have "allocate_cell_pointer_fuel fuel c index len = allocate_cell_pointer c index len"
    using allocate_fuel_enough [OF assms(1-3)] by (simp add: f allocate_cell_pointer_def allocate_fuel_def numeral_2_eq_2 del: allocate_cell_pointer_fuel.simps)
  moreover note allocate_cell_pointer_spec [OF assms(1-3)]
  ultimately show ?thesis unfolding allocated_def by (cases "fits c index len") (simp, blast, simp)
qed

theorem allocate_cell_pointer_terminates_witness:
  "\<exists>slot c'. allocate_cell_pointer (replicate 4088 0) 0 5 = (Ok (cp_bytes slot 5), c')"
  using allocate_cell_pointer_terminates [OF empty_page_ready, of 5 2] empty_page_fits [of 5] by auto

text \<open>
  C12. Defragmentation packs the cells at the end of the page without changing what any of them
  holds: afterwards no cell starts beyond the bytes in use, so all the free space is in one piece.
\<close>

theorem defragment_preserves_cells:
  assumes "page_inv c" and "index \<le> num_cells c" and "cell_data c index = None" and "index < 255"
    and "len < 60000"
  shows "if fits c index len
    then \<exists>c'. defragment c index len = (Ok True, c') \<and> page_inv c' \<and> num_cells c' = num_cells c \<and>
      cell_data c' = cell_data c \<and>
      (\<forall>i < num_cells c'. cp_offset (cell_pointer_at c' i) \<le> occupied c)
    else defragment c index len = (Ok False, c)"
proof -
  have ready: "slot_ready (num_cells c) c index"
    using assms by (auto simp: slot_ready_def page_inv_def page_consts cell_data_None)
  show ?thesis
  proof (cases "fits c index len")
    case True
    then obtain c' where c': "defragment c index len = (Ok True, c')" "slot_ready (num_cells c) c' index" "same_cells c c'"
      and bound: "\<forall>(i, offset, l) \<in> set (live_cells (num_cells c') c'). offset \<le> occupied c'"
      using defragment_spec [OF ready assms(5)] by (simp only: if_True) blast
    have "cp_offset (cell_pointer_at c' i) \<le> occupied c'" if "i < num_cells c'" for i
      using bound that by (cases "cp_is_deleted (cell_pointer_at c' i)") (auto simp: live_cells_def cp_deleted_iff)
    moreover have "page_inv c'" using c'(2) by (auto simp: slot_ready_def intro: array_inv_page)
    ultimately show ?thesis using True c' by (simp add: same_cells_def)
  next
    case False
    then show ?thesis using defragment_spec [OF ready assms(5)] by simp
  qed
qed

theorem defragment_preserves_cells_witness:
  "\<exists>c c'. cell_data c 0 = Some [7, 8] \<and> defragment c 1 100 = (Ok True, c') \<and> cell_data c' 0 = Some [7, 8]"
proof -
  obtain c where c: "page_inv c" "num_cells c = 1" "cell_data c = [0 \<mapsto> [7, 8]]" "occupied c = 2" by (rule sample_page)
  moreover have "fits c 1 100" using c by (simp add: fits_def)
  ultimately have "\<exists>c'. defragment c 1 100 = (Ok True, c') \<and> cell_data c' = cell_data c"
    using defragment_preserves_cells [of c 1 100] by auto
  then show ?thesis using c(3) by - (rule exI [of _ c], auto)
qed

text \<open>
  C13. \<open>set_value\<close> replaces the value of a cell. A value that is not longer than the old one always
  fits in place. For a longer one the old cell is deleted first: when the new one does not fit, the
  call fails with \<open>PageIsFull\<close> and the old value is gone, with all other cells intact.
\<close>

theorem set_value_spec:
  assumes "page_inv c" and "i < num_cells c" and "value_codec ops valid" and "valid v" and "v_size ops v < 60000"
  shows "(\<exists>c'. set_value ops c i v = (Ok (), c') \<and> page_inv c' \<and> get_value ops c' i = Ok v \<and>
        (\<forall>k. k \<noteq> i \<longrightarrow> cell_data c' k = cell_data c k)) \<or>
    (\<exists>c'. set_value ops c i v = (Err PageIsFull, c') \<and> page_inv c' \<and> cell_data c' = (cell_data c)(i := None) \<and>
        cp_length (cell_pointer_at c i) < v_size ops v \<and> \<not> fits c' i (v_size ops v))"
proof (cases "v_size ops v \<le> cp_length (cell_pointer_at c i)")
  case True
  then show ?thesis
    using set_value_shrink [OF assms(1-4)] stores_get_value by (fastforce simp: stores_def)
next
  case False
  obtain c1 where c1: "delete_value c i = (Ok (), c1)" "page_inv c1" "cell_data c1 = (cell_data c)(i := None)"
    using delete_value_spec [OF assms(1,2)] by blast
  show ?thesis
  proof (cases "fits c1 i (v_size ops v)")
    case True
    then obtain c' where "set_value ops c i v = (Ok (), c')" "page_inv c'" "stores ops c i v c'"
      using set_value_grow [OF assms _ c1(1)] False by auto
    then show ?thesis using stores_get_value by (fastforce simp: stores_def)
  next
    case nofit: False
    then show ?thesis using set_value_grow [OF assms _ c1(1)] False c1 by auto
  qed
qed

theorem set_value_spec_witness:
  "\<exists>c c'. cell_data c 0 = Some [7, 8] \<and> set_value vec_ops c 0 [9] = (Ok (), c') \<and> get_value vec_ops c' 0 = Ok [9]"
proof -
  obtain c where c: "page_inv c" "num_cells c = 1" "cell_data c = [0 \<mapsto> [7, 8]]" by (rule sample_page)
  then have "\<not> cp_length (cell_pointer_at c 0) < 1"
    using cell_data_None [of c 0] array_inv_cell(1) [of 1 c 0] by (auto simp: page_inv_def live_cells_iff)
  then have "\<exists>c'. set_value vec_ops c 0 [9] = (Ok (), c') \<and> get_value vec_ops c' 0 = Ok [9]"
    using c set_value_spec [OF c(1) _ vec_value.value_codec_axioms, of 0 "[9]"] by auto
  then show ?thesis using c(3) by - (rule exI [of _ c], auto)
qed

text \<open>
  C14. \<open>delete_value\<close> removes exactly the given cell, gives its bytes back and drops the deleted
  pointers at the end of the array; \<open>swap_cell_pointers\<close> exchanges two cells.
\<close>

theorem delete_and_swap_spec:
  assumes "page_inv c" and "i < num_cells c" and "j < num_cells c"
  shows "(\<exists>c'. delete_value c i = (Ok (), c') \<and> page_inv c' \<and> cell_data c' = (cell_data c)(i := None) \<and>
      occupied c' + cp_length (cell_pointer_at c i) = occupied c \<and>
      (num_cells c' = 0 \<or> cell_data c' (num_cells c' - 1) \<noteq> None)) \<and>
    (\<exists>c'. swap_cell_pointers c i j = (Ok (), c') \<and> page_inv c' \<and>
      cell_data c' = (cell_data c)(i := cell_data c j, j := cell_data c i))"
proof -
  have "(\<lambda>k. cell_data c (swap_index i j k)) = (cell_data c)(i := cell_data c j, j := cell_data c i)"
    by (auto simp: swap_index_def)
  then show ?thesis
    using delete_value_spec [OF assms(1,2)] swap_cell_pointers_eq [OF assms(2,3)] swap_spec [OF assms] by auto
qed

theorem delete_and_swap_spec_witness:
  "\<exists>c c'. cell_data c 0 = Some [7, 8] \<and> delete_value c 0 = (Ok (), c') \<and> cell_data c' 0 = None"
proof -
  obtain c where c: "page_inv c" "num_cells c = 1" "cell_data c = [0 \<mapsto> [7, 8]]" by (rule sample_page)
  then have "\<exists>c'. delete_value c 0 = (Ok (), c') \<and> cell_data c' = (cell_data c)(0 := None)"
    using delete_and_swap_spec [of c 0 0] by auto
  then show ?thesis using c(3) by - (rule exI [of _ c], auto)
qed

lemma insert_with_free_bytes:
  assumes "page_inv c" and "value_codec ops valid" and "valid v"
    and "v_size ops v + 3 \<le> num_free_bytes c" and "next_free_cell_index c \<noteq> Err NoFreeCells"
  shows "\<exists>i c'. insert_value ops c v = (Ok i, c') \<and> page_inv c' \<and> get_value ops c' i = Ok v \<and>
    num_free_bytes c' + v_size ops v + (if i < num_cells c then 0 else 3) = num_free_bytes c"
proof -
  note space = space_counters [OF assms(1)]
  have small: "v_size ops v < 60000" using assms(4) space(1) by simp
  obtain i where i: "next_free_cell_index c = Ok i" using next_free_error [OF assms(1)] assms(5) by blast
  have "i \<le> num_cells c" using next_free_ready(1) [OF assms(1) i] by (simp add: slot_ready_def)
  then have n: "cells_with c i = (if i < num_cells c then num_cells c else num_cells c + 1)" by auto
  then have "fits c i (v_size ops v)" using assms(4) space(1) by (auto simp: fits_def)
  then obtain c' where c': "insert_value ops c v = (Ok i, c')" "page_inv c'" "stores ops c i v c'"
      "num_cells c' = cells_with c i" "occupied c' = occupied c + v_size ops v"
    using insert_value_cases [OF assms(1-3) small] i by auto
  have "num_free_bytes c' + v_size ops v + (if i < num_cells c then 0 else 3) = num_free_bytes c"
    using space(1) space_counters(1) [OF c'(2)] c'(4,5) n assms(4) by (auto split: if_splits)
  then show ?thesis using c'(1,2) stores_get_value [OF c'(3,2)] by blast
qed

lemma if_swap: "(if \<not> b then x else y) = (if b then y else x)"
  by simp

lemma occupied_eq_data:
  assumes "page_inv c"
  shows "occupied c = (\<Sum>i < num_cells c. case cell_data c i of None \<Rightarrow> 0 | Some bs \<Rightarrow> length bs)"
proof -
  have len: "(case cell_data c i of None \<Rightarrow> 0 | Some bs \<Rightarrow> length bs) =
      (if cp_is_deleted (cell_pointer_at c i) then 0 else cp_length (cell_pointer_at c i))" if "i < num_cells c" for i
  proof (cases "cp_is_deleted (cell_pointer_at c i)")
    case False
    then have "(i, cp_offset (cell_pointer_at c i), cp_length (cell_pointer_at c i)) \<in> set (live_cells (num_cells c) c)"
      using that by (simp add: live_cells_iff)
    then have "cp_length (cell_pointer_at c i) \<le> cp_offset (cell_pointer_at c i) \<and> cp_offset (cell_pointer_at c i) \<le> DATA_SIZE"
      using assms by (fastforce simp: page_inv_def array_inv_def cells_ok_def)
    then show ?thesis using False that assms by (simp add: cell_data_def Let_def region_def subl_def page_inv_def array_inv_def)
  qed (simp add: cell_data_def)
  have "occupied c = sum_list (map (\<lambda>i. if cp_is_deleted (cell_pointer_at c i) then 0 else cp_length (cell_pointer_at c i)) [0..<num_cells c])"
    by (simp add: occupied_def live_cells_def sum_list_map_filter' comp_def if_swap)
  also have "\<dots> = (\<Sum>i < num_cells c. case cell_data c i of None \<Rightarrow> 0 | Some bs \<Rightarrow> length bs)"
    using len by (simp add: sum_list_distinct_conv_sum_set atLeast0LessThan)
  finally show ?thesis .
qed

text \<open>
  C15. The space counters of every page, full ones included, are exact: occupied and free bytes and
  the byte of the cell count make up the page, the occupied bytes are those of the live cells and of the
  pointer array, no bytes are dead, and the occupied cells are those with data. A value of at most
  \<open>num_free_bytes - 3\<close> bytes is always inserted when one of the 255 cells is free, and the counter goes down by
  its size and that of a new cell pointer.
\<close>

theorem free_bytes_admit_insertion:
  assumes "page_inv c"
  shows "num_occupied_bytes c + num_free_bytes c + 1 = DATA_SIZE \<and>
    num_occupied_bytes c = (\<Sum>i < num_cells c. case cell_data c i of None \<Rightarrow> 0 | Some bs \<Rightarrow> length bs) + 3 * num_cells c \<and>
    num_dead_bytes c (num_cells c) = 0 \<and>
    num_occupied_cells c = card {i. cell_data c i \<noteq> None} \<and>
    (\<forall>ops valid v. value_codec ops valid \<and> valid v \<and> v_size ops v + 3 \<le> num_free_bytes c \<and> next_free_cell_index c \<noteq> Err NoFreeCells \<longrightarrow>
       (\<exists>i c'. insert_value ops c v = (Ok i, c') \<and> page_inv c' \<and> get_value ops c' i = Ok v \<and>
          num_free_bytes c' + v_size ops v + (if i < num_cells c then 0 else 3) = num_free_bytes c))"
proof -
  note space = space_counters [OF assms]
  show ?thesis
  proof (intro conjI allI impI)
    show "num_occupied_bytes c = (\<Sum>i < num_cells c. case cell_data c i of None \<Rightarrow> 0 | Some bs \<Rightarrow> length bs) + 3 * num_cells c"
      using space(3) by (simp only: occupied_eq_data [OF assms])
  qed (rule space insert_with_free_bytes [OF assms] | elim conjE | assumption)+
qed

theorem free_bytes_admit_insertion_witness:
  "\<exists>c c' i. cell_data c 0 = Some [7, 8] \<and> num_occupied_bytes c = 5 \<and> num_free_bytes c = 4082 \<and>
     insert_value vec_ops c [9] = (Ok i, c') \<and> get_value vec_ops c' i = Ok [9]"
proof -
  obtain c where c: "page_inv c" "num_cells c = 1" "cell_data c = [0 \<mapsto> [7, 8]]" "occupied c = 2" by (rule sample_page)
  note spec = free_bytes_admit_insertion [OF c(1)]
  have occ: "num_occupied_bytes c = 5" by (simp add: spec [THEN conjunct2, THEN conjunct1] c(2,3))
  have free: "num_free_bytes c = 4082" using spec [THEN conjunct1] by (simp add: occ)
  have "next_free_cell_index c \<noteq> Err NoFreeCells" using next_free_error [OF c(1)] c(2) by auto
  then obtain i c' where "insert_value vec_ops c [9] = (Ok i, c')" "get_value vec_ops c' i = Ok [9]"
    using spec [THEN conjunct2, THEN conjunct2, THEN conjunct2, THEN conjunct2, rule_format, of vec_ops "\<lambda>v. v \<noteq> []" "[9]"]
      vec_value.value_codec_axioms free by (auto simp: vec_ops_def)
  then show ?thesis using c(3) occ free by - (rule exI [of _ c], auto)
qed

end
