(* ===== verification/Page.thy ===== *)
theory Page
  imports Cell_Pointer
begin

text \<open>
  The state word of a page (\<open>src/src/page/state.rs\<close>) and the page handles \<open>Page\<close> and \<open>PageMut\<close>
  (\<open>src/src/page/page.rs\<close>). A page in memory is its 64-bit state word and its 4088 data bytes; a handle
  is a page identifier, and the methods of a handle act on the page in memory. The atomic operations
  on the state word are single steps.

  The lemmas show that the encoding of states loses nothing for snapshot ids below \<open>2 ^ 63\<close>, which of
  the handle constructors succeed in which state, and, for the step relation \<open>writer_step\<close> of the
  calls made on one page, that there is never more than one \<open>PageMut\<close> handle.
\<close>

subsection \<open>The state word\<close>

type_synonym snapshot_id = u64

datatype page_state = Unused | Occupied snapshot_id | Dirty snapshot_id

definition DIRTY_MASK :: u64 where
  "DIRTY_MASK = push_bit 63 1"

definition page_state_dirty :: "snapshot_id \<Rightarrow> page_state option" where
  "page_state_dirty sid = (if sid AND DIRTY_MASK \<noteq> 0 then None else Some (Dirty sid))"

definition page_state_snapshot_id :: "page_state \<Rightarrow> snapshot_id option" where
  "page_state_snapshot_id s = (case s of Unused \<Rightarrow> None | Occupied sid \<Rightarrow> Some sid | Dirty sid \<Rightarrow> Some sid)"

definition page_state_of_u64 :: "u64 \<Rightarrow> page_state" where
  "page_state_of_u64 v =
     (let dirty_flag = v AND DIRTY_MASK \<noteq> 0; v = v AND NOT DIRTY_MASK in
      if dirty_flag then Dirty v else if v = 0 then Unused else Occupied v)"

definition u64_of_page_state :: "page_state \<Rightarrow> u64" where
  "u64_of_page_state s = (case s of Unused \<Rightarrow> 0 | Occupied sid \<Rightarrow> sid | Dirty sid \<Rightarrow> sid OR DIRTY_MASK)"

definition raw_state_load :: "u64 \<Rightarrow> page_state" where
  "raw_state_load w = page_state_of_u64 w"

definition raw_state_store :: "page_state \<Rightarrow> u64 \<Rightarrow> u64" where
  "raw_state_store s w = u64_of_page_state s"

text \<open>A successful exchange or update returns the previous state, a failed one the current state.\<close>

definition raw_state_compare_exchange ::
  "page_state \<Rightarrow> page_state \<Rightarrow> u64 \<Rightarrow> (page_state, page_state) result \<times> u64" where
  "raw_state_compare_exchange current new w =
     (if w = u64_of_page_state current then (Ok (page_state_of_u64 w), u64_of_page_state new)
      else (Err (page_state_of_u64 w), w))"

definition raw_state_fetch_update ::
  "(page_state \<Rightarrow> page_state option) \<Rightarrow> u64 \<Rightarrow> (page_state, page_state) result \<times> u64" where
  "raw_state_fetch_update f w =
     (case f (page_state_of_u64 w) of
        Some new \<Rightarrow> (Ok (page_state_of_u64 w), u64_of_page_state new)
      | None \<Rightarrow> (Err (page_state_of_u64 w), w))"

definition raw_state_unset_dirty :: "u64 \<Rightarrow> u64" where
  "raw_state_unset_dirty w = w AND NOT DIRTY_MASK"

subsection \<open>Page handles\<close>

record raw_page =
  pg_state :: u64
  pg_data :: bytes

definition page_from_ptr :: "page_id \<Rightarrow> raw_page \<Rightarrow> (page_id, page_error) result" where
  "page_from_ptr p raw =
     (case raw_state_load (pg_state raw) of
        Occupied _ \<Rightarrow> Ok p
      | Unused \<Rightarrow> Err (PageNotFound p)
      | Dirty _ \<Rightarrow> Err (PageDirty p))"

definition page_snapshot_id :: "raw_page \<Rightarrow> (snapshot_id, page_error) result" where
  "page_snapshot_id raw = unwrap_option (page_state_snapshot_id (raw_state_load (pg_state raw)))"

definition page_contents :: "raw_page \<Rightarrow> bytes" where
  "page_contents raw = pg_data raw"

definition page_mut_from_ptr ::
  "page_id \<Rightarrow> snapshot_id \<Rightarrow> raw_page \<Rightarrow> (page_id, page_error) result \<times> raw_page" where
  "page_mut_from_ptr p sid raw =
     (case page_state_dirty sid of
        None \<Rightarrow> (Panic, raw)
      | Some new_state \<Rightarrow>
          (case raw_state_fetch_update (\<lambda>s. case s of Dirty _ \<Rightarrow> None | _ \<Rightarrow> Some new_state) (pg_state raw) of
             (r, w) \<Rightarrow>
               ((case r of
                   Ok _ \<Rightarrow> Ok p
                 | Err Unused \<Rightarrow> Err (PageNotFound p)
                 | Err (Dirty _) \<Rightarrow> Err (PageDirty p)
                 | _ \<Rightarrow> Panic),
                raw\<lparr>pg_state := w\<rparr>)))"

definition page_mut_acquire ::
  "page_id \<Rightarrow> snapshot_id \<Rightarrow> raw_page \<Rightarrow> (page_id, page_error) result \<times> raw_page" where
  "page_mut_acquire p sid raw =
     (case page_state_dirty sid of
        None \<Rightarrow> (Panic, raw)
      | Some new_state \<Rightarrow>
          (case raw_state_compare_exchange Unused new_state (pg_state raw) of
             (Ok _, w) \<Rightarrow> (Ok p, raw\<lparr>pg_state := w, pg_data := replicate DATA_SIZE 0\<rparr>)
           | (Err (Occupied _), w) \<Rightarrow> (Err (PageOccupied p), raw\<lparr>pg_state := w\<rparr>)
           | (Err (Dirty _), w) \<Rightarrow> (Err (PageDirty p), raw\<lparr>pg_state := w\<rparr>)
           | (_, w) \<Rightarrow> (Panic, raw\<lparr>pg_state := w\<rparr>)))"

definition page_mut_acquire_unchecked ::
  "page_id \<Rightarrow> snapshot_id \<Rightarrow> raw_page \<Rightarrow> (page_id, page_error) result \<times> raw_page" where
  "page_mut_acquire_unchecked p sid raw =
     (case page_state_dirty sid of
        None \<Rightarrow> (Panic, raw)
      | Some new_state \<Rightarrow>
          (Ok p, raw\<lparr>pg_state := raw_state_store new_state (pg_state raw), pg_data := replicate DATA_SIZE 0\<rparr>))"

definition page_mut_new :: "page_id \<Rightarrow> snapshot_id \<Rightarrow> raw_page \<Rightarrow> (page_id, page_error) result \<times> raw_page" where
  "page_mut_new p sid raw = (case page_mut_acquire p sid raw of (r, raw) \<Rightarrow> (unwrap r, raw))"

definition page_set_snapshot_id :: "snapshot_id \<Rightarrow> raw_page \<Rightarrow> (unit, page_error) result \<times> raw_page" where
  "page_set_snapshot_id sid raw =
     (case page_state_dirty sid of
        None \<Rightarrow> (Panic, raw)
      | Some new_state \<Rightarrow> (Ok (), raw\<lparr>pg_state := raw_state_store new_state (pg_state raw)\<rparr>))"

text \<open>The effect of \<open>commit\<close>, of \<open>downcast\<close> and of dropping the handle.\<close>

definition page_commit :: "raw_page \<Rightarrow> raw_page" where
  "page_commit raw = raw\<lparr>pg_state := raw_state_unset_dirty (pg_state raw)\<rparr>"

text \<open>\<open>discard\<close> takes the handle by value, so it is dropped after the store.\<close>

definition page_discard :: "raw_page \<Rightarrow> raw_page" where
  "page_discard raw = page_commit (raw\<lparr>pg_state := raw_state_store Unused (pg_state raw)\<rparr>)"

subsection \<open>The encoding of states\<close>

definition state_wf :: "page_state \<Rightarrow> bool" where
  "state_wf s \<longleftrightarrow>
     (case s of Unused \<Rightarrow> True | Occupied sid \<Rightarrow> sid \<noteq> 0 \<and> \<not> bit sid 63 | Dirty sid \<Rightarrow> \<not> bit sid 63)"

lemma bit_DIRTY_MASK [simp]: "bit DIRTY_MASK n \<longleftrightarrow> n = 63"
  unfolding DIRTY_MASK_def by (simp only: bit_push_bit_iff bit_1_iff) auto

lemma and_dirty_mask: "w AND DIRTY_MASK \<noteq> 0 \<longleftrightarrow> bit w 63"
  by (simp add: DIRTY_MASK_def bit_iff_and_push_bit_not_eq_0)

lemma clear_dirty: "\<not> bit w 63 \<Longrightarrow> w AND NOT DIRTY_MASK = w"
  by (rule bit_word_eqI) (auto simp: bit_and_iff bit_or_iff bit_not_iff)

lemma clear_set_dirty: "\<not> bit w 63 \<Longrightarrow> (w OR DIRTY_MASK) AND NOT DIRTY_MASK = w"
  by (rule bit_word_eqI) (auto simp: bit_and_iff bit_or_iff bit_not_iff)

lemma set_clear_dirty: "bit w 63 \<Longrightarrow> (w AND NOT DIRTY_MASK) OR DIRTY_MASK = w"
  by (rule bit_word_eqI) (auto simp: bit_and_iff bit_or_iff bit_not_iff)

lemma bit_dirty [simp]: "bit (w OR DIRTY_MASK) 63" "\<not> bit (w AND NOT DIRTY_MASK) 63"
  by (simp_all add: bit_and_iff bit_or_iff bit_not_iff)

lemma page_state_decode:
  "page_state_of_u64 w = (if bit w 63 then Dirty (w AND NOT DIRTY_MASK) else if w = 0 then Unused else Occupied w)"
  by (simp add: page_state_of_u64_def Let_def and_dirty_mask clear_dirty)

lemma page_state_dirty_eq: "page_state_dirty sid = (if bit sid 63 then None else Some (Dirty sid))"
  by (simp add: page_state_dirty_def and_dirty_mask)

lemma state_encode_decode: "state_wf s \<Longrightarrow> page_state_of_u64 (u64_of_page_state s) = s"
  by (cases s) (simp_all add: state_wf_def u64_of_page_state_def page_state_decode clear_set_dirty)

lemma state_decode_encode: "u64_of_page_state (page_state_of_u64 w) = w"
  by (simp add: u64_of_page_state_def page_state_decode set_clear_dirty)

lemma state_wf_decode: "state_wf (page_state_of_u64 w)"
  by (simp add: state_wf_def page_state_decode)

lemma raw_state_encode_eq: "state_wf s \<Longrightarrow> w = u64_of_page_state s \<longleftrightarrow> page_state_of_u64 w = s"
  using state_encode_decode state_decode_encode by metis

abbreviation state_of :: "raw_page \<Rightarrow> page_state" where
  "state_of raw \<equiv> page_state_of_u64 (pg_state raw)"

lemma state_of_dirty [simp]: "\<not> bit sid 63 \<Longrightarrow> page_state_of_u64 (u64_of_page_state (Dirty sid)) = Dirty sid"
  by (simp add: state_encode_decode state_wf_def)

lemma state_of_commit:
  "state_of (page_commit raw) =
     (case state_of raw of Dirty sid \<Rightarrow> if sid = 0 then Unused else Occupied sid | s \<Rightarrow> s)"
  by (auto simp: page_commit_def raw_state_unset_dirty_def page_state_decode clear_dirty)

lemma page_mut_from_ptr_eq:
  "page_mut_from_ptr p sid raw =
     (if bit sid 63 then (Panic, raw)
      else case state_of raw of
        Dirty _ \<Rightarrow> (Err (PageDirty p), raw)
      | _ \<Rightarrow> (Ok p, raw\<lparr>pg_state := u64_of_page_state (Dirty sid)\<rparr>))"
  by (simp add: page_mut_from_ptr_def page_state_dirty_eq raw_state_fetch_update_def split: page_state.splits)

lemma page_mut_acquire_eq:
  "page_mut_acquire p sid raw =
     (if bit sid 63 then (Panic, raw)
      else case state_of raw of
        Unused \<Rightarrow> (Ok p, raw\<lparr>pg_state := u64_of_page_state (Dirty sid), pg_data := replicate DATA_SIZE 0\<rparr>)
      | Occupied _ \<Rightarrow> (Err (PageOccupied p), raw)
      | Dirty _ \<Rightarrow> (Err (PageDirty p), raw))"
proof -
  have "pg_state raw = u64_of_page_state Unused \<longleftrightarrow> state_of raw = Unused"
    by (rule raw_state_encode_eq) (simp add: state_wf_def)
  then show ?thesis
    by (auto simp: page_mut_acquire_def page_state_dirty_eq raw_state_compare_exchange_def split: page_state.splits)
qed

subsection \<open>At most one writer\<close>

text \<open>
  The calls that threads make on one page: the state of the system is the page and the number of
  \<open>PageMut\<close> handles in existence. The contract of \<open>acquire_unchecked\<close> excludes it for a page that may
  be in use, so it is not a step.
\<close>

inductive writer_step :: "raw_page \<times> nat \<Rightarrow> raw_page \<times> nat \<Rightarrow> bool" where
  w_get_mut: "page_mut_from_ptr p sid raw = (Ok q, raw') \<Longrightarrow> writer_step (raw, n) (raw', Suc n)"
| w_acquire: "page_mut_acquire p sid raw = (Ok q, raw') \<Longrightarrow> writer_step (raw, n) (raw', Suc n)"
| w_write: "0 < n \<Longrightarrow> writer_step (raw, n) (raw\<lparr>pg_data := bs\<rparr>, n)"
| w_set_snapshot: "0 < n \<Longrightarrow> page_set_snapshot_id sid raw = (Ok (), raw') \<Longrightarrow> writer_step (raw, n) (raw', n)"
| w_commit: "0 < n \<Longrightarrow> writer_step (raw, n) (page_commit raw, n - 1)"
| w_discard: "0 < n \<Longrightarrow> writer_step (raw, n) (page_discard raw, n - 1)"

inductive_cases writer_stepE: "writer_step s t"

definition is_dirty_state :: "page_state \<Rightarrow> bool" where
  "is_dirty_state s \<longleftrightarrow> (case s of Dirty _ \<Rightarrow> True | _ \<Rightarrow> False)"

definition writer_inv :: "raw_page \<times> nat \<Rightarrow> bool" where
  "writer_inv s \<longleftrightarrow> snd s = (if is_dirty_state (state_of (fst s)) then 1 else 0)"

lemma writer_inv_step: "writer_step s t \<Longrightarrow> writer_inv s \<Longrightarrow> writer_inv t"
proof (induction rule: writer_step.induct)
  case (w_get_mut p sid raw q raw' n)
  then show ?case
    by (auto simp: page_mut_from_ptr_eq writer_inv_def is_dirty_state_def split: if_splits page_state.splits)
next
  case (w_acquire p sid raw q raw' n)
  then show ?case
    by (auto simp: page_mut_acquire_eq writer_inv_def is_dirty_state_def split: if_splits page_state.splits)
next
  case (w_set_snapshot n sid raw raw')
  then show ?case
    by (auto simp: page_set_snapshot_id_def page_state_dirty_eq raw_state_store_def writer_inv_def is_dirty_state_def
        split: if_splits page_state.splits)
next
  case (w_commit n raw)
  then show ?case by (auto simp: state_of_commit writer_inv_def is_dirty_state_def split: page_state.splits)
next
  case (w_discard n raw)
  then show ?case
    by (auto simp: page_discard_def state_of_commit raw_state_store_def state_encode_decode state_wf_def writer_inv_def
        is_dirty_state_def split: page_state.splits if_splits)
qed (simp add: writer_inv_def)

lemma writer_inv_reachable: "writer_step\<^sup>*\<^sup>* s t \<Longrightarrow> writer_inv s \<Longrightarrow> writer_inv t"
  by (induction rule: rtranclp_induct) (auto intro: writer_inv_step)

subsection \<open>Properties\<close>

text \<open>
  Page states are encoded without loss: every word decodes to a state that encodes to the same
  word, and every state with a snapshot id below \<open>2 ^ 63\<close> is read back, except that an occupied page of
  snapshot 0 could not be told from an unused one.
\<close>

theorem page_state_encoding:
  "u64_of_page_state (page_state_of_u64 w) = w \<and>
   (page_state_of_u64 (u64_of_page_state s) = s \<longleftrightarrow>
      (case s of Unused \<Rightarrow> True | Occupied sid \<Rightarrow> sid \<noteq> 0 \<and> \<not> bit sid 63 | Dirty sid \<Rightarrow> \<not> bit sid 63))"
proof
  show "u64_of_page_state (page_state_of_u64 w) = w" by (rule state_decode_encode)
  have "page_state_of_u64 (u64_of_page_state s) = s \<longleftrightarrow> state_wf s"
    using state_encode_decode state_wf_decode by metis
  then show "page_state_of_u64 (u64_of_page_state s) = s \<longleftrightarrow>
      (case s of Unused \<Rightarrow> True | Occupied sid \<Rightarrow> sid \<noteq> 0 \<and> \<not> bit sid 63 | Dirty sid \<Rightarrow> \<not> bit sid 63)"
    by (simp only: state_wf_def)
qed

text \<open>
  C29. Starting from a page that no thread writes to, no sequence of calls ever leads to two
  \<open>PageMut\<close> handles at once; while there is one, the page is dirty, so that neither \<open>Page\<close> nor
  \<open>PageMut\<close> handles can be obtained.
\<close>

theorem single_writer:
  assumes "\<not> is_dirty_state (state_of raw)" and "writer_step\<^sup>*\<^sup>* (raw, 0) (raw', n)"
  shows "n \<le> 1 \<and> (0 < n \<longleftrightarrow> is_dirty_state (state_of raw')) \<and>
    (0 < n \<longrightarrow> page_from_ptr p raw' = Err (PageDirty p) \<and>
      (\<forall>q sid. fst (page_mut_from_ptr p sid raw') \<noteq> Ok q \<and> fst (page_mut_acquire p sid raw') \<noteq> Ok q))"
proof -
  have "writer_inv (raw, 0)" using assms(1) by (simp add: writer_inv_def)
  from writer_inv_reachable [OF assms(2) this] have "n = (if is_dirty_state (state_of raw') then 1 else 0)"
    by (simp add: writer_inv_def)
  then show ?thesis
    by (auto simp: is_dirty_state_def page_from_ptr_def raw_state_load_def page_mut_from_ptr_eq page_mut_acquire_eq
        split: page_state.splits if_splits)
qed

theorem single_writer_witness:
  "page_from_ptr 1 \<lparr>pg_state = u64_of_page_state (Dirty 5), pg_data = []\<rparr> = Err (PageDirty 1)"
proof -
  have s0: "page_state_of_u64 4 = Occupied 4" by (simp add: page_state_decode)
  have "writer_step (\<lparr>pg_state = 4, pg_data = []\<rparr>, 0) (\<lparr>pg_state = u64_of_page_state (Dirty 5), pg_data = []\<rparr>, Suc 0)"
    by (rule writer_step.w_get_mut [where p = 1 and sid = 5]) (simp add: page_mut_from_ptr_eq s0)
  then have "writer_step\<^sup>*\<^sup>* (\<lparr>pg_state = 4, pg_data = []\<rparr>, 0)
      (\<lparr>pg_state = u64_of_page_state (Dirty 5), pg_data = []\<rparr>, Suc 0)" by (rule r_into_rtranclp)
  from single_writer [OF _ this, of 1] s0 show ?thesis by (simp add: is_dirty_state_def)
qed

end
