(* ===== verification/Page_Manager.thy ===== *)
theory Page_Manager
  imports Page
begin

text \<open>
  The page manager (\<open>src/src/page/manager/mmap.rs\<close>, \<open>src/src/page/manager/options.rs\<close>): a file of pages,
  mapped into memory once for its maximal size, that grows at the end. The map is a function from
  page ids to pages. Touching a page beyond the map or beyond the end of the file is a memory fault,
  which is \<open>Panic\<close> here. Whether the system calls on the file succeed is an argument
  (\<open>io_ok\<close>, of the requested file length). The compare-exchange loop of \<open>next_page_id\<close> is a single step.

  The invariant \<open>pm_inv\<close> says that all pages that have been handed out lie inside the file and the
  map. Under it no operation faults. It is preserved by every operation except an \<open>allocate\<close> that
  fails after the page count has been incremented.
\<close>

record page_manager =
  mmap :: "page_id \<Rightarrow> raw_page"
  mmap_len :: nat
  file_len :: nat
  pm_page_count :: u32

record page_manager_options =
  opt_page_count :: u32
  opt_max_pages :: u32

definition MAX_COUNT :: u32 where
  "MAX_COUNT = PAGE_ID_MAX - PAGE_ID_MIN + 1"

definition options_new :: page_manager_options where
  "options_new = \<lparr>opt_page_count = 0, opt_max_pages = MAX_COUNT\<rparr>"

text \<open>
  Opening a file: its pages and its length are given, and so is whether mapping it succeeds.
\<close>

definition from_file_with_options ::
  "page_manager_options \<Rightarrow> (page_id \<Rightarrow> raw_page) \<Rightarrow> nat \<Rightarrow> (nat \<Rightarrow> bool) \<Rightarrow> (page_manager, page_error) result" where
  "from_file_with_options opts file len io_ok =
     (let mmap_len = unat (opt_max_pages opts) * PAGE_SIZE in
      if \<not> io_ok mmap_len then Err IO
      else if unat (opt_page_count opts) * PAGE_SIZE \<le> len
        then Ok \<lparr>mmap = file, mmap_len = mmap_len, file_len = len, pm_page_count = opt_page_count opts\<rparr>
        else Panic)"

definition pm_size :: "page_manager \<Rightarrow> u32" where
  "pm_size pm = pm_page_count pm"

definition pm_capacity :: "page_manager \<Rightarrow> nat" where
  "pm_capacity pm = min (mmap_len pm div PAGE_SIZE) (2 ^ 32 - 1)"

definition pm_grow :: "(nat \<Rightarrow> bool) \<Rightarrow> page_manager \<Rightarrow> (nat, page_error) result \<times> page_manager" where
  "pm_grow io_ok pm =
     (let cur_len = file_len pm; increment = max (cur_len div 8) (1024 * PAGE_SIZE) in
      if 2 ^ 64 \<le> cur_len + increment then (Err PageLimitReached, pm)
      else let new_len = min (cur_len + increment) (mmap_len pm) in
        if new_len \<le> cur_len then (Err PageLimitReached, pm)
        else if \<not> io_ok new_len then (Err IO, pm)
        else (Ok new_len, pm\<lparr>file_len := new_len\<rparr>))"

lemma pm_grow_frame:
  "pm_grow io_ok pm = (r, pm') \<Longrightarrow>
     mmap pm' = mmap pm \<and> mmap_len pm' = mmap_len pm \<and> pm_page_count pm' = pm_page_count pm \<and> file_len pm \<le> file_len pm' \<and>
     (\<forall>n. r = Ok n \<longrightarrow> file_len pm' = n \<and> file_len pm < n \<and> n \<le> mmap_len pm)"
  by (simp add: pm_grow_def Let_def split: if_splits) auto

function grow_loop :: "(nat \<Rightarrow> bool) \<Rightarrow> nat \<Rightarrow> page_manager \<Rightarrow> (unit, page_error) result \<times> page_manager" where
  "grow_loop io_ok min_len pm =
     (case pm_grow io_ok pm of
        (Ok new_len, pm') \<Rightarrow> if min_len \<le> new_len then (Ok (), pm') else grow_loop io_ok min_len pm'
      | (Err e, pm') \<Rightarrow> (Err e, pm')
      | (Panic, pm') \<Rightarrow> (Panic, pm')
      | (Diverge, pm') \<Rightarrow> (Diverge, pm'))"
  by pat_completeness auto
termination
  by (relation "measure (\<lambda>(io_ok, min_len, pm). mmap_len pm - file_len pm)")
     (auto dest!: pm_grow_frame [OF sym])

declare grow_loop.simps [simp del]

definition grow_if_needed :: "(nat \<Rightarrow> bool) \<Rightarrow> nat \<Rightarrow> page_manager \<Rightarrow> (unit, page_error) result \<times> page_manager" where
  "grow_if_needed io_ok min_len pm =
     (if file_len pm < min_len then grow_loop io_ok min_len pm else (Ok (), pm))"

definition next_page_id :: "page_manager \<Rightarrow> (page_id \<times> u32) option \<times> page_manager" where
  "next_page_id pm =
     (case checked_add_u32 (pm_page_count pm) 1 of
        None \<Rightarrow> (None, pm)
      | Some new_count \<Rightarrow>
          (case page_id_new new_count of
             None \<Rightarrow> (None, pm)
           | Some p \<Rightarrow> (Some (p, new_count), pm\<lparr>pm_page_count := new_count\<rparr>)))"

text \<open>Access to the memory of a page: a fault unless it lies inside the map and the file.\<close>

definition in_memory :: "page_manager \<Rightarrow> page_id \<Rightarrow> bool" where
  "in_memory pm p \<longleftrightarrow> page_id_as_offset p + PAGE_SIZE \<le> min (mmap_len pm) (file_len pm)"

definition pm_get :: "page_manager \<Rightarrow> page_id \<Rightarrow> (page_id, page_error) result" where
  "pm_get pm p =
     (if pm_page_count pm < p then Err (PageNotFound p)
      else if \<not> in_memory pm p then Panic
      else page_from_ptr p (mmap pm p))"

definition pm_get_mut :: "page_manager \<Rightarrow> snapshot_id \<Rightarrow> page_id \<Rightarrow> (page_id, page_error) result \<times> page_manager" where
  "pm_get_mut pm sid p =
     (if pm_page_count pm < p then (Err (PageNotFound p), pm)
      else if \<not> in_memory pm p then (Panic, pm)
      else case page_mut_from_ptr p sid (mmap pm p) of
        (r, raw) \<Rightarrow> (r, pm\<lparr>mmap := (mmap pm)(p := raw)\<rparr>))"

definition pm_allocate :: "(nat \<Rightarrow> bool) \<Rightarrow> snapshot_id \<Rightarrow> page_manager \<Rightarrow> (page_id, page_error) result \<times> page_manager" where
  "pm_allocate io_ok sid pm =
     (case next_page_id pm of
        (None, pm) \<Rightarrow> (Err PageLimitReached, pm)
      | (Some (p, new_count), pm) \<Rightarrow>
          let new_len = unat new_count * PAGE_SIZE in
          if mmap_len pm < new_len then (Err PageLimitReached, pm)
          else bind_state (grow_if_needed io_ok new_len pm) (\<lambda>_ pm.
            if \<not> in_memory pm p then (Panic, pm)
            else case page_mut_acquire_unchecked p sid (mmap pm p) of
              (r, raw) \<Rightarrow> (r, pm\<lparr>mmap := (mmap pm)(p := raw)\<rparr>)))"

definition pm_is_dirty :: "page_manager \<Rightarrow> page_id \<Rightarrow> (bool, page_error) result" where
  "pm_is_dirty pm p =
     (if pm_size pm < p then Err (PageNotFound p)
      else if \<not> in_memory pm p then Panic
      else Ok (case raw_state_load (pg_state (mmap pm p)) of Dirty _ \<Rightarrow> True | _ \<Rightarrow> False))"

subsection \<open>The invariant\<close>

definition pm_inv :: "page_manager \<Rightarrow> bool" where
  "pm_inv pm \<longleftrightarrow>
     unat (pm_page_count pm) * PAGE_SIZE \<le> min (mmap_len pm) (file_len pm) \<and> pm_page_count pm \<le> PAGE_ID_MAX"

lemma in_memory_page:
  assumes "pm_inv pm" and "1 \<le> p" and "p \<le> pm_page_count pm" shows "in_memory pm p"
proof -
  have "1 \<le> unat p" and "unat p \<le> unat (pm_page_count pm)" using assms(2,3) by (simp_all add: word_le_nat_alt)
  define k where "k = unat p - 1"
  have k: "unat p = Suc k" and "Suc k * PAGE_SIZE \<le> unat (pm_page_count pm) * PAGE_SIZE"
    using \<open>1 \<le> unat p\<close> \<open>unat p \<le> _\<close> by (auto simp: k_def intro!: mult_le_mono1)
  then have "k * PAGE_SIZE + PAGE_SIZE \<le> unat (pm_page_count pm) * PAGE_SIZE" by simp
  then show ?thesis using assms(1) by (simp add: in_memory_def pm_inv_def page_id_as_offset_def k)
qed

lemma pm_get_eq:
  assumes "pm_inv pm" and "1 \<le> p" and "p \<le> pm_page_count pm"
  shows "pm_get pm p = page_from_ptr p (mmap pm p)"
  using assms in_memory_page [OF assms] by (simp add: pm_get_def not_less [symmetric])

lemma pm_get_mut_eq:
  assumes "pm_inv pm" and "1 \<le> p" and "p \<le> pm_page_count pm"
  shows "pm_get_mut pm sid p = (case page_mut_from_ptr p sid (mmap pm p) of (r, raw) \<Rightarrow> (r, pm\<lparr>mmap := (mmap pm)(p := raw)\<rparr>))"
  using assms in_memory_page [OF assms] by (simp add: pm_get_mut_def not_less [symmetric])

lemma grow_loop_frame:
  "grow_loop io_ok min_len pm = (r, pm') \<Longrightarrow>
     mmap pm' = mmap pm \<and> mmap_len pm' = mmap_len pm \<and> pm_page_count pm' = pm_page_count pm \<and> file_len pm \<le> file_len pm' \<and>
     (r = Ok () \<longrightarrow> min_len \<le> file_len pm')"
proof (induction io_ok min_len pm arbitrary: r pm' rule: grow_loop.induct)
  case (1 io_ok min_len pm)
  obtain g pm1 where g: "pm_grow io_ok pm = (g, pm1)" by fastforce
  note f = pm_grow_frame [OF g]
  show ?case
  proof (cases g)
    case (Ok n)
    show ?thesis
    proof (cases "min_len \<le> n")
      case True
      then show ?thesis using "1.prems" g Ok f by (auto simp: grow_loop.simps)
    next
      case False
      then have "grow_loop io_ok min_len pm1 = (r, pm')" using "1.prems" g Ok by (simp add: grow_loop.simps [of _ _ pm])
      from "1.IH" [OF _ _ False this] g Ok f show ?thesis by auto
    qed
  qed (use "1.prems" g f in \<open>auto simp: grow_loop.simps\<close>)
qed

text \<open>The loop that grows the file ends with a file that is long enough, or because a call on the file failed.\<close>

lemma grow_loop_outcome:
  assumes "min_len \<le> mmap_len pm" and "file_len pm < min_len" and "mmap_len pm < 2 ^ 60" and "grow_loop io_ok min_len pm = (r, pm')"
  shows "r = Ok () \<or> (r = Err IO \<and> file_len pm' < min_len \<and> (\<exists>n. \<not> io_ok n \<and> file_len pm' < n \<and> n \<le> mmap_len pm))"
  using assms
proof (induction io_ok min_len pm arbitrary: r pm' rule: grow_loop.induct)
  case (1 io_ok min_len pm)
  define inc where "inc = max (file_len pm div 8) (1024 * PAGE_SIZE)"
  have inc: "0 < inc" "file_len pm + inc < 2 ^ 64" using "1.prems" by (auto simp: inc_def PAGE_SIZE_def)
  define n where "n = min (file_len pm + inc) (mmap_len pm)"
  have n: "file_len pm < n" "n \<le> mmap_len pm" using inc "1.prems" by (simp_all add: n_def)
  then have g: "pm_grow io_ok pm = (if io_ok n then (Ok n, pm\<lparr>file_len := n\<rparr>) else (Err IO, pm))"
    using inc "1.prems" by (simp add: pm_grow_def Let_def inc_def [symmetric] n_def [symmetric])
  consider (io) "\<not> io_ok n" | (enough) "io_ok n" "min_len \<le> n" | (more) "io_ok n" "\<not> min_len \<le> n" by blast
  then show ?case
  proof cases
    case more
    then have "grow_loop io_ok min_len (pm\<lparr>file_len := n\<rparr>) = (r, pm')"
      using "1.prems"(4) g by (simp add: grow_loop.simps [of _ _ pm])
    moreover have "pm_grow io_ok pm = (Ok n, pm\<lparr>file_len := n\<rparr>)" using g more by simp
    ultimately show ?thesis using "1.IH" [OF sym refl, of n "pm\<lparr>file_len := n\<rparr>" r pm'] more "1.prems" by simp
  qed (use "1.prems" g n in \<open>auto simp: grow_loop.simps [of _ _ pm]\<close>)
qed

lemma grow_loop_Ok:
  assumes "\<And>n. io_ok n" and "min_len \<le> mmap_len pm" and "file_len pm < min_len" and "mmap_len pm < 2 ^ 60"
  shows "\<exists>pm'. grow_loop io_ok min_len pm = (Ok (), pm')"
  using grow_loop_outcome [OF assms(2-4)] assms(1) by (cases "grow_loop io_ok min_len pm") blast

lemma next_page_id_cases:
  assumes "pm_inv pm"
  shows "if pm_page_count pm = PAGE_ID_MAX then next_page_id pm = (None, pm)
    else next_page_id pm = (Some (pm_page_count pm + 1, pm_page_count pm + 1), pm\<lparr>pm_page_count := pm_page_count pm + 1\<rparr>) \<and>
      unat (pm_page_count pm + 1) = unat (pm_page_count pm) + 1 \<and> page_id_is_valid (pm_page_count pm + 1)"
proof -
  define n where "n = pm_page_count pm"
  have le: "unat n \<le> 4294967040" using assms by (simp add: pm_inv_def PAGE_ID_MAX_def n_def word_le_nat_alt)
  then have u: "unat (n + 1) = unat n + 1" by (simp add: unat_word_ariths)
  have max: "n = PAGE_ID_MAX \<longleftrightarrow> unat n = 4294967040" by (simp add: PAGE_ID_MAX_def word_unat_eq_iff)
  have "checked_add_u32 n 1 = Some (n + 1)" using le by (simp add: checked_add_u32_def)
  moreover have "page_id_is_valid (n + 1) \<longleftrightarrow> unat n < 4294967040"
    by (auto simp: page_id_is_valid_def PAGE_ID_MIN_def PAGE_ID_MAX_def word_le_nat_alt u)
  ultimately show ?thesis
    using le max u by (auto simp: next_page_id_def page_id_new_def n_def [symmetric])
qed

subsection \<open>Allocation\<close>

lemma pm_allocate_Ok:
  assumes "pm_inv pm" and "pm_allocate io_ok sid pm = (Ok p, pm')"
  shows "pm_page_count pm \<noteq> PAGE_ID_MAX \<and> p = pm_page_count pm + 1 \<and> page_id_is_valid p \<and> \<not> bit sid 63 \<and>
    pm_page_count pm' = p \<and> unat p = unat (pm_page_count pm) + 1 \<and> mmap_len pm' = mmap_len pm \<and>
    mmap pm' = (mmap pm)(p := (mmap pm p)\<lparr>pg_state := u64_of_page_state (Dirty sid), pg_data := replicate DATA_SIZE 0\<rparr>) \<and>
    pm_inv pm'"
proof -
  have count: "pm_page_count pm \<noteq> PAGE_ID_MAX"
    using assms next_page_id_cases [OF assms(1)] by (auto simp: pm_allocate_def)
  define n where "n = pm_page_count pm + 1"
  define pm1 where "pm1 = pm\<lparr>pm_page_count := n\<rparr>"
  have nx: "next_page_id pm = (Some (n, n), pm1)" and u: "unat n = unat (pm_page_count pm) + 1" and valid: "page_id_is_valid n"
    using next_page_id_cases [OF assms(1)] count by (auto simp: n_def pm1_def)
  have len: "unat n * PAGE_SIZE \<le> mmap_len pm"
    using assms(2) by (auto simp: pm_allocate_def nx pm1_def Let_def split: if_splits)
  obtain pm2 where g: "grow_if_needed io_ok (unat n * PAGE_SIZE) pm1 = (Ok (), pm2)"
    and rest: "(if \<not> in_memory pm2 n then (Panic, pm2)
       else case page_mut_acquire_unchecked n sid (mmap pm2 n) of (r, raw) \<Rightarrow> (r, pm2\<lparr>mmap := (mmap pm2)(n := raw)\<rparr>)) = (Ok p, pm')"
    using assms(2) len by (auto simp: pm_allocate_def nx pm1_def Let_def bind_state_eq_Ok split: if_splits)
  have f: "mmap pm2 = mmap pm" "mmap_len pm2 = mmap_len pm" "pm_page_count pm2 = n" "file_len pm \<le> file_len pm2"
    "unat n * PAGE_SIZE \<le> file_len pm2"
    using g grow_loop_frame [of io_ok "unat n * PAGE_SIZE" pm1 "Ok ()" pm2]
    by (auto simp: grow_if_needed_def pm1_def split: if_splits)
  have r: "p = n" "\<not> bit sid 63"
    "pm' = pm2\<lparr>mmap := (mmap pm)(n := (mmap pm n)\<lparr>pg_state := u64_of_page_state (Dirty sid), pg_data := replicate DATA_SIZE 0\<rparr>)\<rparr>"
    using rest f(1) by (auto simp: page_mut_acquire_unchecked_def page_state_dirty_eq raw_state_store_def split: if_splits)
  have "pm_inv pm'" using f r len valid by (simp add: pm_inv_def page_id_is_valid_def)
  with r f u valid count show ?thesis by (simp add: n_def)
qed

lemma pm_allocate_success:
  assumes "pm_inv pm" and "\<And>n. io_ok n" and "\<not> bit sid 63" and "mmap_len pm < 2 ^ 60"
    and "(unat (pm_page_count pm) + 1) * PAGE_SIZE \<le> mmap_len pm" and "pm_page_count pm \<noteq> PAGE_ID_MAX"
  shows "\<exists>p pm'. pm_allocate io_ok sid pm = (Ok p, pm')"
proof -
  define n where "n = pm_page_count pm + 1"
  define pm1 where "pm1 = pm\<lparr>pm_page_count := n\<rparr>"
  have nx: "next_page_id pm = (Some (n, n), pm1)" and u: "unat n = unat (pm_page_count pm) + 1"
    using next_page_id_cases [OF assms(1)] assms(6) by (auto simp: n_def pm1_def)
  have len: "unat n * PAGE_SIZE \<le> mmap_len pm1" using assms(5) u by (simp add: pm1_def)
  obtain pm2 where g: "grow_if_needed io_ok (unat n * PAGE_SIZE) pm1 = (Ok (), pm2)"
  proof (cases "file_len pm1 < unat n * PAGE_SIZE")
    case True
    from grow_loop_Ok [of io_ok "unat n * PAGE_SIZE" pm1] assms(2,4) len True
    show ?thesis using that True by (auto simp: grow_if_needed_def pm1_def)
  qed (use that in \<open>simp add: grow_if_needed_def\<close>)
  have f: "mmap_len pm2 = mmap_len pm" "unat n * PAGE_SIZE \<le> file_len pm2"
    using g grow_loop_frame [of io_ok "unat n * PAGE_SIZE" pm1 "Ok ()" pm2]
    by (auto simp: grow_if_needed_def pm1_def split: if_splits)
  have "(unat n - 1) * PAGE_SIZE + PAGE_SIZE = unat n * PAGE_SIZE" by (simp add: u)
  then have "in_memory pm2 n" using f len u by (simp add: in_memory_def page_id_as_offset_def pm1_def)
  then show ?thesis
    using g assms(3) len nx by (simp add: pm_allocate_def Let_def page_mut_acquire_unchecked_def page_state_dirty_eq)
qed

text \<open>A refused allocation has counted its page already.\<close>

lemma pm_allocate_refused:
  assumes "pm_inv pm" and "mmap_len pm < 2 ^ 60" and "\<not> bit sid 63"
    and "pm_allocate io_ok sid pm = (r, pm')" and "\<And>p. r \<noteq> Ok p"
  shows "r = Err PageLimitReached \<and> pm_page_count pm = PAGE_ID_MAX \<and> pm' = pm \<or>
    pm_page_count pm \<noteq> PAGE_ID_MAX \<and> pm_page_count pm' = pm_page_count pm + 1 \<and> mmap pm' = mmap pm \<and> mmap_len pm' = mmap_len pm \<and>
    (r = Err PageLimitReached \<and> mmap_len pm < (unat (pm_page_count pm) + 1) * PAGE_SIZE \<and> file_len pm' = file_len pm \<or>
     r = Err IO \<and> file_len pm \<le> file_len pm' \<and> file_len pm' < (unat (pm_page_count pm) + 1) * PAGE_SIZE \<and>
       (unat (pm_page_count pm) + 1) * PAGE_SIZE \<le> mmap_len pm \<and> (\<exists>n. \<not> io_ok n \<and> file_len pm' < n \<and> n \<le> mmap_len pm))"
proof (cases "pm_page_count pm = PAGE_ID_MAX")
  case True
  then show ?thesis using assms(4) next_page_id_cases [OF assms(1)] by (simp add: pm_allocate_def)
next
  case False
  define n where "n = pm_page_count pm + 1"
  define pm1 where "pm1 = pm\<lparr>pm_page_count := n\<rparr>"
  have nx: "next_page_id pm = (Some (n, n), pm1)" and u: "unat n = unat (pm_page_count pm) + 1"
    using next_page_id_cases [OF assms(1)] False by (auto simp: n_def pm1_def)
  show ?thesis
  proof (cases "mmap_len pm < unat n * PAGE_SIZE")
    case True
    then have "r = Err PageLimitReached" "pm' = pm1" using assms(4) by (auto simp: pm_allocate_def nx pm1_def Let_def)
    then show ?thesis using False True by (simp add: pm1_def u) (simp add: n_def)
  next
    case fits: False
    obtain g pm2 where g: "grow_if_needed io_ok (unat n * PAGE_SIZE) pm1 = (g, pm2)" by fastforce
    have f: "mmap pm2 = mmap pm" "mmap_len pm2 = mmap_len pm" "pm_page_count pm2 = n" "file_len pm \<le> file_len pm2"
      "g = Ok () \<Longrightarrow> unat n * PAGE_SIZE \<le> file_len pm2"
      using g grow_loop_frame [of io_ok "unat n * PAGE_SIZE" pm1 g pm2] by (auto simp: grow_if_needed_def pm1_def split: if_splits)
    have "g \<noteq> Ok ()"
    proof
      assume ok: "g = Ok ()"
      have "(unat n - 1) * PAGE_SIZE + PAGE_SIZE = unat n * PAGE_SIZE" by (simp add: u)
      then have "in_memory pm2 n" using f(2) f(5) [OF ok] fits u by (simp add: in_memory_def page_id_as_offset_def)
      then show False using assms(3-5) g ok fits
        by (auto simp: pm_allocate_def nx pm1_def Let_def page_mut_acquire_unchecked_def page_state_dirty_eq)
    qed
    moreover from this have "file_len pm < unat n * PAGE_SIZE" "grow_loop io_ok (unat n * PAGE_SIZE) pm1 = (g, pm2)"
      using g by (auto simp: grow_if_needed_def pm1_def split: if_splits)
    ultimately have io: "g = Err IO" "file_len pm2 < unat n * PAGE_SIZE" "\<exists>k. \<not> io_ok k \<and> file_len pm2 < k \<and> k \<le> mmap_len pm"
      using grow_loop_outcome [of "unat n * PAGE_SIZE" pm1 io_ok g pm2] assms(2) fits by (auto simp: pm1_def)
    then have "r = Err IO" "pm' = pm2" using assms(4) g fits by (auto simp: pm_allocate_def nx pm1_def Let_def)
    then show ?thesis using False f io fits u by (auto simp: n_def)
  qed
qed

subsection \<open>The interface to the storage engine\<close>

text \<open>
  What the engine relies on: an operation that returns a handle touches no page but the one it
  returns, a new page was not in use before, and taking a page for writing keeps its data.
\<close>

locale page_space =
  fixes inv :: "'s \<Rightarrow> bool" and in_use :: "'s \<Rightarrow> page_id \<Rightarrow> bool" and page_at :: "'s \<Rightarrow> page_id \<Rightarrow> raw_page"
    and alloc :: "snapshot_id \<Rightarrow> 's \<Rightarrow> (page_id, 'e) result \<times> 's"
    and take_mut :: "'s \<Rightarrow> snapshot_id \<Rightarrow> page_id \<Rightarrow> (page_id, 'e) result \<times> 's"
  assumes alloc_fresh: "inv s \<Longrightarrow> alloc sid s = (Ok p, s') \<Longrightarrow>
      inv s' \<and> \<not> in_use s p \<and> (\<forall>q. in_use s' q \<longleftrightarrow> in_use s q \<or> q = p) \<and>
      state_of (page_at s' p) = Dirty sid \<and> pg_data (page_at s' p) = replicate DATA_SIZE 0 \<and>
      (\<forall>q. q \<noteq> p \<longrightarrow> page_at s' q = page_at s q)"
    and take_mut_ok: "inv s \<Longrightarrow> in_use s p \<Longrightarrow> take_mut s sid p = (Ok q, s') \<Longrightarrow>
      q = p \<and> inv s' \<and> (\<forall>q. in_use s' q \<longleftrightarrow> in_use s q) \<and> \<not> is_dirty_state (state_of (page_at s p)) \<and>
      state_of (page_at s' p) = Dirty sid \<and> pg_data (page_at s' p) = pg_data (page_at s p) \<and>
      (\<forall>q. q \<noteq> p \<longrightarrow> page_at s' q = page_at s q)"
    and take_mut_err: "inv s \<Longrightarrow> in_use s p \<Longrightarrow> take_mut s sid p = (Err e, s') \<Longrightarrow> page_at s' = page_at s \<and> inv s' \<and> in_use s' = in_use s"
begin

lemma alloc_frame: "inv s \<Longrightarrow> alloc sid s = (Ok p, s') \<Longrightarrow> in_use s q \<Longrightarrow> page_at s' q = page_at s q"
  using alloc_fresh [of s sid p s'] by auto

lemma take_mut_frame: "inv s \<Longrightarrow> in_use s p \<Longrightarrow> take_mut s sid p = (Ok q, s') \<Longrightarrow> r \<noteq> p \<Longrightarrow> page_at s' r = page_at s r"
  using take_mut_ok [of s p sid q s'] by auto

end

definition pm_in_use :: "page_manager \<Rightarrow> page_id \<Rightarrow> bool" where
  "pm_in_use pm p \<longleftrightarrow> 1 \<le> p \<and> p \<le> pm_page_count pm"

interpretation pages: page_space pm_inv pm_in_use mmap "pm_allocate io_ok" pm_get_mut for io_ok
proof (unfold_locales, goal_cases)
  case (1 pm sid p pm')
  note a = pm_allocate_Ok [OF 1]
  then have u: "unat p = Suc (unat (pm_page_count pm))" and valid: "page_id_is_valid p" and sid: "\<not> bit sid 63"
    and pm': "pm_page_count pm' = p" "pm_inv pm'"
      "mmap pm' = (mmap pm)(p := (mmap pm p)\<lparr>pg_state := u64_of_page_state (Dirty sid), pg_data := replicate DATA_SIZE 0\<rparr>)"
    unfolding Suc_eq_plus1 by blast+
  have le: "q \<le> p \<longleftrightarrow> q \<le> pm_page_count pm \<or> q = p" for q
    by (simp only: word_le_nat_alt word_unat_eq_iff u) auto
  have nle: "\<not> p \<le> pm_page_count pm" by (simp only: word_le_nat_alt u not_less_eq_eq [symmetric] le_refl not_not)
  have one: "1 \<le> p" using valid unfolding page_id_is_valid_def PAGE_ID_MIN_def by blast
  show ?case using one nle sid pm'(2) by (auto simp: pm_in_use_def pm'(1,3) le)
next
  case (2 pm p sid q pm')
  then obtain raw where "page_mut_from_ptr p sid (mmap pm p) = (Ok q, raw)" "pm' = pm\<lparr>mmap := (mmap pm)(p := raw)\<rparr>"
    by (auto simp: pm_get_mut_eq pm_in_use_def split: prod.splits)
  with 2(1) show ?case
    by (auto simp: page_mut_from_ptr_eq pm_inv_def pm_in_use_def is_dirty_state_def split: if_splits page_state.splits)
next
  case (3 pm p sid e pm')
  then show ?case
    by (auto simp: pm_get_mut_eq pm_in_use_def page_mut_from_ptr_eq pm_inv_def fun_eq_iff split: prod.splits if_splits page_state.splits)
qed

subsection \<open>Properties\<close>

text \<open>
  C30. Every outcome of \<open>allocate\<close> under the invariant, whichever calls on the file succeed. It succeeds
  exactly when neither limit is reached and the file can be made long enough: then it returns the next page id, the
  page is dirty for the given snapshot and all zero, and the invariant holds again. At the largest page
  id it fails with \<open>PageLimitReached\<close> and changes nothing. When the memory map has no room for the page it
  fails with \<open>PageLimitReached\<close>, and when the file cannot be enlarged with \<open>IO\<close>; in both cases the page
  stays counted although it does not exist, and reading it faults. It never panics, the loop that grows the file
  always terminates, and no page but the new one is ever touched.
\<close>

theorem allocate_page_spec:
  assumes "pm_inv pm" and "mmap_len pm < 2 ^ 60" and "\<not> bit sid 63" and "pm_allocate io_ok sid pm = (r, pm')"
  shows "(\<forall>q. q \<noteq> pm_page_count pm + 1 \<longrightarrow> mmap pm' q = mmap pm q) \<and>
    (r = Err PageLimitReached \<longleftrightarrow> pm_page_count pm = PAGE_ID_MAX \<or> mmap_len pm < (unat (pm_page_count pm) + 1) * PAGE_SIZE) \<and>
    (case r of
       Ok p \<Rightarrow> p = pm_page_count pm + 1 \<and> pm_inv pm' \<and> pm_size pm' = pm_size pm + 1 \<and> page_id_is_valid p \<and>
         mmap pm' p = (mmap pm p)\<lparr>pg_state := u64_of_page_state (Dirty sid), pg_data := replicate DATA_SIZE 0\<rparr> \<and>
         pm_get pm' p = Err (PageDirty p)
     | Err PageLimitReached \<Rightarrow>
         (if pm_page_count pm = PAGE_ID_MAX then pm' = pm
          else pm_size pm' = pm_size pm + 1 \<and> mmap pm' = mmap pm \<and> pm_get pm' (pm_page_count pm + 1) = Panic)
     | Err IO \<Rightarrow>
         (\<exists>n. \<not> io_ok n \<and> file_len pm' < n \<and> n \<le> mmap_len pm) \<and> file_len pm \<le> file_len pm' \<and>
         pm_size pm' = pm_size pm + 1 \<and> mmap pm' = mmap pm \<and> pm_get pm' (pm_page_count pm + 1) = Panic
     | _ \<Rightarrow> False)"
proof (cases "\<exists>p. r = Ok p")
  case True
  then obtain p where r: "r = Ok p" by blast
  note s = pm_allocate_Ok [OF assms(1) assms(4) [unfolded r]]
  have "1 \<le> p" "p \<le> pm_page_count pm'" "pm_inv pm'"
    using s unfolding page_id_is_valid_def PAGE_ID_MIN_def by auto
  from pm_get_eq [OF this(3,1,2)] s have "pm_get pm' p = Err (PageDirty p)"
    by (simp add: page_from_ptr_def raw_state_load_def)
  moreover have "unat (pm_page_count pm') * PAGE_SIZE \<le> mmap_len pm'" using \<open>pm_inv pm'\<close> by (simp add: pm_inv_def)
  then have "\<not> mmap_len pm < (unat (pm_page_count pm) + 1) * PAGE_SIZE" using s unfolding not_less by metis
  ultimately show ?thesis using r s by (auto simp: pm_size_def)
next
  case False
  note c = pm_allocate_refused [OF assms(1-4)]
  have gone: "pm_get pm' (pm_page_count pm + 1) = Panic"
    if "pm_page_count pm \<noteq> PAGE_ID_MAX" "pm_page_count pm' = pm_page_count pm + 1" "min (mmap_len pm') (file_len pm') < (unat (pm_page_count pm) + 1) * PAGE_SIZE"
  proof -
    have "unat (pm_page_count pm + 1) = unat (pm_page_count pm) + 1" using next_page_id_cases [OF assms(1)] that(1) by simp
    then have "\<not> in_memory pm' (pm_page_count pm + 1)" using that(3) by (auto simp: in_memory_def page_id_as_offset_def)
    then show ?thesis using that(2) by (simp add: pm_get_def)
  qed
  show ?thesis using c False gone by (auto simp: pm_size_def)
qed

definition sample_manager :: page_manager where
  "sample_manager = \<lparr>mmap = (\<lambda>_. \<lparr>pg_state = 0, pg_data = replicate 4088 0\<rparr>), mmap_len = 8192, file_len = 0, pm_page_count = 0\<rparr>"

theorem allocate_page_spec_witness:
  "\<exists>pm' pm2. pm_allocate (\<lambda>_. True) 1 sample_manager = (Ok 1, pm') \<and> pm_inv pm' \<and> pm_size pm' = 1 \<and>
     pm_allocate (\<lambda>_. False) 1 sample_manager = (Err IO, pm2) \<and> pm_size pm2 = 1 \<and> pm_get pm2 1 = Panic"
proof -
  have inv: "pm_inv sample_manager" "mmap_len sample_manager < 2 ^ 60" "\<not> bit (1 :: u64) 63"
    by (simp_all add: sample_manager_def pm_inv_def PAGE_ID_MAX_def bit_1_iff)
  obtain r pm' where a: "pm_allocate (\<lambda>_. True) 1 sample_manager = (r, pm')" by fastforce
  obtain r2 pm2 where b: "pm_allocate (\<lambda>_. False) 1 sample_manager = (r2, pm2)" by fastforce
  have "r = Ok 1 \<and> pm_inv pm' \<and> pm_size pm' = 1"
    using allocate_page_spec [OF inv a] by (auto simp: sample_manager_def PAGE_SIZE_def PAGE_ID_MAX_def pm_size_def split: result.splits page_error.splits)
  moreover have "r2 = Err IO"
    using b by (simp add: pm_allocate_def sample_manager_def next_page_id_def checked_add_u32_def page_id_new_def page_id_is_valid_def PAGE_ID_MIN_def PAGE_ID_MAX_def
      PAGE_SIZE_def grow_if_needed_def grow_loop.simps pm_grow_def)
  then have "r2 = Err IO \<and> pm_size pm2 = 1 \<and> pm_get pm2 1 = Panic"
    using allocate_page_spec [OF inv b] by (auto simp: sample_manager_def pm_size_def)
  ultimately show ?thesis using a b by blast
qed

text \<open>
  C31. Reading under the invariant: \<open>get\<close>, \<open>get_mut\<close> and \<open>is_dirty\<close> never fault; an id beyond the page
  count is \<open>PageNotFound\<close>, a page in use is returned according to its state, and \<open>get_mut\<close> makes the
  page dirty for the given snapshot without changing its data or any other page.
\<close>

theorem page_access_spec:
  assumes "pm_inv pm" and "1 \<le> p" and "\<not> bit sid 63"
  shows "pm_get pm p =
      (if pm_page_count pm < p then Err (PageNotFound p)
       else case state_of (mmap pm p) of Occupied _ \<Rightarrow> Ok p | Unused \<Rightarrow> Err (PageNotFound p) | Dirty _ \<Rightarrow> Err (PageDirty p)) \<and>
    pm_is_dirty pm p =
      (if pm_page_count pm < p then Err (PageNotFound p) else Ok (is_dirty_state (state_of (mmap pm p)))) \<and>
    pm_get_mut pm sid p =
      (if pm_page_count pm < p then (Err (PageNotFound p), pm)
       else if is_dirty_state (state_of (mmap pm p)) then (Err (PageDirty p), pm)
       else (Ok p, pm\<lparr>mmap := (mmap pm)(p := (mmap pm p)\<lparr>pg_state := u64_of_page_state (Dirty sid)\<rparr>)\<rparr>))"
proof (cases "pm_page_count pm < p")
  case True
  then show ?thesis by (simp add: pm_get_def pm_is_dirty_def pm_get_mut_def pm_size_def)
next
  case False
  then have le: "p \<le> pm_page_count pm" by simp
  note mem = in_memory_page [OF assms(1,2) le]
  have "pm_get_mut pm sid p =
       (if is_dirty_state (state_of (mmap pm p)) then (Err (PageDirty p), pm)
        else (Ok p, pm\<lparr>mmap := (mmap pm)(p := (mmap pm p)\<lparr>pg_state := u64_of_page_state (Dirty sid)\<rparr>)\<rparr>))"
    using pm_get_mut_eq [OF assms(1,2) le, of sid] assms(3)
    by (auto simp: page_mut_from_ptr_eq is_dirty_state_def split: page_state.splits)
  with False mem show ?thesis
    by (simp add: pm_get_def pm_is_dirty_def pm_size_def page_from_ptr_def raw_state_load_def is_dirty_state_def
        split: page_state.splits)
qed

theorem page_access_spec_witness:
  "pm_get sample_manager 1 = Err (PageNotFound 1)"
  using page_access_spec [of sample_manager 1 1, THEN conjunct1]
  by (simp add: sample_manager_def pm_inv_def PAGE_SIZE_def PAGE_ID_MAX_def bit_1_iff)


definition full_manager :: page_manager where
  "full_manager = sample_manager\<lparr>file_len := 8192, pm_page_count := 2\<rparr>"


end
