(* ===== verification/Metadata.thy ===== *)
theory Metadata
  imports Page Externals
begin

text \<open>
  The metadata file (\<open>src/src/meta/mod.rs\<close>): two slots with the fixed metadata, written in turns and
  protected by a hash, and the list of orphaned pages behind them. The memory-mapped file is the pair
  of slots and the list; \<open>slot_bytes\<close> is the byte image of a slot that is hashed and compared with
  zero. The outcome of the calls on the file is an argument (\<open>io_ok\<close>, of the requested length, and
  \<open>sync_ok\<close>).

  The abstract view of the manager is a pair of queues of orphans: the one of the dirty slot, which
  \<open>push\<close> and \<open>pop\<close> work on, and the one of the active slot, which is what a reader finds after a
  crash. The lemmas show that pushes and pops never disturb the latter, that a commit publishes the
  former, also when it compacts the list, and that reopening the file after a crash finds the active
  slot before the hash of the dirty one is written and the dirty slot afterwards.
\<close>

subsection \<open>Slots\<close>

record metadata_slot =
  ms_snapshot_id :: snapshot_id
  ms_root_node_hash :: bytes
  ms_root_node_page_id :: u32
  ms_page_count :: u32
  ms_orphan_pages_len :: u32
  ms_reclaimed_orphans_len :: u32

record hashed_slot =
  hs_meta :: metadata_slot
  hs_hash :: u64

definition root_node_page_id :: "metadata_slot \<Rightarrow> page_id option" where
  "root_node_page_id m = page_id_new (ms_root_node_page_id m)"

definition set_root_node_page_id :: "page_id option \<Rightarrow> metadata_slot \<Rightarrow> metadata_slot" where
  "set_root_node_page_id p m = m\<lparr>ms_root_node_page_id := (case p of Some p \<Rightarrow> p | None \<Rightarrow> 0)\<rparr>"

definition inc_snapshot_id :: "metadata_slot \<Rightarrow> (metadata_slot, 'e) result" where
  "inc_snapshot_id m =
     bind_result (unwrap_option (checked_add_u64 (ms_snapshot_id m) 1)) (\<lambda>n. Ok (m\<lparr>ms_snapshot_id := n\<rparr>))"

definition reclaimed_range :: "metadata_slot \<Rightarrow> nat \<times> nat" where
  "reclaimed_range m = (0, unat (ms_reclaimed_orphans_len m))"

definition actual_orphans_range :: "metadata_slot \<Rightarrow> nat \<times> nat" where
  "actual_orphans_range m = (unat (ms_reclaimed_orphans_len m), unat (ms_orphan_pages_len m))"

definition le_bytes_u32 :: "u32 \<Rightarrow> bytes" where
  "le_bytes_u32 x = rev (to_be_bytes_u32 x)"

definition le_bytes_u64 :: "u64 \<Rightarrow> bytes" where
  "le_bytes_u64 x = map (\<lambda>i. ucast (drop_bit (8 * i) x)) [0..<8]"

definition slot_bytes :: "metadata_slot \<Rightarrow> bytes" where
  "slot_bytes m =
     le_bytes_u64 (ms_snapshot_id m) @ ms_root_node_hash m @ le_bytes_u32 (ms_root_node_page_id m) @
     le_bytes_u32 (ms_page_count m) @ le_bytes_u32 (ms_orphan_pages_len m) @
     le_bytes_u32 (ms_reclaimed_orphans_len m)"

definition slot_hash :: "externals \<Rightarrow> metadata_slot \<Rightarrow> u64" where
  "slot_hash E m = x_hash64 E (slot_bytes m)"

definition slot_is_empty :: "hashed_slot \<Rightarrow> bool" where
  "slot_is_empty s \<longleftrightarrow> list_all (\<lambda>b. b = 0) (slot_bytes (hs_meta s) @ le_bytes_u64 (hs_hash s))"

definition update_hash :: "externals \<Rightarrow> hashed_slot \<Rightarrow> hashed_slot" where
  "update_hash E s = s\<lparr>hs_hash := slot_hash E (hs_meta s)\<rparr>"

datatype metadata_error = Corrupted | MetaIO

definition verify_integrity :: "externals \<Rightarrow> hashed_slot \<Rightarrow> (unit, metadata_error) result" where
  "verify_integrity E s =
     (if slot_is_empty s then Ok ()
      else if ms_orphan_pages_len (hs_meta s) < ms_reclaimed_orphans_len (hs_meta s) then Err Corrupted
      else if hs_hash s \<noteq> slot_hash E (hs_meta s) then Err Corrupted
      else Ok ())"

definition latest_slot_index :: "externals \<Rightarrow> hashed_slot \<Rightarrow> hashed_slot \<Rightarrow> (nat, metadata_error) result" where
  "latest_slot_index E s0 s1 =
     (if slot_is_empty s0 \<and> slot_is_empty s1 then Ok 0
      else case (verify_integrity E s0, verify_integrity E s1) of
        (Ok _, Ok _) \<Rightarrow>
          if ms_snapshot_id (hs_meta s1) < ms_snapshot_id (hs_meta s0) then Ok 0
          else if ms_snapshot_id (hs_meta s0) < ms_snapshot_id (hs_meta s1) then Ok 1
          else if s0 = s1 then Ok 0 else Err Corrupted
      | (Ok _, _) \<Rightarrow> Ok 0
      | (_, Ok _) \<Rightarrow> Ok 1
      | _ \<Rightarrow> Err Corrupted)"

subsection \<open>The manager\<close>

record orphan_page =
  op_page_id :: u32
  op_padding :: u32
  op_orphaned_at :: snapshot_id

definition orphan_page_new :: "page_id \<Rightarrow> snapshot_id \<Rightarrow> orphan_page" where
  "orphan_page_new p sid = \<lparr>op_page_id = p, op_padding = 0, op_orphaned_at = sid\<rparr>"

definition orphan_page_id :: "orphan_page \<Rightarrow> (page_id, 'e) result" where
  "orphan_page_id o1 = unwrap_option (page_id_new (op_page_id o1))"

record meta_manager =
  mm_slot0 :: hashed_slot
  mm_slot1 :: hashed_slot
  mm_list :: "orphan_page list"
  mm_active :: nat

definition SIZE_MIN :: nat where
  "SIZE_MIN = 4096"

definition zero_slot :: hashed_slot where
  "zero_slot =
     \<lparr>hs_meta = \<lparr>ms_snapshot_id = 0, ms_root_node_hash = replicate 32 0, ms_root_node_page_id = 0,
        ms_page_count = 0, ms_orphan_pages_len = 0, ms_reclaimed_orphans_len = 0\<rparr>, hs_hash = 0\<rparr>"

definition zero_orphan :: orphan_page where
  "zero_orphan = \<lparr>op_page_id = 0, op_padding = 0, op_orphaned_at = 0\<rparr>"

definition active_slot :: "meta_manager \<Rightarrow> hashed_slot" where
  "active_slot mm = (if mm_active mm = 0 then mm_slot0 mm else mm_slot1 mm)"

definition dirty_slot :: "meta_manager \<Rightarrow> hashed_slot" where
  "dirty_slot mm = (if mm_active mm = 0 then mm_slot1 mm else mm_slot0 mm)"

text \<open>Writing through \<open>dirty_slot_mut\<close>.\<close>

definition set_dirty_slot :: "hashed_slot \<Rightarrow> meta_manager \<Rightarrow> meta_manager" where
  "set_dirty_slot s mm = (if mm_active mm = 0 then mm\<lparr>mm_slot1 := s\<rparr> else mm\<lparr>mm_slot0 := s\<rparr>)"

abbreviation update_dirty :: "(metadata_slot \<Rightarrow> metadata_slot) \<Rightarrow> meta_manager \<Rightarrow> meta_manager" where
  "update_dirty f mm \<equiv> set_dirty_slot ((dirty_slot mm)\<lparr>hs_meta := f (hs_meta (dirty_slot mm))\<rparr>) mm"

definition populate_dirty_slot :: "meta_manager \<Rightarrow> (unit, metadata_error) result \<times> meta_manager" where
  "populate_dirty_slot mm =
     (let mm = set_dirty_slot (active_slot mm) mm in
      case inc_snapshot_id (hs_meta (dirty_slot mm)) of
        Ok m \<Rightarrow> (Ok (), set_dirty_slot ((dirty_slot mm)\<lparr>hs_meta := m\<rparr>) mm)
      | Err e \<Rightarrow> (Err e, mm) | Panic \<Rightarrow> (Panic, mm) | Diverge \<Rightarrow> (Diverge, mm))"

text \<open>
  Opening: the contents of the file, already extended with zeros to the minimal size.
\<close>

definition mm_from_file ::
  "externals \<Rightarrow> hashed_slot \<Rightarrow> hashed_slot \<Rightarrow> orphan_page list \<Rightarrow> (meta_manager, metadata_error) result" where
  "mm_from_file E s0 s1 xs =
     bind_result (latest_slot_index E s0 s1) (\<lambda>i.
       case populate_dirty_slot \<lparr>mm_slot0 = s0, mm_slot1 = s1, mm_list = xs, mm_active = i\<rparr> of
         (Ok _, mm) \<Rightarrow> Ok mm | (Err e, _) \<Rightarrow> Err e | (Panic, _) \<Rightarrow> Panic | (Diverge, _) \<Rightarrow> Diverge)"

text \<open>Doubling the file: the slots take 128 bytes and an orphan 16, the new part is zero.\<close>

definition mm_grow :: "(nat \<Rightarrow> bool) \<Rightarrow> meta_manager \<Rightarrow> (unit, metadata_error) result \<times> meta_manager" where
  "mm_grow io_ok mm =
     (let cur_len = 128 + 16 * length (mm_list mm); new_len = min (cur_len * 2) (2 ^ 64 - 1) in
      if \<not> io_ok new_len then (Err MetaIO, mm)
      else (Ok (), mm\<lparr>mm_list := mm_list mm @ replicate ((new_len - 128) div 16 - length (mm_list mm)) zero_orphan\<rparr>))"

definition orphans_copy_within :: "orphan_page list \<Rightarrow> nat \<times> nat \<Rightarrow> (orphan_page list, metadata_error) result" where
  "orphans_copy_within xs r =
     (case r of (a, b) \<Rightarrow> if a \<le> b \<and> b \<le> length xs then Ok (write_at xs 0 (subl xs a (b - a))) else Panic)"

definition compact_orphans :: "meta_manager \<Rightarrow> (unit, metadata_error) result \<times> meta_manager" where
  "compact_orphans mm =
     (let reclaimed = unat (ms_reclaimed_orphans_len (hs_meta (active_slot mm)));
          r = actual_orphans_range (hs_meta (dirty_slot mm));
          len = snd r - fst r in
      if len \<le> reclaimed then
        (let mm = update_dirty (\<lambda>m. m\<lparr>ms_orphan_pages_len := of_nat len, ms_reclaimed_orphans_len := 0\<rparr>) mm in
         case orphans_copy_within (mm_list mm) r of
           Ok xs \<Rightarrow> (Ok (), mm\<lparr>mm_list := xs\<rparr>)
         | Err e \<Rightarrow> (Err e, mm) | Panic \<Rightarrow> (Panic, mm) | Diverge \<Rightarrow> (Diverge, mm))
      else (Ok (), mm))"

definition swap_active :: "meta_manager \<Rightarrow> meta_manager" where
  "swap_active mm = mm\<lparr>mm_active := 1 - mm_active mm\<rparr>"

definition mm_commit :: "externals \<Rightarrow> bool \<Rightarrow> meta_manager \<Rightarrow> (unit, metadata_error) result \<times> meta_manager" where
  "mm_commit E sync_ok mm =
     bind_state (compact_orphans mm) (\<lambda>_ mm.
       let mm = set_dirty_slot (update_hash E (dirty_slot mm)) mm in
       if \<not> sync_ok then (Err MetaIO, mm)
       else populate_dirty_slot (swap_active mm))"

definition mm_wipe :: "(nat \<Rightarrow> bool) \<Rightarrow> meta_manager \<Rightarrow> (unit, metadata_error) result \<times> meta_manager" where
  "mm_wipe io_ok mm =
     (if \<not> io_ok SIZE_MIN then (Err MetaIO, mm)
      else populate_dirty_slot (mm\<lparr>mm_slot0 := zero_slot, mm_slot1 := zero_slot,
             mm_list := replicate ((SIZE_MIN - 128) div 16) zero_orphan\<rparr>))"

subsection \<open>Orphan pages\<close>

definition orphans_len :: "meta_manager \<Rightarrow> nat" where
  "orphans_len mm =
     (let m = hs_meta (dirty_slot mm) in usize_sub (unat (ms_orphan_pages_len m)) (unat (ms_reclaimed_orphans_len m)))"

definition orphans_capacity :: "meta_manager \<Rightarrow> nat" where
  "orphans_capacity mm = length (mm_list mm)"

definition orphans_is_empty :: "meta_manager \<Rightarrow> bool" where
  "orphans_is_empty mm \<longleftrightarrow> orphans_len mm = 0"

definition orphans_iter :: "meta_manager \<Rightarrow> (orphan_page list, metadata_error) result" where
  "orphans_iter mm =
     (case actual_orphans_range (hs_meta (dirty_slot mm)) of (a, b) \<Rightarrow> unwrap_option (slice_range (mm_list mm) a b))"

definition push_within_capacity :: "orphan_page \<Rightarrow> meta_manager \<Rightarrow> (unit, orphan_page) result \<times> meta_manager" where
  "push_within_capacity orphan mm =
     (let range_end = snd (actual_orphans_range (hs_meta (dirty_slot mm))) in
      if range_end < length (mm_list mm)
      then (Ok (), update_dirty (\<lambda>m. m\<lparr>ms_orphan_pages_len := ms_orphan_pages_len m + 1\<rparr>)
              (mm\<lparr>mm_list := (mm_list mm)[range_end := orphan]\<rparr>))
      else (Err orphan, mm))"

definition orphans_push :: "(nat \<Rightarrow> bool) \<Rightarrow> orphan_page \<Rightarrow> meta_manager \<Rightarrow> (unit, metadata_error) result \<times> meta_manager" where
  "orphans_push io_ok orphan mm =
     (case push_within_capacity orphan mm of
        (Ok _, mm) \<Rightarrow> (Ok (), mm)
      | (_, mm) \<Rightarrow>
          bind_state (mm_grow io_ok mm) (\<lambda>_ mm.
            case push_within_capacity orphan mm of (r, mm) \<Rightarrow> (unwrap r, mm)))"

definition orphans_pop :: "snapshot_id \<Rightarrow> meta_manager \<Rightarrow> (orphan_page option, metadata_error) result \<times> meta_manager" where
  "orphans_pop threshold mm =
     (case actual_orphans_range (hs_meta (dirty_slot mm)) of (a, b) \<Rightarrow>
        if b \<le> a then (Ok None, mm)
        else if length (mm_list mm) \<le> a then (Panic, mm)
        else let orphan = mm_list mm ! a in
          if op_orphaned_at orphan \<le> threshold
          then (Ok (Some orphan), update_dirty (\<lambda>m. m\<lparr>ms_reclaimed_orphans_len := ms_reclaimed_orphans_len m + 1\<rparr>) mm)
          else (Ok None, mm))"

subsection \<open>The two queues\<close>

definition range_ok :: "metadata_slot \<Rightarrow> nat \<Rightarrow> bool" where
  "range_ok m n \<longleftrightarrow> ms_reclaimed_orphans_len m \<le> ms_orphan_pages_len m \<and> unat (ms_orphan_pages_len m) \<le> n"

definition queue_of :: "metadata_slot \<Rightarrow> orphan_page list \<Rightarrow> orphan_page list" where
  "queue_of m xs =
     subl xs (unat (ms_reclaimed_orphans_len m)) (unat (ms_orphan_pages_len m) - unat (ms_reclaimed_orphans_len m))"

definition current_orphans :: "meta_manager \<Rightarrow> orphan_page list" where
  "current_orphans mm = queue_of (hs_meta (dirty_slot mm)) (mm_list mm)"

definition committed_orphans :: "meta_manager \<Rightarrow> orphan_page list" where
  "committed_orphans mm = queue_of (hs_meta (active_slot mm)) (mm_list mm)"

definition mm_inv :: "externals \<Rightarrow> meta_manager \<Rightarrow> bool" where
  "mm_inv E mm \<longleftrightarrow>
     mm_active mm \<le> 1 \<and> length (mm_list mm) < 2 ^ 31 \<and>
     range_ok (hs_meta (active_slot mm)) (length (mm_list mm)) \<and>
     range_ok (hs_meta (dirty_slot mm)) (length (mm_list mm)) \<and>
     ms_reclaimed_orphans_len (hs_meta (active_slot mm)) \<le> ms_reclaimed_orphans_len (hs_meta (dirty_slot mm)) \<and>
     ms_orphan_pages_len (hs_meta (active_slot mm)) \<le> ms_orphan_pages_len (hs_meta (dirty_slot mm)) \<and>
     verify_integrity E (active_slot mm) = Ok ()"

lemma slot_access [simp]:
  "dirty_slot (set_dirty_slot s mm) = s" "active_slot (set_dirty_slot s mm) = active_slot mm"
  "mm_list (set_dirty_slot s mm) = mm_list mm" "mm_active (set_dirty_slot s mm) = mm_active mm"
  "set_dirty_slot s (set_dirty_slot t mm) = set_dirty_slot s mm"
  by (simp_all add: dirty_slot_def active_slot_def set_dirty_slot_def)

lemma slot_list [simp]:
  "dirty_slot (mm\<lparr>mm_list := xs\<rparr>) = dirty_slot mm" "active_slot (mm\<lparr>mm_list := xs\<rparr>) = active_slot mm"
  by (simp_all add: dirty_slot_def active_slot_def)

lemma slot_swap [simp]:
  "mm_active mm \<le> 1 \<Longrightarrow> active_slot (swap_active mm) = dirty_slot mm"
  "mm_active mm \<le> 1 \<Longrightarrow> dirty_slot (swap_active mm) = active_slot mm"
  "mm_list (swap_active mm) = mm_list mm"
  "mm_active mm \<le> 1 \<Longrightarrow> mm_active (swap_active mm) \<le> 1"
  by (auto simp: active_slot_def dirty_slot_def swap_active_def)

lemma populate_dirty_slot_eq:
  assumes "unat (ms_snapshot_id (hs_meta (active_slot mm))) + 1 < 2 ^ 64"
  shows "populate_dirty_slot mm =
    (Ok (), set_dirty_slot ((active_slot mm)\<lparr>hs_meta := (hs_meta (active_slot mm))
       \<lparr>ms_snapshot_id := ms_snapshot_id (hs_meta (active_slot mm)) + 1\<rparr>\<rparr>) mm)"
proof -
  define n where "n = ms_snapshot_id (hs_meta (active_slot mm))"
  then have "checked_add_u64 n 1 = Some (n + 1)" using assms by (simp add: checked_add_u64_def)
  then show ?thesis
    by (simp add: populate_dirty_slot_def inc_snapshot_id_def Let_def n_def [symmetric])
qed

lemma subl_snoc_update:
  "a \<le> b \<Longrightarrow> b < length xs \<Longrightarrow> subl (xs[b := x]) a (Suc b - a) = subl xs a (b - a) @ [x]"
  by (intro nth_equalityI) (auto simp: subl_nth nth_append nth_list_update less_Suc_eq_le)

lemma subl_update_beyond: "a + n \<le> b \<Longrightarrow> subl (xs[b := x]) a n = subl xs a n"
  by (simp add: subl_def drop_update_swap)

lemma subl_append_beyond: "a + n \<le> length xs \<Longrightarrow> subl (xs @ ys) a n = subl xs a n"
  by (simp add: subl_def)

lemma subl_Cons: "a < b \<Longrightarrow> b \<le> length xs \<Longrightarrow> subl xs a (b - a) = xs ! a # subl xs (Suc a) (b - Suc a)"
  by (simp add: subl_def Cons_nth_drop_Suc [symmetric] take_Cons' Suc_diff_Suc flip: Suc_diff_Suc)

lemma unat_inc: "unat (x :: u32) < n \<Longrightarrow> n < 2 ^ 32 \<Longrightarrow> unat (x + 1) = Suc (unat x)"
  by (simp add: unat_word_ariths)

lemma unat_le: "(a :: u32) \<le> b \<longleftrightarrow> unat a \<le> unat b"
  by (rule word_le_nat_alt)

lemma push_room:
  assumes "mm_inv E mm" and "unat (ms_orphan_pages_len (hs_meta (dirty_slot mm))) < length (mm_list mm)"
  shows "\<exists>mm'. push_within_capacity x mm = (Ok (), mm') \<and> mm_inv E mm' \<and> current_orphans mm' = current_orphans mm @ [x] \<and>
    committed_orphans mm' = committed_orphans mm \<and> active_slot mm' = active_slot mm \<and>
    hs_hash (dirty_slot mm') = hs_hash (dirty_slot mm) \<and>
    ms_snapshot_id (hs_meta (dirty_slot mm')) = ms_snapshot_id (hs_meta (dirty_slot mm))"
proof -
  define d a where "d = hs_meta (dirty_slot mm)" and "a = hs_meta (active_slot mm)"
  define b where "b = unat (ms_orphan_pages_len d)"
  define mm' where "mm' = update_dirty (\<lambda>m. m\<lparr>ms_orphan_pages_len := ms_orphan_pages_len m + 1\<rparr>) (mm\<lparr>mm_list := (mm_list mm)[b := x]\<rparr>)"
  have inv: "length (mm_list mm) < 2 ^ 31" "unat (ms_reclaimed_orphans_len d) \<le> b" "unat (ms_reclaimed_orphans_len a) \<le> unat (ms_orphan_pages_len a)"
    "unat (ms_orphan_pages_len a) \<le> b" "unat (ms_reclaimed_orphans_len a) \<le> unat (ms_reclaimed_orphans_len d)" "b < length (mm_list mm)"
    using assms by (simp_all add: mm_inv_def range_ok_def d_def a_def b_def unat_le)
  have u: "unat (ms_orphan_pages_len d + 1) = Suc b"
    unfolding b_def by (rule unat_inc [OF inv(6) [unfolded b_def]]) (use inv(1) in simp)
  have dm: "hs_meta (dirty_slot mm') = d\<lparr>ms_orphan_pages_len := ms_orphan_pages_len d + 1\<rparr>" "active_slot mm' = active_slot mm"
    "mm_list mm' = (mm_list mm)[b := x]" "mm_active mm' = mm_active mm"
    by (simp_all add: mm'_def d_def)
  have "push_within_capacity x mm = (Ok (), mm')"
    using assms(2) by (simp add: push_within_capacity_def actual_orphans_range_def Let_def mm'_def b_def d_def)
  moreover have "mm_inv E mm'"
    using assms(1) inv u by (simp add: mm_inv_def range_ok_def dm unat_le a_def [symmetric] d_def [symmetric] b_def)
  moreover have "current_orphans mm' = current_orphans mm @ [x]"
    using inv u subl_snoc_update [of "unat (ms_reclaimed_orphans_len d)" b "mm_list mm" x]
    by (simp add: current_orphans_def queue_of_def dm d_def [symmetric] b_def [symmetric])
  moreover have "committed_orphans mm' = committed_orphans mm"
    using inv by (simp add: committed_orphans_def queue_of_def dm a_def [symmetric] subl_update_beyond)
  ultimately show ?thesis by (simp add: dm mm'_def)
qed

text \<open>
  The file system refuses to grow the file beyond \<open>2\<^sup>3\<^sup>5\<close> bytes (or earlier): the lengths stay \<open>u32\<close>
  values.
\<close>

definition bounded_io :: "(nat \<Rightarrow> bool) \<Rightarrow> bool" where
  "bounded_io io_ok \<longleftrightarrow> (\<forall>n. io_ok n \<longrightarrow> n < 2 ^ 35)"

lemma mm_grow_room:
  assumes "mm_inv E mm" and "bounded_io io_ok" and "io_ok (256 + 32 * length (mm_list mm))"
  shows "\<exists>mm'. mm_grow io_ok mm = (Ok (), mm') \<and> mm_inv E mm' \<and> current_orphans mm' = current_orphans mm \<and>
    committed_orphans mm' = committed_orphans mm \<and> active_slot mm' = active_slot mm \<and> dirty_slot mm' = dirty_slot mm \<and>
    length (mm_list mm') = 2 * length (mm_list mm) + 8"
proof -
  define xs where "xs = mm_list mm @ replicate (length (mm_list mm) + 8) zero_orphan"
  have len: "256 + 32 * length (mm_list mm) < 2 ^ 35" using assms(2,3) by (auto simp: bounded_io_def)
  have "mm_grow io_ok mm = (Ok (), mm\<lparr>mm_list := xs\<rparr>)"
    using assms(3) len by (simp add: mm_grow_def xs_def Let_def algebra_simps)
  moreover have "queue_of m xs = queue_of m (mm_list mm)" if "range_ok m (length (mm_list mm))" for m
    using that by (auto simp: queue_of_def range_ok_def xs_def unat_le intro!: subl_append_beyond)
  ultimately show ?thesis
    using assms(1) len by (simp add: mm_inv_def range_ok_def current_orphans_def committed_orphans_def xs_def)
qed

lemma mm_grow_refused:
  assumes "mm_inv E mm" and "\<not> io_ok (256 + 32 * length (mm_list mm))"
  shows "mm_grow io_ok mm = (Err MetaIO, mm)"
  using assms by (simp add: mm_grow_def mm_inv_def Let_def algebra_simps)

lemma orphans_push_ok:
  assumes "mm_inv E mm" and "bounded_io io_ok" and "unat (ms_orphan_pages_len (hs_meta (dirty_slot mm))) < length (mm_list mm) \<or>
    io_ok (256 + 32 * length (mm_list mm))"
  shows "\<exists>mm'. orphans_push io_ok x mm = (Ok (), mm') \<and> mm_inv E mm' \<and> current_orphans mm' = current_orphans mm @ [x] \<and>
    committed_orphans mm' = committed_orphans mm \<and> active_slot mm' = active_slot mm \<and>
    hs_hash (dirty_slot mm') = hs_hash (dirty_slot mm) \<and>
    ms_snapshot_id (hs_meta (dirty_slot mm')) = ms_snapshot_id (hs_meta (dirty_slot mm))"
proof (cases "unat (ms_orphan_pages_len (hs_meta (dirty_slot mm))) < length (mm_list mm)")
  case True
  then show ?thesis using push_room [OF assms(1) True, of x] by (auto simp: orphans_push_def)
next
  case False
  have no: "push_within_capacity x mm = (Err x, mm)"
    using False by (simp add: push_within_capacity_def actual_orphans_range_def Let_def)
  obtain mm1 where g: "mm_grow io_ok mm = (Ok (), mm1)" "mm_inv E mm1" "current_orphans mm1 = current_orphans mm"
    "committed_orphans mm1 = committed_orphans mm" "active_slot mm1 = active_slot mm" "dirty_slot mm1 = dirty_slot mm"
    "length (mm_list mm1) = 2 * length (mm_list mm) + 8"
    using mm_grow_room [OF assms(1,2)] assms(3) False by blast
  have "unat (ms_orphan_pages_len (hs_meta (dirty_slot mm1))) < length (mm_list mm1)"
    using assms(1) g(6,7) by (simp add: mm_inv_def range_ok_def)
  from push_room [OF g(2) this, of x] show ?thesis using no g by (auto simp: orphans_push_def)
qed

lemma orphans_push_refused:
  assumes "mm_inv E mm" and "length (mm_list mm) \<le> unat (ms_orphan_pages_len (hs_meta (dirty_slot mm)))"
    and "\<not> io_ok (256 + 32 * length (mm_list mm))"
  shows "orphans_push io_ok x mm = (Err MetaIO, mm)"
  using assms(2) mm_grow_refused [of E mm io_ok, OF assms(1,3)]
  by (simp add: orphans_push_def push_within_capacity_def actual_orphans_range_def Let_def)

lemma orphans_push_cases:
  assumes "mm_inv E mm" and "bounded_io io_ok"
  obtains mm' where "orphans_push io_ok x mm = (Ok (), mm')" "mm_inv E mm'" "current_orphans mm' = current_orphans mm @ [x]"
      "committed_orphans mm' = committed_orphans mm" "active_slot mm' = active_slot mm"
  | "orphans_push io_ok x mm = (Err MetaIO, mm)"
  using orphans_push_ok [OF assms, of x] orphans_push_refused [of E mm io_ok x, OF assms(1)] by (meson not_less)

lemma orphans_pop_ok:
  assumes "mm_inv E mm"
  shows "\<exists>mm'. orphans_pop threshold mm = (Ok (case current_orphans mm of
        x # _ \<Rightarrow> if op_orphaned_at x \<le> threshold then Some x else None | [] \<Rightarrow> None), mm') \<and>
    mm_inv E mm' \<and> committed_orphans mm' = committed_orphans mm \<and> active_slot mm' = active_slot mm \<and>
    current_orphans mm' = (case current_orphans mm of
        x # xs \<Rightarrow> if op_orphaned_at x \<le> threshold then xs else x # xs | [] \<Rightarrow> []) \<and>
    length (mm_list mm') = length (mm_list mm) \<and>
    hs_hash (dirty_slot mm') = hs_hash (dirty_slot mm) \<and>
    ms_snapshot_id (hs_meta (dirty_slot mm')) = ms_snapshot_id (hs_meta (dirty_slot mm))"
proof -
  define d where "d = hs_meta (dirty_slot mm)"
  define a b where "a = unat (ms_reclaimed_orphans_len d)" and "b = unat (ms_orphan_pages_len d)"
  have inv: "a \<le> b" "b \<le> length (mm_list mm)" "length (mm_list mm) < 2 ^ 31"
    using assms by (simp_all add: mm_inv_def range_ok_def d_def a_def b_def unat_le)
  show ?thesis
  proof (cases "a = b")
    case True
    then have "current_orphans mm = []" by (simp add: current_orphans_def queue_of_def d_def a_def b_def subl_def)
    then show ?thesis using True assms by (simp add: orphans_pop_def actual_orphans_range_def d_def a_def b_def)
  next
    case False
    with inv have lt: "a < b" by simp
    then have cur: "current_orphans mm = mm_list mm ! a # subl (mm_list mm) (Suc a) (b - Suc a)"
      using subl_Cons [of a b "mm_list mm"] inv by (simp add: current_orphans_def queue_of_def d_def a_def b_def)
    show ?thesis
    proof (cases "op_orphaned_at (mm_list mm ! a) \<le> threshold")
      case False
      then show ?thesis
        using lt inv cur assms by (simp add: orphans_pop_def actual_orphans_range_def d_def a_def b_def Let_def)
    next
      case True
      define mm' where "mm' = update_dirty (\<lambda>m. m\<lparr>ms_reclaimed_orphans_len := ms_reclaimed_orphans_len m + 1\<rparr>) mm"
      have u: "unat (ms_reclaimed_orphans_len d + 1) = Suc a"
        unfolding a_def by (rule unat_inc [of _ "length (mm_list mm)"]) (use lt inv a_def in auto)
      have dm: "hs_meta (dirty_slot mm') = d\<lparr>ms_reclaimed_orphans_len := ms_reclaimed_orphans_len d + 1\<rparr>" "active_slot mm' = active_slot mm"
        "mm_list mm' = mm_list mm" "mm_active mm' = mm_active mm"
        by (simp_all add: mm'_def d_def)
      have "orphans_pop threshold mm = (Ok (Some (mm_list mm ! a)), mm')"
        using lt inv True by (simp add: orphans_pop_def actual_orphans_range_def d_def a_def b_def Let_def mm'_def)
      moreover have "current_orphans mm' = subl (mm_list mm) (Suc a) (b - Suc a)"
        by (simp add: current_orphans_def queue_of_def dm u b_def)
      moreover have "mm_inv E mm'"
        using assms lt u a_def b_def by (auto simp: mm_inv_def range_ok_def dm unat_le d_def)
      moreover have "committed_orphans mm' = committed_orphans mm" by (simp add: committed_orphans_def dm)
      moreover have "hs_hash (dirty_slot mm') = hs_hash (dirty_slot mm)" "ms_snapshot_id (hs_meta (dirty_slot mm')) = ms_snapshot_id d"
        by (simp_all add: mm'_def d_def)
      ultimately show ?thesis using cur True dm(2,3) by (simp add: d_def)
    qed
  qed
qed

subsection \<open>Commit and recovery\<close>

lemma queue_of_prefix_write:
  assumes "length ys \<le> unat (ms_reclaimed_orphans_len m)" and "range_ok m (length xs)"
  shows "queue_of m (write_at xs 0 ys) = queue_of m xs"
  using assms unfolding queue_of_def range_ok_def unat_le by (intro subl_write_at_disjoint) auto

lemma compact_orphans_spec:
  assumes "mm_inv E mm"
  shows "\<exists>mm'. compact_orphans mm = (Ok (), mm') \<and> active_slot mm' = active_slot mm \<and> mm_active mm' = mm_active mm \<and>
    length (mm_list mm') = length (mm_list mm) \<and> range_ok (hs_meta (dirty_slot mm')) (length (mm_list mm)) \<and>
    current_orphans mm' = current_orphans mm \<and> committed_orphans mm' = committed_orphans mm \<and>
    (\<exists>n k. hs_meta (dirty_slot mm') = (hs_meta (dirty_slot mm))\<lparr>ms_orphan_pages_len := n, ms_reclaimed_orphans_len := k\<rparr>) \<and>
    hs_hash (dirty_slot mm') = hs_hash (dirty_slot mm)"
proof -
  define d a where "d = hs_meta (dirty_slot mm)" and "a = hs_meta (active_slot mm)"
  define s t where "s = unat (ms_reclaimed_orphans_len d)" and "t = unat (ms_orphan_pages_len d)"
  have inv: "s \<le> t" "t \<le> length (mm_list mm)" "range_ok a (length (mm_list mm))" "length (mm_list mm) < 2 ^ 31"
    using assms by (simp_all add: mm_inv_def range_ok_def d_def a_def s_def t_def unat_le)
  show ?thesis
  proof (cases "t - s \<le> unat (ms_reclaimed_orphans_len a)")
    case True
    define d' where "d' = d\<lparr>ms_orphan_pages_len := of_nat (t - s), ms_reclaimed_orphans_len := 0\<rparr>"
    define xs where "xs = write_at (mm_list mm) 0 (subl (mm_list mm) s (t - s))"
    define mm' where "mm' = (set_dirty_slot ((dirty_slot mm)\<lparr>hs_meta := d'\<rparr>) mm)\<lparr>mm_list := xs\<rparr>"
    have len: "length (subl (mm_list mm) s (t - s)) = t - s" "length xs = length (mm_list mm)"
      using inv by (simp_all add: xs_def)
    have u: "unat (of_nat (t - s) :: u32) = t - s" using inv by (simp add: unat_of_nat del: of_nat_diff)
    have "compact_orphans mm = (Ok (), mm')"
      using True inv by (simp add: compact_orphans_def actual_orphans_range_def orphans_copy_within_def Let_def
          d_def a_def s_def t_def d'_def xs_def mm'_def)
    moreover have "current_orphans mm' = current_orphans mm"
      using inv len u by (simp add: current_orphans_def queue_of_def mm'_def d'_def d_def [symmetric] s_def [symmetric]
          t_def [symmetric] xs_def subl_write_at_same)
    moreover have "committed_orphans mm' = committed_orphans mm"
      using True inv len by (simp add: committed_orphans_def mm'_def a_def [symmetric] xs_def queue_of_prefix_write)
    moreover have "range_ok d' (length (mm_list mm))"
      using inv u by (simp add: range_ok_def d'_def)
    ultimately show ?thesis
      using len by (auto simp: mm'_def d'_def d_def)
  next
    case False
    then have "compact_orphans mm = (Ok (), mm)"
      by (simp add: compact_orphans_def actual_orphans_range_def Let_def d_def a_def s_def t_def)
    moreover have "hs_meta (dirty_slot mm) = (hs_meta (dirty_slot mm))
        \<lparr>ms_orphan_pages_len := ms_orphan_pages_len d, ms_reclaimed_orphans_len := ms_reclaimed_orphans_len d\<rparr>"
      by (simp add: d_def)
    ultimately show ?thesis using assms unfolding mm_inv_def by blast
  qed
qed

lemma verify_update_hash: "range_ok (hs_meta s) n \<Longrightarrow> verify_integrity E (update_hash E s) = Ok ()"
  by (auto simp: verify_integrity_def update_hash_def range_ok_def not_less [symmetric])

text \<open>The state of the file when \<open>commit\<close> has written the hash of the dirty slot.\<close>

definition mm_hashed :: "externals \<Rightarrow> meta_manager \<Rightarrow> meta_manager" where
  "mm_hashed E mm = (let mm1 = snd (compact_orphans mm) in set_dirty_slot (update_hash E (dirty_slot mm1)) mm1)"

lemma mm_hashed_spec:
  assumes "mm_inv E mm"
  shows "active_slot (mm_hashed E mm) = active_slot mm" "mm_active (mm_hashed E mm) = mm_active mm"
    "length (mm_list (mm_hashed E mm)) = length (mm_list mm)"
    "range_ok (hs_meta (dirty_slot (mm_hashed E mm))) (length (mm_list mm))"
    "current_orphans (mm_hashed E mm) = current_orphans mm" "committed_orphans (mm_hashed E mm) = committed_orphans mm"
    "verify_integrity E (dirty_slot (mm_hashed E mm)) = Ok ()"
    "\<exists>n k. hs_meta (dirty_slot (mm_hashed E mm)) = (hs_meta (dirty_slot mm))\<lparr>ms_orphan_pages_len := n, ms_reclaimed_orphans_len := k\<rparr>"
proof -
  obtain mm1 where c: "compact_orphans mm = (Ok (), mm1)" "active_slot mm1 = active_slot mm" "mm_active mm1 = mm_active mm"
    "length (mm_list mm1) = length (mm_list mm)" "range_ok (hs_meta (dirty_slot mm1)) (length (mm_list mm))"
    "current_orphans mm1 = current_orphans mm" "committed_orphans mm1 = committed_orphans mm"
    "\<exists>n k. hs_meta (dirty_slot mm1) = (hs_meta (dirty_slot mm))\<lparr>ms_orphan_pages_len := n, ms_reclaimed_orphans_len := k\<rparr>"
    using compact_orphans_spec [OF assms] by blast
  have h: "mm_hashed E mm = set_dirty_slot (update_hash E (dirty_slot mm1)) mm1" by (simp add: mm_hashed_def c(1))
  show "active_slot (mm_hashed E mm) = active_slot mm" "mm_active (mm_hashed E mm) = mm_active mm"
    "length (mm_list (mm_hashed E mm)) = length (mm_list mm)"
    "range_ok (hs_meta (dirty_slot (mm_hashed E mm))) (length (mm_list mm))"
    "current_orphans (mm_hashed E mm) = current_orphans mm" "committed_orphans (mm_hashed E mm) = committed_orphans mm"
    "verify_integrity E (dirty_slot (mm_hashed E mm)) = Ok ()"
    "\<exists>n k. hs_meta (dirty_slot (mm_hashed E mm)) = (hs_meta (dirty_slot mm))\<lparr>ms_orphan_pages_len := n, ms_reclaimed_orphans_len := k\<rparr>"
    using c verify_update_hash [OF c(5)] by (simp_all add: h update_hash_def current_orphans_def committed_orphans_def)
qed

lemma mm_commit_eq:
  assumes "mm_inv E mm" and "unat (ms_snapshot_id (hs_meta (dirty_slot mm))) + 1 < 2 ^ 64"
  shows "mm_commit E True mm =
    (Ok (), let h = dirty_slot (mm_hashed E mm) in
       set_dirty_slot (h\<lparr>hs_meta := (hs_meta h)\<lparr>ms_snapshot_id := ms_snapshot_id (hs_meta h) + 1\<rparr>\<rparr>) (swap_active (mm_hashed E mm)))"
proof -
  have act: "mm_active (mm_hashed E mm) \<le> 1" using assms(1) by (simp add: mm_hashed_spec [OF assms(1)] mm_inv_def)
  then have sw: "active_slot (swap_active (mm_hashed E mm)) = dirty_slot (mm_hashed E mm)" by simp
  have "ms_snapshot_id (hs_meta (dirty_slot (mm_hashed E mm))) = ms_snapshot_id (hs_meta (dirty_slot mm))"
    using mm_hashed_spec(8) [OF assms(1)] by auto
  then have "populate_dirty_slot (swap_active (mm_hashed E mm)) =
      (Ok (), let h = dirty_slot (mm_hashed E mm) in
       set_dirty_slot (h\<lparr>hs_meta := (hs_meta h)\<lparr>ms_snapshot_id := ms_snapshot_id (hs_meta h) + 1\<rparr>\<rparr>) (swap_active (mm_hashed E mm)))"
    using populate_dirty_slot_eq [of "swap_active (mm_hashed E mm)"] assms(2) sw by (simp add: Let_def)
  moreover obtain mm1 where "compact_orphans mm = (Ok (), mm1)" using compact_orphans_spec [OF assms(1)] by blast
  ultimately show ?thesis by (simp add: mm_commit_def mm_hashed_def Let_def)
qed

lemma mm_commit_ok:
  assumes "mm_inv E mm" and "unat (ms_snapshot_id (hs_meta (dirty_slot mm))) + 1 < 2 ^ 64"
  shows "\<exists>mm'. mm_commit E True mm = (Ok (), mm') \<and> mm_inv E mm' \<and>
    current_orphans mm' = current_orphans mm \<and> committed_orphans mm' = current_orphans mm \<and>
    length (mm_list mm') = length (mm_list mm) \<and>
    (\<exists>n k. hs_meta (active_slot mm') = (hs_meta (dirty_slot mm))\<lparr>ms_orphan_pages_len := n, ms_reclaimed_orphans_len := k\<rparr>) \<and>
    hs_meta (dirty_slot mm') = (hs_meta (active_slot mm'))\<lparr>ms_snapshot_id := ms_snapshot_id (hs_meta (dirty_slot mm)) + 1\<rparr>"
proof -
  note h = mm_hashed_spec [OF assms(1)]
  define s where "s = dirty_slot (mm_hashed E mm)"
  define mm' where "mm' = set_dirty_slot (s\<lparr>hs_meta := (hs_meta s)\<lparr>ms_snapshot_id := ms_snapshot_id (hs_meta s) + 1\<rparr>\<rparr>) (swap_active (mm_hashed E mm))"
  have act: "mm_active (mm_hashed E mm) \<le> 1" using assms(1) h(2) by (simp add: mm_inv_def)
  have m: "active_slot mm' = s" "mm_list mm' = mm_list (mm_hashed E mm)" "mm_active mm' \<le> 1"
    "dirty_slot mm' = s\<lparr>hs_meta := (hs_meta s)\<lparr>ms_snapshot_id := ms_snapshot_id (hs_meta s) + 1\<rparr>\<rparr>"
    using act slot_swap(4) [OF act] by (simp_all add: mm'_def s_def)
  have snap: "ms_snapshot_id (hs_meta s) = ms_snapshot_id (hs_meta (dirty_slot mm))" using h(8) by (auto simp: s_def)
  have len: "length (mm_list mm) < 2 ^ 31" using assms(1) by (simp add: mm_inv_def)
  have inv: "mm_inv E mm'"
    using h(3,4,7) len m(3) by (simp add: mm_inv_def m(1,2,4) s_def range_ok_def)
  have q: "queue_of (hs_meta s) (mm_list (mm_hashed E mm)) = current_orphans mm"
    using h(5) by (simp add: current_orphans_def s_def)
  have "current_orphans mm' = current_orphans mm" "committed_orphans mm' = current_orphans mm"
    using q by (simp_all add: current_orphans_def [of mm'] committed_orphans_def m queue_of_def)
  moreover have "mm_commit E True mm = (Ok (), mm')" using mm_commit_eq [OF assms] by (simp add: mm'_def s_def Let_def)
  ultimately show ?thesis using inv h(3,8) m snap by (auto simp: s_def)
qed

lemma le_bytes_zero: "x \<noteq> 0 \<Longrightarrow> \<not> list_all (\<lambda>b. b = 0) (le_bytes_u64 x)"
proof
  assume x: "x \<noteq> 0" and z: "list_all (\<lambda>b. b = 0) (le_bytes_u64 x)"
  have "\<not> bit x n" for n
  proof (cases "n < 64")
    case True
    define i where "i = n div 8"
    have i: "i < 8" "n = 8 * i + n mod 8" using True by (simp_all add: i_def)
    then have "(ucast (drop_bit (8 * i) x) :: byte) = 0" using z by (auto simp: le_bytes_u64_def list_all_iff)
    then have "\<not> bit (ucast (drop_bit (8 * i) x) :: byte) (n mod 8)" by simp
    then show ?thesis using i(2) by (simp add: bit_ucast_iff bit_drop_bit_eq)
  qed (auto dest: bit_imp_le_length)
  then have "x = 0" by (intro bit_word_eqI) simp
  with x show False by simp
qed

text \<open>Reopening the file.\<close>

definition mm_reopen :: "externals \<Rightarrow> meta_manager \<Rightarrow> (meta_manager, metadata_error) result" where
  "mm_reopen E mm = mm_from_file E (mm_slot0 mm) (mm_slot1 mm) (mm_list mm)"

lemma latest_active:
  assumes "mm_active mm \<le> 1" and "verify_integrity E (active_slot mm) = Ok ()" and "verify_integrity E (dirty_slot mm) \<noteq> Ok ()"
  shows "latest_slot_index E (mm_slot0 mm) (mm_slot1 mm) = Ok (mm_active mm)"
proof -
  have ne: "\<not> slot_is_empty (dirty_slot mm)" using assms(3) by (auto simp: verify_integrity_def)
  have "verify_integrity E (dirty_slot mm) = Err Corrupted" using assms(3) by (auto simp: verify_integrity_def split: if_splits)
  with ne assms(1,2) show ?thesis
    by (cases "mm_active mm") (auto simp: latest_slot_index_def active_slot_def dirty_slot_def)
qed

lemma latest_dirty:
  assumes "mm_active mm \<le> 1" and "verify_integrity E (active_slot mm) = Ok ()" and "verify_integrity E (dirty_slot mm) = Ok ()"
    and "ms_snapshot_id (hs_meta (active_slot mm)) < ms_snapshot_id (hs_meta (dirty_slot mm))"
  shows "latest_slot_index E (mm_slot0 mm) (mm_slot1 mm) = Ok (1 - mm_active mm)"
proof -
  have "ms_snapshot_id (hs_meta (dirty_slot mm)) \<noteq> 0" using assms(4) by auto
  then have "\<not> slot_is_empty (dirty_slot mm)"
    using le_bytes_zero by (auto simp: slot_is_empty_def slot_bytes_def)
  with assms show ?thesis
    by (cases "mm_active mm") (auto simp: latest_slot_index_def active_slot_def dirty_slot_def)
qed

lemma reopen_at:
  assumes "latest_slot_index E (mm_slot0 mm) (mm_slot1 mm) = Ok i" and "i \<le> 1"
    and "s = (if i = 0 then mm_slot0 mm else mm_slot1 mm)" and "unat (ms_snapshot_id (hs_meta s)) + 1 < 2 ^ 64"
  shows "\<exists>mm'. mm_reopen E mm = Ok mm' \<and> active_slot mm' = s \<and> mm_list mm' = mm_list mm \<and> mm_active mm' = i \<and>
    dirty_slot mm' = s\<lparr>hs_meta := (hs_meta s)\<lparr>ms_snapshot_id := ms_snapshot_id (hs_meta s) + 1\<rparr>\<rparr> \<and>
    committed_orphans mm' = queue_of (hs_meta s) (mm_list mm) \<and> current_orphans mm' = queue_of (hs_meta s) (mm_list mm)"
proof -
  define m0 where "m0 = \<lparr>mm_slot0 = mm_slot0 mm, mm_slot1 = mm_slot1 mm, mm_list = mm_list mm, mm_active = i\<rparr>"
  have a: "active_slot m0 = s" using assms(3) by (simp add: m0_def active_slot_def)
  have "populate_dirty_slot m0 = (Ok (), set_dirty_slot (s\<lparr>hs_meta := (hs_meta s)\<lparr>ms_snapshot_id := ms_snapshot_id (hs_meta s) + 1\<rparr>\<rparr>) m0)"
    using populate_dirty_slot_eq [of m0] assms(4) a by simp
  then have "mm_reopen E mm = Ok (set_dirty_slot (s\<lparr>hs_meta := (hs_meta s)\<lparr>ms_snapshot_id := ms_snapshot_id (hs_meta s) + 1\<rparr>\<rparr>) m0)"
    using assms(1) by (simp add: mm_reopen_def mm_from_file_def m0_def)
  then show ?thesis
    by (simp add: a committed_orphans_def current_orphans_def queue_of_def) (simp add: m0_def)
qed

subsection \<open>The interface of the orphan list\<close>

text \<open>
  What the storage engine relies on. The orphans of the running transaction form a queue with a guarded
  head; those of the last commit are what a crash falls back to.
\<close>

datatype 'o orphan_command = PushOrphan 'o | PopOrphan snapshot_id

locale orphan_queue =
  fixes inv :: "'m \<Rightarrow> bool"
    and current committed :: "'m \<Rightarrow> 'o list"
    and stamp :: "'o \<Rightarrow> snapshot_id"
    and push :: "'o \<Rightarrow> 'm \<Rightarrow> 'm option"
    and pop :: "snapshot_id \<Rightarrow> 'm \<Rightarrow> 'o option \<times> 'm"
  assumes push_inv: "inv m \<Longrightarrow> push x m = Some m' \<Longrightarrow> inv m'"
    and push_current: "inv m \<Longrightarrow> push x m = Some m' \<Longrightarrow> current m' = current m @ [x]"
    and push_committed: "inv m \<Longrightarrow> push x m = Some m' \<Longrightarrow> committed m' = committed m"
    and pop_inv: "inv m \<Longrightarrow> inv (snd (pop t m))"
    and pop_head: "inv m \<Longrightarrow> fst (pop t m) =
      (case current m of x # _ \<Rightarrow> if stamp x \<le> t then Some x else None | [] \<Rightarrow> None)"
    and pop_current: "inv m \<Longrightarrow> current (snd (pop t m)) =
      (case current m of x # xs \<Rightarrow> if stamp x \<le> t then xs else x # xs | [] \<Rightarrow> [])"
    and pop_committed: "inv m \<Longrightarrow> committed (snd (pop t m)) = committed m"
begin

text \<open>A sequence of commands; the result collects what was pushed and what was popped.\<close>

primrec run :: "'o orphan_command list \<Rightarrow> 'm \<Rightarrow> 'o list \<times> 'o list \<times> 'm" where
  "run [] m = ([], [], m)"
| "run (c # cs) m =
     (case c of
        PushOrphan x \<Rightarrow> (case push x m of
            Some m1 \<Rightarrow> (case run cs m1 of (ins, outs, m2) \<Rightarrow> (x # ins, outs, m2))
          | None \<Rightarrow> run cs m)
      | PopOrphan t \<Rightarrow> (case run cs (snd (pop t m)) of (ins, outs, m2) \<Rightarrow>
            (ins, (case fst (pop t m) of Some y \<Rightarrow> y # outs | None \<Rightarrow> outs), m2)))"

text \<open>
  What was popped, followed by what is left, is what was there followed by what was pushed, in order;
  nothing of the committed queue has changed, and everything popped is old enough.
\<close>

lemma run_conserves:
  assumes "inv m" and "run cs m = (ins, outs, m')"
  shows "inv m' \<and> committed m' = committed m \<and> outs @ current m' = current m @ ins"
  using assms
proof (induction cs arbitrary: m ins outs m')
  case Nil
  then show ?case by simp
next
  case (Cons c cs)
  show ?case
  proof (cases c)
    case (PushOrphan x)
    then show ?thesis
      using Cons.IH Cons.prems push_inv [OF Cons.prems(1), of x] push_current [OF Cons.prems(1), of x] push_committed [OF Cons.prems(1), of x]
      by (fastforce split: option.splits prod.splits)
  next
    case (PopOrphan t)
    obtain zs where r: "run cs (snd (pop t m)) = (ins, zs, m')" "outs = (case fst (pop t m) of Some y \<Rightarrow> y # zs | None \<Rightarrow> zs)"
      using Cons.prems(2) PopOrphan by (auto split: prod.splits)
    show ?thesis
      using Cons.IH [OF pop_inv [OF Cons.prems(1)] r(1)] r(2) Cons.prems(1)
      by (auto simp: pop_head pop_current pop_committed split: list.splits if_splits)
  qed
qed

lemma run_stamps:
  assumes "inv m" and "run cs m = (ins, outs, m')" and "\<forall>t. PopOrphan t \<in> set cs \<longrightarrow> t \<le> T" and "y \<in> set outs"
  shows "stamp y \<le> T"
  using assms
proof (induction cs arbitrary: m ins outs m')
  case Nil
  then show ?case by simp
next
  case (Cons c cs)
  show ?case
  proof (cases c)
    case (PushOrphan x)
    then show ?thesis
      using Cons.IH Cons.prems push_inv [OF Cons.prems(1), of x] by (fastforce split: option.splits prod.splits)
  next
    case (PopOrphan t)
    obtain zs where r: "run cs (snd (pop t m)) = (ins, zs, m')" "outs = (case fst (pop t m) of Some y \<Rightarrow> y # zs | None \<Rightarrow> zs)"
      using Cons.prems(2) PopOrphan by (auto split: prod.splits)
    have "stamp z \<le> T" if "fst (pop t m) = Some z" for z
      using that Cons.prems(1,3) PopOrphan by (fastforce simp: pop_head split: list.splits if_splits)
    then show ?thesis
      using Cons.IH [OF pop_inv [OF Cons.prems(1)] r(1)] Cons.prems(3,4) r(2) by (auto split: option.splits)
  qed
qed

end

definition try_push :: "(nat \<Rightarrow> bool) \<Rightarrow> orphan_page \<Rightarrow> meta_manager \<Rightarrow> meta_manager option" where
  "try_push io_ok x mm = (case orphans_push io_ok x mm of (Ok _, mm') \<Rightarrow> Some mm' | _ \<Rightarrow> None)"

definition try_pop :: "snapshot_id \<Rightarrow> meta_manager \<Rightarrow> orphan_page option \<times> meta_manager" where
  "try_pop t mm = (case orphans_pop t mm of (Ok r, mm') \<Rightarrow> (r, mm') | (_, mm') \<Rightarrow> (None, mm'))"

lemma try_push_SomeD:
  assumes "try_push io_ok x mm = Some mm'" and "mm_inv E mm" and "bounded_io io_ok"
  shows "mm_inv E mm'" "current_orphans mm' = current_orphans mm @ [x]" "committed_orphans mm' = committed_orphans mm"
  using assms by (auto simp: try_push_def elim!: orphans_push_cases [of E mm io_ok x])

lemma try_pop_eq:
  assumes "mm_inv E mm"
  shows "mm_inv E (snd (try_pop t mm))" "committed_orphans (snd (try_pop t mm)) = committed_orphans mm"
    "fst (try_pop t mm) = (case current_orphans mm of x # _ \<Rightarrow> if op_orphaned_at x \<le> t then Some x else None | [] \<Rightarrow> None)"
    "current_orphans (snd (try_pop t mm)) = (case current_orphans mm of x # xs \<Rightarrow> if op_orphaned_at x \<le> t then xs else x # xs | [] \<Rightarrow> [])"
  using orphans_pop_ok [OF assms, of t] by (auto simp: try_pop_def)

interpretation orphans: orphan_queue "\<lambda>mm. mm_inv E mm \<and> bounded_io io_ok" current_orphans committed_orphans op_orphaned_at
  "try_push io_ok" try_pop
  for E io_ok
  by unfold_locales (auto simp: try_pop_eq dest: try_push_SomeD)

text \<open>The calls of a transaction on the list, in order.\<close>

primrec run_orphans :: "(nat \<Rightarrow> bool) \<Rightarrow> orphan_page orphan_command list \<Rightarrow> meta_manager \<Rightarrow> orphan_page list \<times> orphan_page list \<times> meta_manager" where
  "run_orphans io_ok [] mm = ([], [], mm)"
| "run_orphans io_ok (c # cs) mm =
     (case c of
        PushOrphan x \<Rightarrow> (case orphans_push io_ok x mm of
            (Ok _, mm1) \<Rightarrow> (case run_orphans io_ok cs mm1 of (ins, outs, mm2) \<Rightarrow> (x # ins, outs, mm2))
          | _ \<Rightarrow> run_orphans io_ok cs mm)
      | PopOrphan t \<Rightarrow> (case orphans_pop t mm of
            (Ok (Some y), mm1) \<Rightarrow> (case run_orphans io_ok cs mm1 of (ins, outs, mm2) \<Rightarrow> (ins, y # outs, mm2))
          | (_, mm1) \<Rightarrow> run_orphans io_ok cs mm1))"

lemma run_orphans_Cons:
  "run_orphans io_ok (c # cs) mm =
     (case c of
        PushOrphan x \<Rightarrow> (case try_push io_ok x mm of
            Some mm1 \<Rightarrow> (case run_orphans io_ok cs mm1 of (ins, outs, mm2) \<Rightarrow> (x # ins, outs, mm2))
          | None \<Rightarrow> run_orphans io_ok cs mm)
      | PopOrphan t \<Rightarrow> (case run_orphans io_ok cs (snd (try_pop t mm)) of (ins, outs, mm2) \<Rightarrow>
            (ins, (case fst (try_pop t mm) of Some y \<Rightarrow> y # outs | None \<Rightarrow> outs), mm2)))"
  by (auto simp: try_push_def try_pop_def split: orphan_command.split prod.split result.split option.split)

lemma run_orphans_eq: "run_orphans io_ok cs mm = orphans.run io_ok cs mm"
  by (induction cs arbitrary: mm) (simp_all add: run_orphans_Cons del: run_orphans.simps(2) split: orphan_command.split option.split)

lemma reopen_active:
  assumes "mm_active mm \<le> 1" and "verify_integrity E (active_slot mm) = Ok ()" and "verify_integrity E (dirty_slot mm) \<noteq> Ok ()"
    and "unat (ms_snapshot_id (hs_meta (active_slot mm))) + 1 < 2 ^ 64"
  shows "\<exists>mm'. mm_reopen E mm = Ok mm' \<and> active_slot mm' = active_slot mm \<and> current_orphans mm' = committed_orphans mm"
  using reopen_at [OF latest_active [OF assms(1,2,3)] assms(1) active_slot_def assms(4)] by (auto simp: committed_orphans_def)

lemma reopen_hashed:
  assumes "mm_inv E mm" and "unat (ms_snapshot_id (hs_meta (dirty_slot mm))) + 1 < 2 ^ 64"
    and "ms_snapshot_id (hs_meta (active_slot mm)) < ms_snapshot_id (hs_meta (dirty_slot mm))"
  shows "mm_reopen E (mm_hashed E mm) = Ok (snd (mm_commit E True mm))"
proof -
  define h where "h = mm_hashed E mm"
  note H = mm_hashed_spec [OF assms(1), folded h_def]
  have act: "mm_active h \<le> 1" "verify_integrity E (active_slot h) = Ok ()" using assms(1) H(1,2) by (simp_all add: mm_inv_def)
  have sid: "ms_snapshot_id (hs_meta (dirty_slot h)) = ms_snapshot_id (hs_meta (dirty_slot mm))" using H(8) by auto
  have idx: "latest_slot_index E (mm_slot0 h) (mm_slot1 h) = Ok (1 - mm_active h)"
    by (rule latest_dirty [OF act H(7)]) (use assms(3) sid H(1) in simp)
  have sw: "\<lparr>mm_slot0 = mm_slot0 h, mm_slot1 = mm_slot1 h, mm_list = mm_list h, mm_active = 1 - mm_active h\<rparr> = swap_active h"
    by (simp add: swap_active_def)
  have "populate_dirty_slot (swap_active h) = mm_commit E True mm"
    using compact_orphans_spec [OF assms(1)] by (auto simp: mm_commit_def h_def mm_hashed_def Let_def)
  then show ?thesis
    using idx mm_commit_eq [OF assms(1,2)] by (simp add: mm_reopen_def mm_from_file_def h_def [symmetric] sw [simplified])
qed

subsection \<open>Properties\<close>

text \<open>A freshly created file with room for four orphans.\<close>

definition sample_meta :: meta_manager where
  "sample_meta =
     \<lparr>mm_slot0 = zero_slot, mm_slot1 = zero_slot\<lparr>hs_meta := (hs_meta zero_slot)\<lparr>ms_snapshot_id := 1\<rparr>\<rparr>,
      mm_list = replicate 4 zero_orphan, mm_active = 0\<rparr>"

lemma sample_meta_slots [simp]:
  "active_slot sample_meta = zero_slot"
  "dirty_slot sample_meta = zero_slot\<lparr>hs_meta := (hs_meta zero_slot)\<lparr>ms_snapshot_id := 1\<rparr>\<rparr>"
  "mm_list sample_meta = replicate 4 zero_orphan" "mm_active sample_meta = 0"
  by (simp_all add: sample_meta_def active_slot_def dirty_slot_def)

lemma zero_slot_empty: "slot_is_empty zero_slot"
  by code_simp

lemma sample_meta_inv: "mm_inv E sample_meta"
  using zero_slot_empty by (simp add: mm_inv_def range_ok_def verify_integrity_def zero_slot_def)

lemma sample_meta_dirty: "verify_integrity sample_externals (dirty_slot sample_meta) = Err Corrupted"
  unfolding sample_meta_slots by code_simp

text \<open>
  C18. Whatever sequence of pushes and pops a transaction performs on the orphan list, growing the file
  or failing to: the pages popped, followed by those left, are those there before followed by those
  pushed, in order; only pages orphaned no later than the largest threshold are popped; and the list of
  the last committed slot, which a crash falls back to, is untouched.
\<close>

theorem orphan_list_conserved:
  assumes "mm_inv E mm" and "bounded_io io_ok" and "run_orphans io_ok cs mm = (ins, outs, mm')"
    and "\<forall>t. PopOrphan t \<in> set cs \<longrightarrow> t \<le> T"
  shows "mm_inv E mm' \<and> outs @ current_orphans mm' = current_orphans mm @ ins \<and>
    committed_orphans mm' = committed_orphans mm \<and> (\<forall>y \<in> set outs. op_orphaned_at y \<le> T)"
proof -
  have r: "orphans.run io_ok cs mm = (ins, outs, mm')" using assms(3) by (simp add: run_orphans_eq)
  have i: "mm_inv E mm \<and> bounded_io io_ok" using assms(1,2) by simp
  show ?thesis using orphans.run_conserves [OF i r] orphans.run_stamps [OF i r assms(4)] by blast
qed

theorem orphan_list_conserved_witness:
  "\<exists>mm'. run_orphans (\<lambda>_. False) [PushOrphan (orphan_page_new 7 1), PopOrphan 0, PopOrphan 1] sample_meta =
     ([orphan_page_new 7 1], [orphan_page_new 7 1], mm') \<and> current_orphans mm' = []"
proof -
  define cs where "cs = [PushOrphan (orphan_page_new 7 1), PopOrphan 0, PopOrphan 1]"
  obtain ins outs mm' where r: "run_orphans (\<lambda>_. False) cs sample_meta = (ins, outs, mm')" by (cases "run_orphans (\<lambda>_. False) cs sample_meta")
  have e: "ins = [orphan_page_new 7 1] \<and> outs = [orphan_page_new 7 1]"
    using r by (auto simp: cs_def orphans_push_def push_within_capacity_def actual_orphans_range_def zero_slot_def
        orphans_pop_def orphan_page_new_def Let_def)
  have "bounded_io (\<lambda>_. False)" by (simp add: bounded_io_def)
  from orphan_list_conserved [OF sample_meta_inv this r, of 1] show ?thesis
    using r e by (auto simp: cs_def current_orphans_def queue_of_def zero_slot_def subl_def)
qed

text \<open>
  C17. \<open>commit\<close> succeeds and promotes the dirty slot: the orphans of the transaction become the
  committed ones, in the same order, whether or not the list is compacted; the rest of the slot is
  published unchanged with a valid hash; the new dirty slot is a copy with the next snapshot.
\<close>

theorem metadata_commit_spec:
  assumes "mm_inv E mm" and "unat (ms_snapshot_id (hs_meta (dirty_slot mm))) + 1 < 2 ^ 64"
  shows "\<exists>mm'. mm_commit E True mm = (Ok (), mm') \<and> mm_inv E mm' \<and>
    committed_orphans mm' = current_orphans mm \<and> current_orphans mm' = current_orphans mm \<and>
    (\<exists>n k. hs_meta (active_slot mm') = (hs_meta (dirty_slot mm))\<lparr>ms_orphan_pages_len := n, ms_reclaimed_orphans_len := k\<rparr>) \<and>
    hs_meta (dirty_slot mm') = (hs_meta (active_slot mm'))\<lparr>ms_snapshot_id := ms_snapshot_id (hs_meta (dirty_slot mm)) + 1\<rparr>"
  using mm_commit_ok [OF assms] by blast

theorem metadata_commit_spec_witness:
  "\<exists>mm'. mm_commit sample_externals True sample_meta = (Ok (), mm') \<and>
     ms_snapshot_id (hs_meta (dirty_slot mm')) = 2"
  using metadata_commit_spec [OF sample_meta_inv, of sample_externals] by auto

text \<open>
  C16. Crash safety. Reopening the file finds the last committed slot and its orphans as long as the
  hash of the dirty slot does not match its contents, also when the crash came after the orphan list was
  compacted; once \<open>commit\<close> has written the hash, reopening gives exactly the state that the completed
  commit would have reached.
\<close>

theorem metadata_crash_recovery:
  assumes "mm_inv E mm" and "unat (ms_snapshot_id (hs_meta (dirty_slot mm))) + 1 < 2 ^ 64"
    and "ms_snapshot_id (hs_meta (active_slot mm)) < ms_snapshot_id (hs_meta (dirty_slot mm))"
  shows "(verify_integrity E (dirty_slot mm) \<noteq> Ok () \<longrightarrow>
      (\<exists>mm'. mm_reopen E mm = Ok mm' \<and> active_slot mm' = active_slot mm \<and> current_orphans mm' = committed_orphans mm)) \<and>
    (verify_integrity E (dirty_slot (snd (compact_orphans mm))) \<noteq> Ok () \<longrightarrow>
      (\<exists>mm'. mm_reopen E (snd (compact_orphans mm)) = Ok mm' \<and> active_slot mm' = active_slot mm \<and>
         current_orphans mm' = committed_orphans mm)) \<and>
    mm_reopen E (mm_hashed E mm) = Ok (snd (mm_commit E True mm))"
proof -
  obtain mm1 where c: "compact_orphans mm = (Ok (), mm1)" "active_slot mm1 = active_slot mm" "mm_active mm1 = mm_active mm"
    "committed_orphans mm1 = committed_orphans mm"
    using compact_orphans_spec [OF assms(1)] by blast
  have act: "mm_active mm \<le> 1" "verify_integrity E (active_slot mm) = Ok ()" using assms(1) by (simp_all add: mm_inv_def)
  have s: "unat (ms_snapshot_id (hs_meta (active_slot mm))) + 1 < 2 ^ 64"
    using assms(2,3) by (simp add: word_less_nat_alt)
  show ?thesis
    using reopen_active [of mm E] reopen_active [of mm1 E] reopen_hashed [OF assms] act s c by simp
qed

theorem metadata_crash_recovery_witness:
  "(\<exists>mm'. mm_reopen sample_externals sample_meta = Ok mm' \<and> active_slot mm' = zero_slot) \<and>
   mm_reopen sample_externals (mm_hashed sample_externals sample_meta) = Ok (snd (mm_commit sample_externals True sample_meta))"
  using metadata_crash_recovery [OF sample_meta_inv, of sample_externals] sample_meta_dirty
  by (auto simp: zero_slot_def)

end
