(* ===== verification/Storage_Engine.thy ===== *)
theory Storage_Engine
  imports Page_Manager Metadata Slotted_Page_Spec
begin

text \<open>
  The storage engine without its read and write algorithms: \<open>src/src/context.rs\<close>,
  \<open>src/src/storage/engine/engine.rs\<close>, \<open>error.rs\<close>, \<open>helpers.rs\<close> and \<open>page_ops.rs\<close>.

  The state is the record \<open>world\<close>: the page manager, the metadata manager and the reclamation
  threshold of the engine, and the context of the running transaction (without its metrics). An
  operation is an action, a function from worlds to an outcome and a world. A \<open>PageMut\<close> or
  \<open>SlottedPageMut\<close> is the id of its page, its contents are those of the memory map, and the end of its
  scope is explicit (\<open>with_page\<close>, \<open>drop_on_error\<close>), since dropping a handle clears the dirty bit of the page. The
  outcomes of the calls on the two files are the arguments \<open>io\<close>.

  Recursive operations carry fuel; running out of it is \<open>Diverge\<close>. Inside one page a path visits at
  most 255 cells, which is why \<open>page_fuel\<close> is 256.
\<close>

subsection \<open>Errors\<close>

datatype engine_error =
    EIO
  | ENode node_error
  | EPage page_error
  | InvalidCommonPrefixIndex
  | InvalidSnapshotId
  | PageSplit nat
  | DebugError
  | ProofError

datatype pointer_change = PNone | PUpdate pointer | PDelete

subsection \<open>The transaction context\<close>

type_synonym 'v b512_map = "bytes \<rightharpoonup> 'v"

definition b512_insert :: "raw_path \<Rightarrow> 'v \<Rightarrow> 'v b512_map \<Rightarrow> ('v b512_map, 'e) result" where
  "b512_insert key v m = (if length (raw_path_nibbles key) = 64 then Ok (m(raw_path_nibbles key \<mapsto> v)) else Panic)"

definition b512_get :: "raw_path \<Rightarrow> 'v b512_map \<Rightarrow> ('v option, 'e) result" where
  "b512_get key m = (if length (raw_path_nibbles key) = 64 then Ok (m (raw_path_nibbles key)) else Panic)"

definition b512_remove :: "raw_path \<Rightarrow> 'v b512_map \<Rightarrow> ('v b512_map, 'e) result" where
  "b512_remove key m = (if length (raw_path_nibbles key) = 64 then Ok (m(raw_path_nibbles key := None)) else Panic)"

record transaction_context =
  cx_snapshot_id :: snapshot_id
  cx_root_node_hash :: bytes
  cx_root_node_page_id :: "page_id option"
  cx_page_count :: u32
  cx_cache :: "(page_id \<times> nat) b512_map"

definition context_new :: "metadata_slot \<Rightarrow> transaction_context" where
  "context_new m =
     \<lparr>cx_snapshot_id = ms_snapshot_id m, cx_root_node_hash = ms_root_node_hash m,
      cx_root_node_page_id = root_node_page_id m, cx_page_count = ms_page_count m, cx_cache = Map.empty\<rparr>"

definition update_metadata :: "transaction_context \<Rightarrow> metadata_slot \<Rightarrow> metadata_slot" where
  "update_metadata cx m =
     (set_root_node_page_id (cx_root_node_page_id cx)
       (m\<lparr>ms_snapshot_id := cx_snapshot_id cx, ms_root_node_hash := cx_root_node_hash cx\<rparr>))
     \<lparr>ms_page_count := cx_page_count cx\<rparr>"

definition context_clear_cache :: "transaction_context \<Rightarrow> transaction_context" where
  "context_clear_cache cx = cx\<lparr>cx_cache := Map.empty\<rparr>"

subsection \<open>The engine and its actions\<close>

record storage_engine =
  se_pages :: page_manager
  se_meta :: meta_manager
  se_alive :: snapshot_id

record world = storage_engine +
  w_cx :: transaction_context

record io_outcomes =
  io_page_file :: "nat \<Rightarrow> bool"
  io_meta_file :: "nat \<Rightarrow> bool"
  io_sync_pages :: bool
  io_sync_meta :: bool

definition engine_new :: "page_manager \<Rightarrow> meta_manager \<Rightarrow> storage_engine" where
  "engine_new pm mm = \<lparr>se_pages = pm, se_meta = mm, se_alive = ms_snapshot_id (hs_meta (active_slot mm))\<rparr>"

definition read_context :: "'a storage_engine_scheme \<Rightarrow> transaction_context" where
  "read_context st = context_new (hs_meta (active_slot (se_meta st)))"

definition write_context :: "'a storage_engine_scheme \<Rightarrow> transaction_context" where
  "write_context st = context_new (hs_meta (dirty_slot (se_meta st)))"

definition unlock :: "snapshot_id \<Rightarrow> storage_engine \<Rightarrow> storage_engine" where
  "unlock sid st = st\<lparr>se_alive := sid + 1\<rparr>"

definition engine_size :: "storage_engine \<Rightarrow> u32" where
  "engine_size st = pm_size (se_pages st)"

type_synonym 'a action = "world \<Rightarrow> ('a, engine_error) result \<times> world"

definition bindE :: "'a action \<Rightarrow> ('a \<Rightarrow> 'b action) \<Rightarrow> 'b action" where
  "bindE m f = (\<lambda>w. bind_state (m w) f)"

definition returnE :: "'a \<Rightarrow> 'a action" where
  "returnE x = (\<lambda>w. (Ok x, w))"

definition liftE :: "('a, engine_error) result \<Rightarrow> 'a action" where
  "liftE r = (\<lambda>w. (r, w))"

definition asks :: "(world \<Rightarrow> 'a) \<Rightarrow> 'a action" where
  "asks f = (\<lambda>w. (Ok (f w), w))"

definition modify_context :: "(transaction_context \<Rightarrow> transaction_context) \<Rightarrow> unit action" where
  "modify_context f = (\<lambda>w. (Ok (), w\<lparr>w_cx := f (w_cx w)\<rparr>))"

definition pages_action :: "(page_manager \<Rightarrow> ('a, page_error) result \<times> page_manager) \<Rightarrow> 'a action" where
  "pages_action f = (\<lambda>w. case f (se_pages w) of (r, pm) \<Rightarrow> (map_err EPage r, w\<lparr>se_pages := pm\<rparr>))"

definition meta_action :: "(meta_manager \<Rightarrow> ('a, metadata_error) result \<times> meta_manager) \<Rightarrow> 'a action" where
  "meta_action f = (\<lambda>w. case f (se_meta w) of (r, mm) \<Rightarrow> (map_err (\<lambda>_. EIO) r, w\<lparr>se_meta := mm\<rparr>))"

definition page_at :: "page_id \<Rightarrow> 'a storage_engine_scheme \<Rightarrow> raw_page" where
  "page_at p w = mmap (se_pages w) p"

definition put_page :: "page_id \<Rightarrow> raw_page \<Rightarrow> world \<Rightarrow> world" where
  "put_page p raw w = w\<lparr>se_pages := (se_pages w)\<lparr>mmap := (mmap (se_pages w))(p := raw)\<rparr>\<rparr>"

text \<open>Operations on the contents of a page the caller holds a handle of.\<close>

definition read_page :: "page_id \<Rightarrow> (bytes \<Rightarrow> ('a, page_error) result) \<Rightarrow> 'a action" where
  "read_page p f = (\<lambda>w. (map_err EPage (f (page_contents (page_at p w))), w))"

definition write_page :: "page_id \<Rightarrow> (bytes \<Rightarrow> ('a, page_error) result \<times> bytes) \<Rightarrow> 'a action" where
  "write_page p f = (\<lambda>w.
     case f (pg_data (page_at p w)) of (r, c) \<Rightarrow> (map_err EPage r, put_page p ((page_at p w)\<lparr>pg_data := c\<rparr>) w))"

text \<open>Dropping a handle.\<close>

definition drop_page :: "page_id \<Rightarrow> world \<Rightarrow> world" where
  "drop_page p w = put_page p (page_commit (page_at p w)) w"

definition with_page :: "page_id \<Rightarrow> 'a action \<Rightarrow> 'a action" where
  "with_page p m = (\<lambda>w. case m w of (r, w) \<Rightarrow> (r, drop_page p w))"

definition drop_on_error :: "page_id \<Rightarrow> 'a action \<Rightarrow> 'a action" where
  "drop_on_error p m = (\<lambda>w. case m w of (Ok x, w) \<Rightarrow> (Ok x, w) | (r, w) \<Rightarrow> (r, drop_page p w))"

fun for_each :: "('x \<Rightarrow> unit action) \<Rightarrow> 'x list \<Rightarrow> unit action" where
  "for_each f [] = returnE ()"
| "for_each f (x # xs) = bindE (f x) (\<lambda>_. for_each f xs)"

abbreviation get_node :: "externals \<Rightarrow> page_id \<Rightarrow> nat \<Rightarrow> node action" where
  "get_node E p i \<equiv> read_page p (\<lambda>c. get_value (node_ops E) c i)"

abbreviation put_node :: "externals \<Rightarrow> page_id \<Rightarrow> nat \<Rightarrow> node \<Rightarrow> unit action" where
  "put_node E p i n \<equiv> write_page p (\<lambda>c. set_value (node_ops E) c i n)"

abbreviation add_node :: "externals \<Rightarrow> page_id \<Rightarrow> node \<Rightarrow> nat action" where
  "add_node E p n \<equiv> write_page p (\<lambda>c. insert_value (node_ops E) c n)"

abbreviation delete_cell :: "page_id \<Rightarrow> nat \<Rightarrow> unit action" where
  "delete_cell p i \<equiv> write_page p (\<lambda>c. delete_value c i)"

abbreviation free_bytes :: "page_id \<Rightarrow> nat action" where
  "free_bytes p \<equiv> read_page p (\<lambda>c. Ok (num_free_bytes c))"

abbreviation node_result :: "('a, node_error) result \<Rightarrow> 'a action" where
  "node_result r \<equiv> liftE (map_err ENode r)"

definition panicE :: "'a action" where
  "panicE = liftE Panic"

definition pointer_cell_index :: "pointer \<Rightarrow> nat option" where
  "pointer_cell_index ptr = location_cell_index (ptr_location ptr)"

text \<open>\<open>location().page_id().unwrap()\<close>.\<close>

definition pointer_page_id :: "pointer \<Rightarrow> page_id action" where
  "pointer_page_id ptr = bindE (liftE (location_page_id (ptr_location ptr))) (\<lambda>p. liftE (unwrap_option p))"

subsection \<open>Page operations\<close>

definition get_page :: "page_id \<Rightarrow> page_id action" where
  "get_page p = pages_action (\<lambda>pm. (pm_get pm p, pm))"

definition get_mut_page :: "page_id \<Rightarrow> page_id action" where
  "get_mut_page p = bindE (asks (\<lambda>w. cx_snapshot_id (w_cx w))) (\<lambda>sid. pages_action (\<lambda>pm. pm_get_mut pm sid p))"

definition reuse_page :: "page_id \<Rightarrow> unit action" where
  "reuse_page p =
     bindE (asks (\<lambda>w. cx_snapshot_id (w_cx w))) (\<lambda>sid w.
       case page_set_snapshot_id sid (page_at p w) of
         (r, raw) \<Rightarrow> bind_state (map_err EPage r, put_page p raw w) (\<lambda>_ w.
           (Ok (), put_page p ((page_at p w)\<lparr>pg_data := replicate (length (pg_data (page_at p w))) 0\<rparr>) w)))"

definition allocate_page :: "io_outcomes \<Rightarrow> page_id action" where
  "allocate_page io =
     bindE (asks se_alive) (\<lambda>alive_snapshot.
     bindE (meta_action (orphans_pop alive_snapshot)) (\<lambda>orphan.
     bindE
       (case orphan of
          Some orphan \<Rightarrow>
            bindE (liftE (orphan_page_id orphan)) (\<lambda>orphaned_page_id.
            bindE (get_mut_page orphaned_page_id) (\<lambda>page.
              drop_on_error page (bindE (reuse_page page) (\<lambda>_. returnE page))))
        | None \<Rightarrow>
            bindE (asks (\<lambda>w. cx_snapshot_id (w_cx w))) (\<lambda>sid. pages_action (pm_allocate (io_page_file io) sid)))
       (\<lambda>page_to_return.
          bindE (asks (\<lambda>w. pm_size (se_pages w))) (\<lambda>n.
          bindE (modify_context (\<lambda>cx. cx\<lparr>cx_page_count := n\<rparr>)) (\<lambda>_. returnE page_to_return)))))"

definition engine_commit :: "externals \<Rightarrow> io_outcomes \<Rightarrow> unit action" where
  "engine_commit E io =
     (if \<not> io_sync_pages io then liftE (Err EIO)
      else bindE (asks w_cx) (\<lambda>cx. meta_action (\<lambda>mm.
        mm_commit E (io_sync_meta io) (update_dirty (update_metadata cx) mm))))"

definition orphan_page_action :: "io_outcomes \<Rightarrow> page_id \<Rightarrow> unit action" where
  "orphan_page_action io p =
     bindE (asks (\<lambda>w. cx_snapshot_id (w_cx w))) (\<lambda>sid.
       meta_action (orphans_push (io_meta_file io) (orphan_page_new p sid)))"

definition get_mut_clone :: "io_outcomes \<Rightarrow> page_id \<Rightarrow> page_id action" where
  "get_mut_clone io p =
     bindE (get_page p) (\<lambda>original_page.
     bindE (asks (\<lambda>w. cx_snapshot_id (w_cx w))) (\<lambda>sid.
     bindE (asks (page_at original_page)) (\<lambda>raw.
     bindE (liftE (map_err EPage (page_snapshot_id raw))) (\<lambda>original_snapshot.
       if original_snapshot = sid then pages_action (\<lambda>pm. pm_get_mut pm sid p)
       else
         bindE (allocate_page io) (\<lambda>new_page.
           drop_on_error new_page
             (bindE (asks (\<lambda>w. page_contents (page_at original_page w))) (\<lambda>contents.
              bindE (write_page new_page (\<lambda>_. (Ok (), contents))) (\<lambda>_.
              bindE (orphan_page_action io p) (\<lambda>_. returnE new_page)))))))))"

definition get_slotted_page :: "page_id \<Rightarrow> page_id action" where
  "get_slotted_page p = get_page p"

subsection \<open>Helpers\<close>

definition node_location :: "page_id \<Rightarrow> nat \<Rightarrow> location" where
  "node_location p i = (if i = 0 then location_for_page p else location_for_cell i)"

type_synonym change = "raw_path \<times> trie_value option"

definition find_shortest_common_prefix ::
  "(raw_path \<times> 'v) list \<Rightarrow> nat \<Rightarrow> node \<Rightarrow> (nat \<times> nat, 'e) result" where
  "find_shortest_common_prefix changes path_offset n =
     (if changes = [] then Panic
      else
        bind_result (raw_path_slice_from (fst (hd changes)) path_offset) (\<lambda>leftmost_path.
        bind_result (raw_path_slice_from (fst (last changes)) path_offset) (\<lambda>rightmost_path.
        bind_result (raw_path_of_nibbles (node_prefix n)) (\<lambda>node_prefix.
          let leftmost_prefix_length = common_prefix_length node_prefix leftmost_path;
              rightmost_prefix_length = common_prefix_length node_prefix rightmost_path in
          if leftmost_prefix_length \<le> rightmost_prefix_length then Ok (0, leftmost_prefix_length)
          else Ok (length changes - 1, rightmost_prefix_length)))))"

definition page_fuel :: nat where
  "page_fuel = 256"

fun count_children ::
  "(nat \<Rightarrow> (nat, engine_error) result) \<Rightarrow> (nat \<times> pointer) list \<Rightarrow> nat \<Rightarrow> (nat, engine_error) result" where
  "count_children rec [] n0 = Ok n0"
| "count_children rec ((_, ptr) # cs) n0 =
     (case pointer_cell_index ptr of
        Some child_index \<Rightarrow> bind_result (rec child_index) (\<lambda>n. count_children rec cs (u8_add n0 n))
      | None \<Rightarrow> count_children rec cs n0)"

fun count_subtrie_nodes :: "nat \<Rightarrow> externals \<Rightarrow> bytes \<Rightarrow> nat \<Rightarrow> (nat, engine_error) result" where
  "count_subtrie_nodes 0 E c root_index = Diverge"
| "count_subtrie_nodes (Suc fuel) E c root_index =
     bind_result (map_err EPage (get_value (node_ops E) c root_index)) (\<lambda>n.
       if \<not> has_children n then Ok 1
       else bind_result (map_err ENode (enumerate_children n)) (\<lambda>cs.
         count_children (count_subtrie_nodes fuel E c) cs 1))"

fun move_children :: "(nat \<Rightarrow> location action) \<Rightarrow> nat list \<Rightarrow> node \<Rightarrow> node action" where
  "move_children rec [] updated_node = returnE updated_node"
| "move_children rec (branch_index # is) updated_node =
     bindE (node_result (if is_account_leaf updated_node then direct_child updated_node
                         else node_child branch_index updated_node)) (\<lambda>child_ptr.
       case child_ptr of
         None \<Rightarrow> move_children rec is updated_node
       | Some ptr \<Rightarrow>
           (case pointer_cell_index ptr of
              None \<Rightarrow> move_children rec is updated_node
            | Some child_index \<Rightarrow>
                bindE (rec child_index) (\<lambda>new_location.
                bindE (node_result (set_child branch_index (pointer_new new_location (ptr_rlp ptr)) updated_node))
                  (move_children rec is))))"

fun move_subtrie_nodes :: "nat \<Rightarrow> externals \<Rightarrow> page_id \<Rightarrow> page_id \<Rightarrow> nat \<Rightarrow> location action" where
  "move_subtrie_nodes 0 E source target root_index = liftE Diverge"
| "move_subtrie_nodes (Suc fuel) E source target root_index =
     bindE (get_node E source root_index) (\<lambda>n.
     bindE (delete_cell source root_index) (\<lambda>_.
     bindE (add_node E target n) (\<lambda>new_index.
       if \<not> has_children n then returnE (node_location target new_index)
       else
         bindE (get_node E target new_index) (\<lambda>updated_node.
         bindE (move_children (move_subtrie_nodes fuel E source target)
                 (if is_branch updated_node then [0..<16] else [0..<1]) updated_node) (\<lambda>updated_node.
         bindE (put_node E target new_index updated_node) (\<lambda>_.
           returnE (node_location target new_index)))))))"

subsection \<open>Splitting a page\<close>

text \<open>The children of the root on the same page, with the sizes of their subtries, largest first.\<close>

fun split_candidates ::
  "externals \<Rightarrow> bytes \<Rightarrow> (nat \<times> pointer) list \<Rightarrow> ((nat \<times> pointer \<times> nat) list, engine_error) result" where
  "split_candidates E c [] = Ok []"
| "split_candidates E c ((i, ptr) # cs) =
     (case pointer_cell_index ptr of
        None \<Rightarrow> split_candidates E c cs
      | Some cell_index \<Rightarrow>
          (case count_subtrie_nodes page_fuel E c cell_index of
             Ok n \<Rightarrow> bind_result (split_candidates E c cs) (\<lambda>r. Ok ((i, ptr, n) # r))
           | Err _ \<Rightarrow> bind_result (split_candidates E c cs) (\<lambda>r. Ok ((i, ptr, 0) # r))
           | Panic \<Rightarrow> Panic | Diverge \<Rightarrow> Diverge))"

fun split_loop ::
  "externals \<Rightarrow> io_outcomes \<Rightarrow> page_id \<Rightarrow> (nat \<times> pointer \<times> nat) list \<Rightarrow> node \<Rightarrow> node action" where
  "split_loop E io p [] root_node =
     bindE (free_bytes p) (\<lambda>free.
       if free < DATA_SIZE div 4
       then bindE (allocate_page io) (\<lambda>child_page. with_page child_page panicE)
       else returnE root_node)"
| "split_loop E io p ((largest_child_index, ptr, _) # rest) root_node =
     bindE (free_bytes p) (\<lambda>free.
       if free < DATA_SIZE div 4
       then
         bindE (allocate_page io) (\<lambda>child_page.
         bindE (with_page child_page
           (bindE (liftE (unwrap_option (pointer_cell_index ptr))) (\<lambda>cell_index.
            bindE (move_subtrie_nodes page_fuel E p child_page cell_index) (\<lambda>_.
              node_result (set_child largest_child_index
                (pointer_new (location_for_page child_page) (ptr_rlp ptr)) root_node)))))
           (split_loop E io p rest))
       else returnE root_node)"

definition split_page :: "externals \<Rightarrow> io_outcomes \<Rightarrow> page_id \<Rightarrow> unit action" where
  "split_page E io p =
     bindE (get_node E p 0) (\<lambda>root_node.
     bindE (node_result (enumerate_children root_node)) (\<lambda>cs.
     bindE (asks (\<lambda>w. page_contents (page_at p w))) (\<lambda>c.
     bindE (liftE (split_candidates E c cs)) (\<lambda>children_with_count.
     bindE (get_node E p 0) (\<lambda>root_node.
     bindE (split_loop E io p (rev (sort_key (\<lambda>(_, _, n). n) (rev children_with_count))) root_node)
       (put_node E p 0))))))"

subsection \<open>Deleting subtries\<close>

fun orphan_subtrie :: "nat \<Rightarrow> externals \<Rightarrow> io_outcomes \<Rightarrow> page_id \<Rightarrow> nat \<Rightarrow> unit action" where
  "orphan_subtrie 0 E io p cell_index = liftE Diverge"
| "orphan_subtrie (Suc fuel) E io p cell_index =
     bindE (get_node E p cell_index) (\<lambda>n.
     bindE
       (if has_children n then
          bindE (node_result (enumerate_children n)) (for_each (\<lambda>(_, child_ptr).
            case pointer_cell_index child_ptr of
              Some cell_index \<Rightarrow> orphan_subtrie fuel E io p cell_index
            | None \<Rightarrow>
                bindE (pointer_page_id child_ptr) (\<lambda>page_id.
                bindE (get_page page_id) (\<lambda>child_page. orphan_subtrie fuel E io child_page 0))))
        else returnE ()) (\<lambda>_.
       if cell_index = 0 then orphan_page_action io p else returnE ()))"

fun delete_subtrie :: "nat \<Rightarrow> externals \<Rightarrow> io_outcomes \<Rightarrow> page_id \<Rightarrow> nat \<Rightarrow> unit action" where
  "delete_subtrie 0 E io p cell_index = liftE Diverge"
| "delete_subtrie (Suc fuel) E io p cell_index =
     (if cell_index = 0 then orphan_subtrie (Suc fuel) E io p cell_index
      else
        bindE (get_node E p cell_index) (\<lambda>n.
        bindE
          (if has_children n then
             bindE (node_result (enumerate_children n)) (for_each (\<lambda>(_, child_ptr).
               case pointer_cell_index child_ptr of
                 Some cell_index \<Rightarrow> delete_subtrie fuel E io p cell_index
               | None \<Rightarrow>
                   bindE (pointer_page_id child_ptr) (\<lambda>page_id.
                   bindE (get_page page_id) (\<lambda>page. orphan_subtrie fuel E io page 0))))
           else returnE ()) (\<lambda>_.
          delete_cell p cell_index)))"

subsection \<open>Running actions\<close>

named_theorems action_simps \<open>the effect of an action on a world\<close>

lemma bindE_apply [action_simps]: "bindE m f w = bind_state (m w) f"
  by (simp add: bindE_def)

lemma returnE_apply [action_simps]: "returnE x w = (Ok x, w)"
  by (simp add: returnE_def)

lemma liftE_apply [action_simps]: "liftE r w = (r, w)"
  by (simp add: liftE_def)

lemma panicE_apply [action_simps]: "panicE w = (Panic, w)"
  by (simp add: panicE_def liftE_def)

lemma asks_apply [action_simps]: "asks f w = (Ok (f w), w)"
  by (simp add: asks_def)

lemma modify_context_apply [action_simps]: "modify_context f w = (Ok (), w\<lparr>w_cx := f (w_cx w)\<rparr>)"
  by (simp add: modify_context_def)

lemma read_page_apply [action_simps]: "read_page p f w = (map_err EPage (f (pg_data (page_at p w))), w)"
  by (simp add: read_page_def page_contents_def)

lemma se_pages_same [simp]: "(w :: world)\<lparr>se_pages := se_pages w\<rparr> = w"
  by (cases w) simp

lemma se_meta_same [simp]: "(w :: world)\<lparr>se_meta := se_meta w\<rparr> = w"
  by (cases w) simp

lemma get_page_apply [action_simps]: "get_page p w = (map_err EPage (pm_get (se_pages w) p), w)"
  by (simp add: get_page_def pages_action_def)

lemma page_at_context [simp]: "page_at p (w\<lparr>w_cx := c\<rparr>) = page_at p w"
  by (simp add: page_at_def)

end
