(* ===== verification/Engine_Write.thy ===== *)
theory Engine_Write
  imports Storage_Engine
begin

text \<open>
  The write path (\<open>src/src/storage/engine/write.rs\<close>, \<open>src/src/storage/engine/handlers.rs\<close>): a sorted
  list of changes is applied to the trie, copying the pages of older snapshots.

  The two mutually recursive methods \<open>set_values_in_cloned_page\<close> and \<open>set_values_in_page\<close> are the
  fuelled functions at the end; each handler is a definition of its own that takes the two recursive
  calls as the arguments \<open>cloned\<close> and \<open>paged\<close>. \<open>Nibbles\<close> operations are those of lists.
\<close>

type_synonym cloned_call = "change list \<Rightarrow> nat \<Rightarrow> page_id \<Rightarrow> nat \<Rightarrow> pointer_change action"
type_synonym paged_call = "change list \<Rightarrow> nat \<Rightarrow> page_id \<Rightarrow> pointer_change action"

definition update_pointer :: "externals \<Rightarrow> page_id \<Rightarrow> nat \<Rightarrow> node \<Rightarrow> pointer_change action" where
  "update_pointer E p i n =
     bindE (returnE (to_rlp_node E n)) (\<lambda>rlp_node. returnE (PUpdate (pointer_new (node_location p i) rlp_node)))"

definition update_node_child ::
  "externals \<Rightarrow> node \<Rightarrow> page_id \<Rightarrow> nat \<Rightarrow> pointer option \<Rightarrow> nat \<Rightarrow> node action" where
  "update_node_child E n p page_index new_child_pointer child_index =
     bindE (node_result (case new_child_pointer of
         Some ptr \<Rightarrow> set_child child_index ptr n
       | None \<Rightarrow> remove_child child_index n)) (\<lambda>n.
     bindE (put_node E p page_index n) (\<lambda>_. returnE n))"

subsection \<open>Branch handlers\<close>

definition handle_missing_parent_branch ::
  "externals \<Rightarrow> io_outcomes \<Rightarrow> cloned_call \<Rightarrow> change list \<Rightarrow> nat \<Rightarrow> page_id \<Rightarrow> nat \<Rightarrow> node \<Rightarrow> raw_path \<Rightarrow> pointer_change action" where
  "handle_missing_parent_branch E io cloned changes path_offset p cell_index n common_prefix =
     bindE (node_result (new_branch common_prefix)) (\<lambda>new_parent_branch.
     bindE (free_bytes p) (\<lambda>free.
       if free < usize_sub (node_size E new_parent_branch + CELL_POINTER_SIZE) (rp_len common_prefix div 2)
       then bindE (split_page E io p) (\<lambda>_. liftE (Err (PageSplit 0)))
       else
         let k = rp_len common_prefix in
         bindE (if k < length (node_prefix n) then returnE (unat (node_prefix n ! k)) else panicE) (\<lambda>node_branch_index.
         bindE (node_result (set_prefix (drop (k + 1) (node_prefix n)) n)) (\<lambda>n.
         bindE (returnE (to_rlp_node E n)) (\<lambda>rlp_node.
         bindE (put_node E p cell_index n) (\<lambda>_.
         bindE (read_page p next_free_cell_index) (\<lambda>new_parent_branch_cell_index.
         bindE (node_result (set_child node_branch_index
                  (pointer_new (location_for_cell new_parent_branch_cell_index) rlp_node) new_parent_branch)) (\<lambda>new_parent_branch.
         bindE (add_node E p new_parent_branch) (\<lambda>_.
         bindE (write_page p (\<lambda>c. swap_cell_pointers c cell_index new_parent_branch_cell_index)) (\<lambda>_.
           cloned changes path_offset p cell_index))))))))))"

text \<open>What a handler does with the outcome for a child of \<open>n\<close>; the result is the updated node.\<close>

definition apply_child_change ::
  "externals \<Rightarrow> node \<Rightarrow> page_id \<Rightarrow> nat \<Rightarrow> nat \<Rightarrow> pointer_change \<Rightarrow> node action" where
  "apply_child_change E n p page_index child_index change =
     (case change of
        PUpdate ptr \<Rightarrow> update_node_child E n p page_index (Some ptr) child_index
      | PDelete \<Rightarrow> update_node_child E n p page_index None child_index
      | PNone \<Rightarrow> returnE n)"

definition handle_child_node_traversal ::
  "externals \<Rightarrow> io_outcomes \<Rightarrow> cloned_call \<Rightarrow> paged_call \<Rightarrow> change list \<Rightarrow> nat \<Rightarrow> page_id \<Rightarrow> nat \<Rightarrow> node \<Rightarrow> raw_path \<Rightarrow> nat \<Rightarrow> node action" where
  "handle_child_node_traversal E io cloned paged matching_changes path_offset p page_index n common_prefix child_index =
     bindE (node_result (node_child child_index n)) (\<lambda>child_pointer.
       let child_offset = u8_add (u8_add path_offset (rp_len common_prefix mod 2 ^ 8)) 1 in
       case child_pointer of
         Some ptr \<Rightarrow>
           bindE
             (case pointer_cell_index ptr of
                Some child_cell_index \<Rightarrow> cloned matching_changes child_offset p child_cell_index
              | None \<Rightarrow> bindE (pointer_page_id ptr) (paged matching_changes child_offset))
             (apply_child_change E n p page_index child_index)
       | None \<Rightarrow>
           (case dropWhile (\<lambda>(_, value). value = None) matching_changes of
              [] \<Rightarrow> returnE n
            | (path, value) # matching_changes \<Rightarrow>
                bindE (liftE (raw_path_slice_from path (path_offset + rp_len common_prefix + 1))) (\<lambda>remaining_path.
                bindE (liftE (unwrap_option value)) (\<lambda>value.
                bindE (node_result (new_leaf E remaining_path value)) (\<lambda>new_node.
                bindE (free_bytes p) (\<lambda>free.
                  if free < size_incr_with_new_child n + node_size E new_node + CELL_POINTER_SIZE
                  then bindE (split_page E io p) (\<lambda>_. liftE (Err (PageSplit 0)))
                  else
                    bindE (returnE (to_rlp_node E new_node)) (\<lambda>rlp_node.
                    bindE (add_node E p new_node) (\<lambda>cell_index.
                    bindE (node_result (set_child child_index (pointer_new (location_for_cell cell_index) rlp_node) n)) (\<lambda>n.
                    bindE (put_node E p page_index n) (\<lambda>_.
                      if matching_changes = [] then returnE n
                      else
                        bindE (cloned matching_changes child_offset p cell_index)
                          (apply_child_change E n p page_index child_index)))))))))))"

definition merge_with_child_on_same_page ::
  "externals \<Rightarrow> page_id \<Rightarrow> nat \<Rightarrow> nat \<Rightarrow> nibbles \<Rightarrow> pointer_change action" where
  "merge_with_child_on_same_page E p parent_cell_index child_cell_index path_prefix =
     bindE (get_node E p child_cell_index) (\<lambda>child_node.
     bindE (node_result (set_prefix (path_prefix @ node_prefix child_node) child_node)) (\<lambda>child_node.
     bindE (returnE (to_rlp_node E child_node)) (\<lambda>rlp_node.
     bindE (delete_cell p child_cell_index) (\<lambda>_.
     bindE (put_node E p parent_cell_index child_node) (\<lambda>_.
       returnE (PUpdate (pointer_new (node_location p parent_cell_index) rlp_node)))))))"

definition merge_with_child_on_different_page ::
  "externals \<Rightarrow> io_outcomes \<Rightarrow> page_id \<Rightarrow> nat \<Rightarrow> page_id \<Rightarrow> nibbles \<Rightarrow> pointer_change action" where
  "merge_with_child_on_different_page E io p page_index child_page path_prefix =
     bindE (free_bytes child_page) (\<lambda>free.
     bindE (if free < 200 then split_page E io child_page else returnE ()) (\<lambda>_.
     bindE (delete_cell p page_index) (\<lambda>_.
     bindE (get_node E child_page 0) (\<lambda>child_node.
     bindE (node_result (set_prefix (path_prefix @ node_prefix child_node) child_node)) (\<lambda>child_node.
     bindE (returnE (to_rlp_node E child_node)) (\<lambda>rlp_node.
     bindE (put_node E child_page 0 child_node) (\<lambda>_.
     bindE (if page_index = 0 then orphan_page_action io p else returnE ()) (\<lambda>_.
       returnE (PUpdate (pointer_new (node_location child_page 0) rlp_node))))))))))"

definition merge_branch_with_only_child ::
  "externals \<Rightarrow> io_outcomes \<Rightarrow> page_id \<Rightarrow> nat \<Rightarrow> node \<Rightarrow> nat \<Rightarrow> pointer \<Rightarrow> pointer_change action" where
  "merge_branch_with_only_child E io p page_index n only_child_index ptr =
     (let path_prefix = node_prefix n @ [of_nat only_child_index] in
      case pointer_cell_index ptr of
        Some child_cell_index \<Rightarrow> merge_with_child_on_same_page E p page_index child_cell_index path_prefix
      | None \<Rightarrow>
          bindE (pointer_page_id ptr) (\<lambda>child_page_id.
          bindE (get_mut_clone io child_page_id) (\<lambda>child_page.
            with_page child_page (merge_with_child_on_different_page E io p page_index child_page path_prefix))))"

definition handle_branch_node_cleanup ::
  "externals \<Rightarrow> io_outcomes \<Rightarrow> page_id \<Rightarrow> nat \<Rightarrow> node \<Rightarrow> pointer_change action" where
  "handle_branch_node_cleanup E io p page_index n =
     bindE (node_result (enumerate_children n)) (\<lambda>cs.
       case cs of
         [] \<Rightarrow>
           bindE (delete_cell p page_index) (\<lambda>_.
           bindE (if page_index = 0 then orphan_page_action io p else returnE ()) (\<lambda>_. returnE PDelete))
       | [(idx, ptr)] \<Rightarrow> merge_branch_with_only_child E io p page_index n idx ptr
       | _ \<Rightarrow> update_pointer E p page_index n)"

text \<open>
  The loop over the 16 children. The changes are sorted and share their first nibbles, so those for one
  child are adjacent and \<open>partition_point\<close> is the length of the run.
\<close>

fun branch_traversal_loop ::
  "(change list \<Rightarrow> node \<Rightarrow> nat \<Rightarrow> node action) \<Rightarrow> nat \<Rightarrow> nat list \<Rightarrow> change list \<Rightarrow> nat \<Rightarrow> node \<Rightarrow> (nat \<times> node) action" where
  "branch_traversal_loop traverse pos [] remaining_changes handled n = returnE (handled, n)"
| "branch_traversal_loop traverse pos (child_index # is) remaining_changes handled n =
     (let matches = (\<lambda>(path, _). raw_path_get path pos = Some (of_nat child_index));
          matching_changes = takeWhile matches remaining_changes;
          remaining_changes = dropWhile matches remaining_changes in
      if matching_changes = [] then branch_traversal_loop traverse pos is remaining_changes handled n
      else (\<lambda>w. case traverse matching_changes n child_index w of
          (Ok n, w) \<Rightarrow> branch_traversal_loop traverse pos is remaining_changes (handled + length matching_changes) n w
        | (Err (PageSplit processed), w) \<Rightarrow> (Err (PageSplit (handled + processed)), w)
        | (Err e, w) \<Rightarrow> (Err e, w) | (Panic, w) \<Rightarrow> (Panic, w) | (Diverge, w) \<Rightarrow> (Diverge, w)))"

definition handle_branch_node_traversal ::
  "externals \<Rightarrow> io_outcomes \<Rightarrow> cloned_call \<Rightarrow> paged_call \<Rightarrow> change list \<Rightarrow> nat \<Rightarrow> page_id \<Rightarrow> nat \<Rightarrow> node \<Rightarrow> raw_path \<Rightarrow> pointer_change action" where
  "handle_branch_node_traversal E io cloned paged changes path_offset p page_index n common_prefix =
     (let pos = path_offset + rp_len common_prefix in
      if list_ex (\<lambda>(path, _). raw_path_get path pos = None) changes then panicE
      else
        bindE (branch_traversal_loop
            (\<lambda>matching_changes n child_index. handle_child_node_traversal E io cloned paged matching_changes path_offset p page_index n
               common_prefix child_index) pos [0..<16] changes 0 n) (\<lambda>(handled_in_children, n).
          if handled_in_children = length changes then handle_branch_node_cleanup E io p page_index n
          else panicE))"

subsection \<open>Leaf handlers\<close>

definition handle_exact_prefix_match ::
  "externals \<Rightarrow> io_outcomes \<Rightarrow> nat \<Rightarrow> cloned_call \<Rightarrow> change list \<Rightarrow> nat \<Rightarrow> page_id \<Rightarrow> nat \<Rightarrow> node \<Rightarrow> raw_path \<Rightarrow> trie_value option \<Rightarrow> pointer_change action" where
  "handle_exact_prefix_match E io fuel cloned changes path_offset p page_index n path value =
     (case value of
        None \<Rightarrow>
          bindE (if has_children n then delete_subtrie fuel E io p page_index else returnE ()) (\<lambda>_.
          bindE (delete_cell p page_index) (\<lambda>_.
            if length changes = 1 then returnE PDelete else panicE))
      | Some value \<Rightarrow>
          (case changes of
             [] \<Rightarrow> panicE
           | _ # remaining_changes \<Rightarrow>
               bindE (node_result (node_value E n)) (\<lambda>current_value.
                 if current_value = value then
                   if remaining_changes = [] then returnE PNone
                   else cloned remaining_changes path_offset p page_index
                 else
                   bindE (node_result (new_leaf E path value)) (\<lambda>new_node.
                   bindE (if has_children n then
                            bindE (node_result (direct_child n)) (\<lambda>child_pointer.
                              case child_pointer of
                                Some ptr \<Rightarrow> node_result (set_child 0 ptr new_node)
                              | None \<Rightarrow> returnE new_node)
                          else returnE new_node) (\<lambda>new_node.
                   bindE (free_bytes p) (\<lambda>free.
                     if node_size E n < node_size E new_node \<and> free < node_size E new_node - node_size E n
                     then bindE (split_page E io p) (\<lambda>_. liftE (Err (PageSplit 0)))
                     else
                       bindE (put_node E p page_index new_node) (\<lambda>_.
                         if remaining_changes = [] then update_pointer E p page_index new_node
                         else
                           bindE (cloned remaining_changes path_offset p page_index) (\<lambda>change.
                             case change of
                               PUpdate ptr \<Rightarrow> returnE (PUpdate ptr)
                             | PNone \<Rightarrow> update_pointer E p page_index new_node
                             | PDelete \<Rightarrow> panicE))))))))"

definition create_first_storage_node ::
  "externals \<Rightarrow> io_outcomes \<Rightarrow> cloned_call \<Rightarrow> change list \<Rightarrow> nat \<Rightarrow> page_id \<Rightarrow> nat \<Rightarrow> node \<Rightarrow> raw_path \<Rightarrow> pointer_change action" where
  "create_first_storage_node E io cloned changes path_offset p page_index n common_prefix =
     (case changes of
        [] \<Rightarrow> returnE PNone
      | (path, value) # remaining_changes \<Rightarrow>
          (case value of
             None \<Rightarrow> cloned remaining_changes path_offset p page_index
           | Some value \<Rightarrow>
               bindE (liftE (raw_path_slice_from path (path_offset + rp_len common_prefix))) (\<lambda>remaining_path.
               bindE (node_result (new_leaf E remaining_path value)) (\<lambda>new_node.
               bindE (free_bytes p) (\<lambda>free.
                 if free < size_incr_with_new_child n + node_size E new_node + CELL_POINTER_SIZE
                 then bindE (split_page E io p) (\<lambda>_. liftE (Err (PageSplit 0)))
                 else
                   bindE (returnE (to_rlp_node E new_node)) (\<lambda>rlp_node.
                   bindE (add_node E p new_node) (\<lambda>cell_index.
                   bindE (node_result (set_child 0 (pointer_new (location_for_cell cell_index) rlp_node) n)) (\<lambda>n.
                   bindE (put_node E p page_index n) (\<lambda>_.
                     if remaining_changes = [] then update_pointer E p page_index n
                     else cloned remaining_changes path_offset p page_index)))))))))"

definition handle_account_node_traversal ::
  "externals \<Rightarrow> io_outcomes \<Rightarrow> cloned_call \<Rightarrow> paged_call \<Rightarrow> change list \<Rightarrow> nat \<Rightarrow> page_id \<Rightarrow> nat \<Rightarrow> node \<Rightarrow> raw_path \<Rightarrow> pointer_change action" where
  "handle_account_node_traversal E io cloned paged changes path_offset p page_index n common_prefix =
     bindE (node_result (direct_child n)) (\<lambda>child_pointer.
       let child_offset = u8_add path_offset (rp_len common_prefix mod 2 ^ 8) in
       case child_pointer of
         Some ptr \<Rightarrow>
           bindE
             (case pointer_cell_index ptr of
                Some child_cell_index \<Rightarrow> cloned changes child_offset p child_cell_index
              | None \<Rightarrow> bindE (pointer_page_id ptr) (paged changes child_offset)) (\<lambda>change.
             case change of
               PUpdate ptr \<Rightarrow> bindE (update_node_child E n p page_index (Some ptr) 0) (update_pointer E p page_index)
             | PDelete \<Rightarrow> bindE (update_node_child E n p page_index None 0) (update_pointer E p page_index)
             | PNone \<Rightarrow> returnE PNone)
       | None \<Rightarrow> create_first_storage_node E io cloned changes path_offset p page_index n common_prefix)"

subsection \<open>Applying changes\<close>

definition set_values_in_cloned_page_body ::
  "externals \<Rightarrow> io_outcomes \<Rightarrow> nat \<Rightarrow> cloned_call \<Rightarrow> paged_call \<Rightarrow> cloned_call" where
  "set_values_in_cloned_page_body E io fuel cloned paged changes path_offset p page_index =
     (if changes = [] then returnE PNone
      else
        bindE (get_node E p page_index) (\<lambda>n.
        bindE (liftE (find_shortest_common_prefix changes path_offset n)) (\<lambda>(shortest_common_prefix_idx, common_prefix_length).
        bindE (liftE (raw_path_slice_from (fst (changes ! shortest_common_prefix_idx)) path_offset)) (\<lambda>path.
        bindE (liftE (raw_path_slice path 0 common_prefix_length)) (\<lambda>common_prefix.
          let value = snd (changes ! shortest_common_prefix_idx) in
          if rp_len common_prefix < length (node_prefix n) then
            if value = None then
              let changes_left = take shortest_common_prefix_idx changes;
                  changes_right = drop (shortest_common_prefix_idx + 1) changes in
              if changes_right = [] then cloned changes_left path_offset p page_index
              else if changes_left = [] then cloned changes_right path_offset p page_index
              else panicE
            else handle_missing_parent_branch E io cloned changes path_offset p page_index n common_prefix
          else if rp_len common_prefix = rp_len path then
            if shortest_common_prefix_idx = 0
            then handle_exact_prefix_match E io fuel cloned changes path_offset p page_index n path value
            else panicE
          else if is_account_leaf n
            then handle_account_node_traversal E io cloned paged changes path_offset p page_index n common_prefix
          else if is_branch n
            then handle_branch_node_traversal E io cloned paged changes path_offset p page_index n common_prefix
          else panicE)))))"

text \<open>The retries of \<open>set_values_in_page\<close>; the first argument is what is left of its split limit.\<close>

fun split_retry :: "nat \<Rightarrow> cloned_call \<Rightarrow> change list \<Rightarrow> nat \<Rightarrow> page_id \<Rightarrow> pointer_change action" where
  "split_retry splits_left cloned changes path_offset p = (\<lambda>w.
     case cloned changes path_offset p 0 w of
       (Err (PageSplit handled_total), w) \<Rightarrow>
         if length changes < handled_total then (Panic, w)
         else (case splits_left of
             0 \<Rightarrow> (Err (EPage PageSplitLimitReached), w)
           | Suc k \<Rightarrow> split_retry k cloned (drop handled_total changes) path_offset p w)
     | (r, w) \<Rightarrow> (r, w))"

declare split_retry.simps [simp del]

definition SPLIT_LIMIT :: nat where
  "SPLIT_LIMIT = 20"

definition set_values_in_page_body :: "io_outcomes \<Rightarrow> cloned_call \<Rightarrow> paged_call" where
  "set_values_in_page_body io cloned changes path_offset page_id =
     bindE (get_mut_clone io page_id) (\<lambda>page.
       with_page page (split_retry SPLIT_LIMIT cloned changes path_offset page))"

fun set_values_in_cloned_page :: "nat \<Rightarrow> externals \<Rightarrow> io_outcomes \<Rightarrow> cloned_call"
and set_values_in_page :: "nat \<Rightarrow> externals \<Rightarrow> io_outcomes \<Rightarrow> paged_call" where
  "set_values_in_cloned_page 0 E io changes path_offset p page_index = liftE Diverge"
| "set_values_in_cloned_page (Suc fuel) E io changes path_offset p page_index =
     set_values_in_cloned_page_body E io fuel (set_values_in_cloned_page fuel E io) (set_values_in_page fuel E io)
       changes path_offset p page_index"
| "set_values_in_page 0 E io changes path_offset page_id = liftE Diverge"
| "set_values_in_page (Suc fuel) E io changes path_offset page_id =
     set_values_in_page_body io (set_values_in_cloned_page fuel E io) changes path_offset page_id"

declare set_values_in_cloned_page.simps [simp del] set_values_in_page.simps [simp del]

definition initialize_empty_trie :: "externals \<Rightarrow> raw_path \<Rightarrow> trie_value \<Rightarrow> page_id \<Rightarrow> pointer action" where
  "initialize_empty_trie E path value p =
     bindE (node_result (new_leaf E path value)) (\<lambda>new_node.
     bindE (returnE (to_rlp_node E new_node)) (\<lambda>rlp_node.
     bindE (add_node E p new_node) (\<lambda>index.
       if index = 0 then returnE (pointer_new (location_for_page p) rlp_node) else panicE)))"

definition set_root :: "externals \<Rightarrow> pointer \<Rightarrow> unit action" where
  "set_root E ptr =
     bindE (liftE (location_page_id (ptr_location ptr))) (\<lambda>root.
     bindE (modify_context (\<lambda>cx. cx\<lparr>cx_root_node_page_id := root\<rparr>)) (\<lambda>_.
     bindE (liftE (unwrap_option (x_as_hash E (ptr_rlp ptr)))) (\<lambda>h.
       modify_context (\<lambda>cx. cx\<lparr>cx_root_node_hash := h\<rparr>))))"

definition invalidate_cache :: "change \<Rightarrow> unit action" where
  "invalidate_cache ch =
     (if rp_len (fst ch) = STORAGE_PATH_LENGTH then
        bindE (liftE (raw_path_slice (fst ch) 0 ADDRESS_PATH_LENGTH)) (\<lambda>prefix.
        bindE (liftE (unwrap (nibbles_try_from prefix))) (\<lambda>ns.
        bindE (liftE (address_path_new ns)) (\<lambda>address_path.
        bindE (liftE (raw_path_of_address address_path)) (\<lambda>key.
        bindE (asks (\<lambda>w. cx_cache (w_cx w))) (\<lambda>cache.
        bindE (liftE (b512_remove key cache)) (\<lambda>cache.
          modify_context (\<lambda>cx. cx\<lparr>cx_cache := cache\<rparr>)))))))
      else returnE ())"

definition apply_root_change :: "externals \<Rightarrow> pointer_change \<Rightarrow> unit action" where
  "apply_root_change E change =
     (case change of
        PUpdate ptr \<Rightarrow> set_root E ptr
      | PDelete \<Rightarrow> modify_context (\<lambda>cx. cx\<lparr>cx_root_node_page_id := None, cx_root_node_hash := x_empty_root_hash E\<rparr>)
      | PNone \<Rightarrow> returnE ())"

definition set_values_in_trie :: "nat \<Rightarrow> externals \<Rightarrow> io_outcomes \<Rightarrow> change list \<Rightarrow> unit action" where
  "set_values_in_trie fuel E io changes =
     bindE (for_each invalidate_cache changes) (\<lambda>_.
     bindE (asks (\<lambda>w. cx_root_node_page_id (w_cx w))) (\<lambda>root.
     bindE (liftE (unwrap_option root)) (\<lambda>root.
     bindE (set_values_in_page fuel E io changes 0 root) (apply_root_change E))))"

definition set_values :: "nat \<Rightarrow> externals \<Rightarrow> io_outcomes \<Rightarrow> change list \<Rightarrow> unit action" where
  "set_values fuel E io changes =
     (let changes = sort_key fst changes in
      bindE (asks (\<lambda>w. cx_root_node_page_id (w_cx w))) (\<lambda>root.
        if root = None then
          bindE (allocate_page io) (\<lambda>page.
          bindE (with_page page
            (case changes of
               [] \<Rightarrow> panicE
             | (path, value) # _ \<Rightarrow>
                 bindE (liftE (unwrap_option value)) (\<lambda>value.
                 bindE (initialize_empty_trie E path value page) (set_root E)))) (\<lambda>_.
            if tl changes = [] then returnE () else set_values_in_trie fuel E io (tl changes)))
        else set_values_in_trie fuel E io changes))"

end
