(* ===== verification/Write_Protocol.thy ===== *)
theory Write_Protocol
  imports Engine_Write
begin

text \<open>
  What the write path does to the state, seen through the primitives it is built from. The locale
  \<open>write_protocol\<close> names the laws of the primitives with respect to a relation \<open>step\<close> between worlds:
  acquiring a page, writing to a page the caller owns, releasing it, orphaning a page, changing the
  context. Its client is the whole of the write path: any relation with these laws relates the worlds
  before and after each handler and after \<open>set_values\<close>, whatever the outcome. \<open>Copy_On_Write\<close>
  interprets it.
\<close>

named_theorems safe_intros \<open>actions that respect the protocol\<close>

locale write_protocol =
  fixes E :: externals and io :: io_outcomes
    and good :: "world \<Rightarrow> bool" and step :: "world \<Rightarrow> world \<Rightarrow> bool" and owned :: "world \<Rightarrow> page_id \<Rightarrow> bool"
  assumes step_refl: "step w w"
    and step_trans: "step w1 w2 \<Longrightarrow> step w2 w3 \<Longrightarrow> step w1 w3"
    and step_owned: "step w w' \<Longrightarrow> owned w p \<Longrightarrow> owned w' p"
    and context_law: "good w \<Longrightarrow> cx_snapshot_id c = cx_snapshot_id (w_cx w) \<Longrightarrow> good (w\<lparr>w_cx := c\<rparr>) \<and> step w (w\<lparr>w_cx := c\<rparr>)"
    and write_law: "good w \<Longrightarrow> owned w p \<Longrightarrow>
      good (put_page p ((page_at p w)\<lparr>pg_data := bs\<rparr>) w) \<and> step w (put_page p ((page_at p w)\<lparr>pg_data := bs\<rparr>) w)"
    and orphan_law: "good w \<Longrightarrow> good (snd (orphan_page_action io p w)) \<and> step w (snd (orphan_page_action io p w))"
    and allocate_law: "good w \<Longrightarrow> allocate_page io w = (r, w') \<Longrightarrow>
      good w' \<and> step w w' \<and> (\<forall>p. r = Ok p \<longrightarrow> owned w' p \<and>
        (\<forall>w''. good w'' \<and> step w' w'' \<longrightarrow> good (drop_page p w'') \<and> step w (drop_page p w'')))"
    and clone_law: "good w \<Longrightarrow> get_mut_clone io q w = (r, w') \<Longrightarrow>
      good w' \<and> step w w' \<and> (\<forall>p. r = Ok p \<longrightarrow> owned w' p \<and>
        (\<forall>w''. good w'' \<and> step w' w'' \<longrightarrow> good (drop_page p w'') \<and> step w (drop_page p w'')))"
begin

text \<open>An action of a caller that owns the pages \<open>A\<close>.\<close>

definition safe :: "page_id set \<Rightarrow> 'a action \<Rightarrow> bool" where
  "safe A m \<longleftrightarrow> (\<forall>w. good w \<and> (\<forall>p \<in> A. owned w p) \<longrightarrow> good (snd (m w)) \<and> step w (snd (m w)))"

lemma safeI: "(\<And>w. good w \<Longrightarrow> \<forall>p \<in> A. owned w p \<Longrightarrow> good (snd (m w)) \<and> step w (snd (m w))) \<Longrightarrow> safe A m"
  by (simp add: safe_def)

lemma safeD: "safe A m \<Longrightarrow> good w \<Longrightarrow> \<forall>p \<in> A. owned w p \<Longrightarrow> good (snd (m w)) \<and> step w (snd (m w))"
  by (simp add: safe_def)

lemma safe_bind [safe_intros]:
  assumes "safe A m" and "\<And>x. safe A (f x)"
  shows "safe A (bindE m f)"
proof (rule safeI)
  fix w
  assume w: "good w" "\<forall>p \<in> A. owned w p"
  obtain r w1 where m: "m w = (r, w1)" by fastforce
  have s: "good w1" "step w w1" using safeD [OF assms(1) w] m by auto
  then have o1: "\<forall>p \<in> A. owned w1 p" using w(2) step_owned by blast
  show "good (snd (bindE m f w)) \<and> step w (snd (bindE m f w))"
    using safeD [OF assms(2) s(1) o1] s step_trans by (cases r) (auto simp: bindE_apply m)
qed

lemma safe_return [safe_intros]: "safe A (returnE x)" "safe A (liftE r)" "safe A panicE" "safe A (asks g)" "safe A (read_page p h)"
  by (simp_all add: safe_def action_simps step_refl)

lemma safe_get_page [safe_intros]: "safe A (get_page p)"
  by (simp add: safe_def get_page_apply step_refl)

lemma safe_pointer_page_id [safe_intros]: "safe A (pointer_page_id ptr)"
  by (simp add: pointer_page_id_def safe_intros)

lemma safe_write [safe_intros]: "p \<in> A \<Longrightarrow> safe A (write_page p h)"
  using write_law by (auto simp: safe_def write_page_def split: prod.splits)

lemma safe_context [safe_intros]: "(\<And>c. cx_snapshot_id (h c) = cx_snapshot_id c) \<Longrightarrow> safe A (modify_context h)"
  using context_law by (simp add: safe_def action_simps)

lemma safe_orphan [safe_intros]: "safe A (orphan_page_action io p)"
  using orphan_law by (simp add: safe_def)

lemma safe_if [safe_intros]: "(b \<Longrightarrow> safe A m) \<Longrightarrow> (\<not> b \<Longrightarrow> safe A m') \<Longrightarrow> safe A (if b then m else m')"
  by simp

lemma safe_let [safe_intros]: "(\<And>x. safe A (f x)) \<Longrightarrow> safe A (let x = e in f x)"
  by simp

lemma safe_option [safe_intros]: "safe A m \<Longrightarrow> (\<And>x. safe A (f x)) \<Longrightarrow> safe A (case o1 of None \<Rightarrow> m | Some x \<Rightarrow> f x)"
  by (cases o1) auto

lemma safe_list [safe_intros]: "safe A m \<Longrightarrow> (\<And>x xs. safe A (f x xs)) \<Longrightarrow> safe A (case l of [] \<Rightarrow> m | x # xs \<Rightarrow> f x xs)"
  by (cases l) auto

lemma safe_prod [safe_intros]: "(\<And>x y. safe A (f x y)) \<Longrightarrow> safe A (case z of (x, y) \<Rightarrow> f x y)"
  by (cases z) auto

lemma safe_change [safe_intros]:
  "safe A m \<Longrightarrow> (\<And>p. safe A (f p)) \<Longrightarrow> safe A m' \<Longrightarrow> safe A (case ch of PNone \<Rightarrow> m | PUpdate p \<Rightarrow> f p | PDelete \<Rightarrow> m')"
  by (cases ch) auto

lemma safe_for_each [safe_intros]: "(\<And>x. safe A (f x)) \<Longrightarrow> safe A (for_each f xs)"
  by (induction xs) (auto intro: safe_intros)

lemma safe_mono: "safe A m \<Longrightarrow> A \<subseteq> B \<Longrightarrow> safe B m"
  by (auto simp: safe_def)

text \<open>Acquiring a page, working on it, and releasing it.\<close>

lemma safe_acquire:
  assumes "\<And>w r w'. good w \<Longrightarrow> m w = (r, w') \<Longrightarrow>
      good w' \<and> step w w' \<and> (\<forall>p. r = Ok p \<longrightarrow> owned w' p \<and>
        (\<forall>w''. good w'' \<and> step w' w'' \<longrightarrow> good (drop_page p w'') \<and> step w (drop_page p w'')))"
    and "\<And>p. safe (insert p A) (f p)"
  shows "safe A (bindE m (\<lambda>p. with_page p (f p)))"
proof (rule safeI)
  fix w
  assume w: "good w" "\<forall>p \<in> A. owned w p"
  obtain r w1 where m: "m w = (r, w1)" by fastforce
  note a = assms(1) [OF w(1) m]
  show "good (snd (bindE m (\<lambda>p. with_page p (f p)) w)) \<and> step w (snd (bindE m (\<lambda>p. with_page p (f p)) w))"
  proof (cases r)
    case (Ok p)
    have "\<forall>q \<in> insert p A. owned w1 q" using a w(2) Ok step_owned by auto
    from safeD [OF assms(2) _ this] a have "good (snd (f p w1)) \<and> step w1 (snd (f p w1))" by blast
    then show ?thesis using a Ok m by (auto simp: bindE_apply with_page_def split: prod.splits)
  qed (use a m in \<open>auto simp: bindE_apply\<close>)
qed

lemma bindE_assoc: "bindE m (\<lambda>p. bindE (f p) g) = bindE (bindE m f) g"
  by (auto simp: bindE_def bind_state_def fun_eq_iff split: prod.splits result.splits)

lemma safe_allocate [safe_intros]:
  "(\<And>p. safe (insert p A) (f p)) \<Longrightarrow> safe A (bindE (allocate_page io) (\<lambda>p. with_page p (f p)))"
  by (rule safe_acquire) (use allocate_law in blast)

lemma safe_allocate_then [safe_intros]:
  "(\<And>p. safe (insert p A) (f p)) \<Longrightarrow> (\<And>x. safe A (g x)) \<Longrightarrow> safe A (bindE (allocate_page io) (\<lambda>p. bindE (with_page p (f p)) g))"
  unfolding bindE_assoc by (intro safe_bind safe_allocate)

lemma safe_clone [safe_intros]:
  "(\<And>p. safe (insert p A) (f p)) \<Longrightarrow> safe A (bindE (get_mut_clone io q) (\<lambda>p. with_page p (f p)))"
  by (rule safe_acquire) (use clone_law in blast)

subsection \<open>The operations of the engine\<close>

lemma safe_move_children:
  "(\<And>i. safe A (rec i)) \<Longrightarrow> safe A (move_children rec is n)"
  by (induction "is" arbitrary: n) (auto intro!: safe_intros)

lemma safe_move_subtrie [safe_intros]: "p \<in> A \<Longrightarrow> q \<in> A \<Longrightarrow> safe A (move_subtrie_nodes fuel E p q i)"
  by (induction fuel arbitrary: i) (auto intro!: safe_intros safe_move_children)

lemma safe_split_loop [safe_intros]: "p \<in> A \<Longrightarrow> safe A (split_loop E io p cs n)"
proof (induction cs arbitrary: n)
  case Nil
  then show ?case by (auto intro!: safe_intros)
next
  case (Cons c cs)
  obtain i ptr k where c: "c = (i, ptr, k)" by (cases c) auto
  show ?case unfolding c split_loop.simps
    by (intro safe_intros Cons) (use Cons in auto)
qed

lemma safe_split_page [safe_intros]: "p \<in> A \<Longrightarrow> safe A (split_page E io p)"
  unfolding split_page_def by (intro safe_intros)

lemma safe_orphan_subtrie [safe_intros]: "safe A (orphan_subtrie fuel E io p i)"
  by (induction fuel arbitrary: p i) (auto intro!: safe_intros)

lemma safe_delete_subtrie [safe_intros]: "p \<in> A \<Longrightarrow> safe A (delete_subtrie fuel E io p i)"
proof (induction fuel arbitrary: i)
  case (Suc fuel)
  then show ?case unfolding delete_subtrie.simps by (intro safe_intros) auto
qed (auto intro: safe_intros)

lemma safe_update_pointer [safe_intros]: "safe A (update_pointer E p i n)"
  unfolding update_pointer_def by (intro safe_intros)

lemma safe_update_node_child [safe_intros]: "p \<in> A \<Longrightarrow> safe A (update_node_child E n p i c k)"
  unfolding update_node_child_def by (intro safe_intros)

lemma safe_apply_child_change [safe_intros]: "p \<in> A \<Longrightarrow> safe A (apply_child_change E n p i k c)"
  unfolding apply_child_change_def by (intro safe_intros)

lemma safe_merge_same [safe_intros]: "p \<in> A \<Longrightarrow> safe A (merge_with_child_on_same_page E p i k ns)"
  unfolding merge_with_child_on_same_page_def by (intro safe_intros)

lemma safe_merge_different [safe_intros]: "p \<in> A \<Longrightarrow> q \<in> A \<Longrightarrow> safe A (merge_with_child_on_different_page E io p i q ns)"
  unfolding merge_with_child_on_different_page_def by (intro safe_intros)

lemma safe_merge [safe_intros]: "p \<in> A \<Longrightarrow> safe A (merge_branch_with_only_child E io p i n k ptr)"
  unfolding merge_branch_with_only_child_def by (intro safe_intros) auto

lemma safe_cleanup [safe_intros]: "p \<in> A \<Longrightarrow> safe A (handle_branch_node_cleanup E io p i n)"
  unfolding handle_branch_node_cleanup_def by (intro safe_intros)

text \<open>The handlers, for recursive calls that are safe for a caller that owns the page.\<close>

definition calls_safe :: "cloned_call \<Rightarrow> paged_call \<Rightarrow> bool" where
  "calls_safe cloned paged \<longleftrightarrow>
     (\<forall>A p changes off i. p \<in> A \<longrightarrow> safe A (cloned changes off p i)) \<and> (\<forall>A changes off q. safe A (paged changes off q))"

lemma calls_safeD:
  "calls_safe cloned paged \<Longrightarrow> p \<in> A \<Longrightarrow> safe A (cloned changes off p i)"
  "calls_safe cloned paged \<Longrightarrow> safe A (paged changes off q)"
  by (simp_all add: calls_safe_def)

lemma safe_missing_parent [safe_intros]:
  assumes "calls_safe cloned paged" and "p \<in> A"
  shows "safe A (handle_missing_parent_branch E io cloned changes off p i n cp)"
  unfolding handle_missing_parent_branch_def by (intro safe_intros calls_safeD [OF assms(1)] assms)

lemma safe_child_traversal [safe_intros]:
  assumes "calls_safe cloned paged" and "p \<in> A"
  shows "safe A (handle_child_node_traversal E io cloned paged changes off p i n cp k)"
  unfolding handle_child_node_traversal_def by (intro safe_intros calls_safeD [OF assms(1)] assms)

lemma safe_branch_loop:
  "(\<And>cs n k. safe A (traverse cs n k)) \<Longrightarrow> safe A (branch_traversal_loop traverse pos is changes h n)"
proof (induction "is" arbitrary: changes h n)
  case Nil
  show ?case by (simp add: safe_intros)
next
  case (Cons k ks)
  note ih = Cons.IH [OF Cons.prems]
  have "safe A (\<lambda>w. case traverse cs n k w of
        (Ok n, w) \<Rightarrow> branch_traversal_loop traverse pos ks rest h' n w
      | (Err (PageSplit d), w) \<Rightarrow> (Err (PageSplit (h + d)), w)
      | (Err e, w) \<Rightarrow> (Err e, w) | (Panic, w) \<Rightarrow> (Panic, w) | (Diverge, w) \<Rightarrow> (Diverge, w))" for cs n rest h'
  proof (rule safeI)
    fix w
    assume w: "good w" "\<forall>p \<in> A. owned w p"
    obtain r w1 where t: "traverse cs n k w = (r, w1)" by fastforce
    have s: "good w1" "step w w1" using safeD [OF Cons.prems w, of cs n k] t by auto
    then have o1: "\<forall>p \<in> A. owned w1 p" using w(2) step_owned by blast
    show "good (snd (case traverse cs n k w of
        (Ok n, w) \<Rightarrow> branch_traversal_loop traverse pos ks rest h' n w
      | (Err (PageSplit d), w) \<Rightarrow> (Err (PageSplit (h + d)), w)
      | (Err e, w) \<Rightarrow> (Err e, w) | (Panic, w) \<Rightarrow> (Panic, w) | (Diverge, w) \<Rightarrow> (Diverge, w))) \<and>
      step w (snd (case traverse cs n k w of
        (Ok n, w) \<Rightarrow> branch_traversal_loop traverse pos ks rest h' n w
      | (Err (PageSplit d), w) \<Rightarrow> (Err (PageSplit (h + d)), w)
      | (Err e, w) \<Rightarrow> (Err e, w) | (Panic, w) \<Rightarrow> (Panic, w) | (Diverge, w) \<Rightarrow> (Diverge, w)))"
      using s safeD [OF ih s(1) o1] step_trans by (auto simp: t split: result.splits engine_error.splits)
  qed
  then show ?case unfolding branch_traversal_loop.simps by (intro safe_intros ih)
qed

lemma safe_branch_traversal [safe_intros]:
  assumes "calls_safe cloned paged" and "p \<in> A"
  shows "safe A (handle_branch_node_traversal E io cloned paged changes off p i n cp)"
  unfolding handle_branch_node_traversal_def by (intro safe_intros safe_branch_loop calls_safeD [OF assms(1)] assms)

lemma safe_exact_match [safe_intros]:
  assumes "calls_safe cloned paged" and "p \<in> A"
  shows "safe A (handle_exact_prefix_match E io fuel cloned changes off p i n path v)"
  unfolding handle_exact_prefix_match_def by (intro safe_intros calls_safeD [OF assms(1)] assms)

lemma safe_first_storage [safe_intros]:
  assumes "calls_safe cloned paged" and "p \<in> A"
  shows "safe A (create_first_storage_node E io cloned changes off p i n cp)"
  unfolding create_first_storage_node_def by (intro safe_intros calls_safeD [OF assms(1)] assms)

lemma safe_account_traversal [safe_intros]:
  assumes "calls_safe cloned paged" and "p \<in> A"
  shows "safe A (handle_account_node_traversal E io cloned paged changes off p i n cp)"
  unfolding handle_account_node_traversal_def
  by (intro safe_intros calls_safeD [OF assms(1)] assms) (rule assms(1))+

lemma safe_cloned_body:
  assumes "calls_safe cloned paged" and "p \<in> A"
  shows "safe A (set_values_in_cloned_page_body E io fuel cloned paged changes off p i)"
  unfolding set_values_in_cloned_page_body_def
  by (intro safe_intros calls_safeD [OF assms(1)] assms) (rule assms(1))+

lemma safe_split_retry:
  assumes "\<And>cs. safe A (cloned cs off p 0)"
  shows "safe A (split_retry k cloned changes off p)"
proof (induction k arbitrary: changes)
  case 0
  show ?case
  proof (rule safeI)
    fix w
    assume "good w" "\<forall>p \<in> A. owned w p"
    then have "good (snd (cloned changes off p 0 w)) \<and> step w (snd (cloned changes off p 0 w))" by (rule safeD [OF assms])
    then show "good (snd (split_retry 0 cloned changes off p w)) \<and> step w (snd (split_retry 0 cloned changes off p w))"
      by (auto simp: split_retry.simps split: prod.splits result.splits engine_error.splits)
  qed
next
  case (Suc k)
  show ?case
  proof (rule safeI)
    fix w
    assume w: "good w" "\<forall>p \<in> A. owned w p"
    obtain r w1 where t: "cloned changes off p 0 w = (r, w1)" by fastforce
    have s: "good w1" "step w w1" using safeD [OF assms w, of changes] t by auto
    then have o1: "\<forall>p \<in> A. owned w1 p" using w(2) step_owned by blast
    show "good (snd (split_retry (Suc k) cloned changes off p w)) \<and> step w (snd (split_retry (Suc k) cloned changes off p w))"
      using s safeD [OF Suc.IH s(1) o1] step_trans
      by (auto simp: split_retry.simps [of "Suc k"] t split: result.splits engine_error.splits)
  qed
qed

lemma safe_paged_body:
  assumes "calls_safe cloned paged"
  shows "safe A (set_values_in_page_body io cloned changes off q)"
  unfolding set_values_in_page_body_def by (intro safe_clone safe_split_retry calls_safeD [OF assms]) simp

lemma calls_safe_set_values: "calls_safe (set_values_in_cloned_page fuel E io) (set_values_in_page fuel E io)"
proof (induction fuel)
  case 0
  show ?case by (simp add: calls_safe_def set_values_in_cloned_page.simps set_values_in_page.simps safe_intros)
next
  case (Suc fuel)
  show ?case
    unfolding calls_safe_def set_values_in_cloned_page.simps set_values_in_page.simps
    by (intro conjI allI impI safe_cloned_body [OF Suc] safe_paged_body [OF Suc])
qed

lemma safe_set_root [safe_intros]: "safe A (set_root E ptr)"
  unfolding set_root_def by (intro safe_intros) auto

lemma safe_set_values_in_trie [safe_intros]: "safe A (set_values_in_trie fuel E io changes)"
  unfolding set_values_in_trie_def invalidate_cache_def apply_root_change_def
  by (intro safe_intros calls_safeD(2) [OF calls_safe_set_values]) auto

lemma safe_set_values: "safe A (set_values fuel E io changes)"
  unfolding set_values_def initialize_empty_trie_def by (intro safe_intros) auto

end

end
