(* ===== verification/Engine_Read.thy ===== *)
theory Engine_Read
  imports Storage_Engine
begin

text \<open>
  The read path (\<open>src/src/storage/engine/read.rs\<close>) and what it promises: \<open>get_value_from_page\<close> on
  pages that hold a trie is the lookup in that trie.

  The abstract trie is the datatype \<open>trie\<close> with the lookup function \<open>trie_lookup\<close>, a function of the
  remaining nibbles. \<open>holds E st S p i t\<close> says that cell \<open>i\<close> of page \<open>p\<close> holds the root of \<open>t\<close>, with
  its children in cells of the same page or at the roots of other pages, all of them in \<open>S\<close>.
\<close>

subsection \<open>Operations\<close>

definition cache_account :: "externals \<Rightarrow> raw_path \<Rightarrow> page_id \<Rightarrow> nat \<Rightarrow> trie_value \<Rightarrow> unit action" where
  "cache_account E original_path p page_index value =
     (case value of
        TAccount account \<Rightarrow>
          if acc_storage_root account \<noteq> x_empty_root_hash E \<and> rp_len original_path = ADDRESS_PATH_LENGTH
          then bindE (asks (\<lambda>w. cx_cache (w_cx w))) (\<lambda>cache.
               bindE (liftE (b512_insert original_path (p, page_index) cache)) (\<lambda>cache.
                 modify_context (\<lambda>cx. cx\<lparr>cx_cache := cache\<rparr>)))
          else returnE ()
      | _ \<Rightarrow> returnE ())"

fun get_value_from_page ::
  "nat \<Rightarrow> externals \<Rightarrow> raw_path \<Rightarrow> nat \<Rightarrow> page_id \<Rightarrow> nat \<Rightarrow> trie_value option action" where
  "get_value_from_page 0 E original_path path_offset p page_index = liftE Diverge"
| "get_value_from_page (Suc fuel) E original_path path_offset p page_index =
     bindE (get_node E p page_index) (\<lambda>n.
     bindE (liftE (raw_path_slice_from original_path path_offset)) (\<lambda>path.
     bindE (liftE (raw_path_of_nibbles (node_prefix n))) (\<lambda>prefix.
       let k = common_prefix_length path prefix in
       if k < length (node_prefix n) then returnE None
       else
         bindE (liftE (raw_path_slice_from original_path (path_offset + k))) (\<lambda>remaining_path.
           if raw_path_is_empty remaining_path then
             bindE (node_result (node_value E n)) (\<lambda>value.
             bindE (cache_account E original_path p page_index value) (\<lambda>_. returnE (Some value)))
           else
             bindE
               (case node_kind n of
                  AccountLeaf _ _ _ root \<Rightarrow> returnE (root, path_offset + k)
                | Branch cs \<Rightarrow>
                    bindE (liftE (raw_path_get_unchecked remaining_path 0)) (\<lambda>b.
                      if unat b < length cs then returnE (cs ! unat b, path_offset + k + 1) else panicE)
                | _ \<Rightarrow> panicE) (\<lambda>(child_pointer, new_path_offset).
               case child_pointer of
                 None \<Rightarrow> returnE None
               | Some ptr \<Rightarrow>
                   (case pointer_cell_index ptr of
                      Some child_index \<Rightarrow> get_value_from_page fuel E original_path new_path_offset p child_index
                    | None \<Rightarrow>
                        bindE (pointer_page_id ptr) (\<lambda>child_page_id.
                        bindE (get_page child_page_id) (\<lambda>child_page.
                          get_value_from_page fuel E original_path new_path_offset child_page 0))))))))"

declare get_value_from_page.simps [simp del]

definition get_account :: "nat \<Rightarrow> externals \<Rightarrow> address_path \<Rightarrow> account option action" where
  "get_account fuel E address_path =
     bindE (asks (\<lambda>w. cx_root_node_page_id (w_cx w))) (\<lambda>root.
       case root of
         None \<Rightarrow> returnE None
       | Some root_page \<Rightarrow>
           bindE (get_page root_page) (\<lambda>page.
           bindE (liftE (raw_path_of_address address_path)) (\<lambda>path.
           bindE (get_value_from_page fuel E path 0 page 0) (\<lambda>v.
             case v of Some (TAccount account) \<Rightarrow> returnE (Some account) | _ \<Rightarrow> returnE None))))"

text \<open>Where the search for a slot starts when the account is in the cache; \<open>None\<close> when it has no storage.\<close>

definition cached_storage_root ::
  "externals \<Rightarrow> storage_path \<Rightarrow> page_id \<Rightarrow> nat \<Rightarrow> (page_id \<times> nat \<times> nat) option action" where
  "cached_storage_root E storage_path page_id page_index =
     bindE (get_page page_id) (\<lambda>page.
     bindE (get_node E page page_index) (\<lambda>n.
     bindE (node_result (direct_child n)) (\<lambda>child_pointer.
       case child_pointer of
         None \<Rightarrow> returnE None
       | Some ptr \<Rightarrow>
           (case pointer_cell_index ptr of
              Some child_index \<Rightarrow> returnE (Some (page, child_index, get_slot_offset storage_path))
            | None \<Rightarrow>
                bindE (pointer_page_id ptr) (\<lambda>child_page_id.
                bindE (get_page child_page_id) (\<lambda>child_page.
                  returnE (Some (child_page, 0, get_slot_offset storage_path))))))))"

definition get_storage :: "nat \<Rightarrow> externals \<Rightarrow> storage_path \<Rightarrow> u256 option action" where
  "get_storage fuel E storage_path =
     bindE (asks (\<lambda>w. cx_root_node_page_id (w_cx w))) (\<lambda>root.
       case root of
         None \<Rightarrow> returnE None
       | Some root_page \<Rightarrow>
           bindE (liftE (raw_path_of_address (sp_address storage_path))) (\<lambda>nibbles.
           bindE (asks (\<lambda>w. cx_cache (w_cx w))) (\<lambda>cache.
           bindE (liftE (b512_get nibbles cache)) (\<lambda>cache_location.
           bindE
             (case cache_location of
                Some (page_id, page_index) \<Rightarrow> cached_storage_root E storage_path page_id page_index
              | None \<Rightarrow> bindE (get_page root_page) (\<lambda>page. returnE (Some (page, 0, 0)))) (\<lambda>start.
             case start of
               None \<Rightarrow> returnE None
             | Some (page, page_index, path_offset) \<Rightarrow>
                 bindE (liftE (raw_path_of_storage storage_path)) (\<lambda>original_path.
                 bindE (get_value_from_page fuel E original_path path_offset page page_index) (\<lambda>v.
                   case v of Some (TStorage value) \<Rightarrow> returnE (Some value) | _ \<Rightarrow> returnE None)))))))"

subsection \<open>Tries\<close>

datatype trie =
    SLeaf nibbles u256
  | ALeaf nibbles account "trie option"
  | Br nibbles "trie option list"

text \<open>The part of \<open>path\<close> behind a prefix.\<close>

fun strip_prefix :: "nibbles \<Rightarrow> nibbles \<Rightarrow> nibbles option" where
  "strip_prefix [] path = Some path"
| "strip_prefix (a # pre) [] = None"
| "strip_prefix (a # pre) (b # path) = (if a = b then strip_prefix pre path else None)"

lemma strip_prefix_Some: "strip_prefix pre path = Some r \<longleftrightarrow> path = pre @ r"
  by (induction pre path rule: strip_prefix.induct) auto

lemma size_child [termination_simp]:
  assumes "k < length cs" and "cs ! k = Some t"
  shows "size t < Suc (size_list (size_option size) cs)"
proof -
  have "size_option size (Some t) < Suc (size_list (size_option size) cs)"
    using size_list_estimation' [of "Some t" cs "size_option size (Some t)" "size_option size"] assms
    by (metis less_Suc_eq_le nth_mem order_refl)
  then show ?thesis by simp
qed

fun trie_lookup :: "trie \<Rightarrow> nibbles \<Rightarrow> trie_value option" where
  "trie_lookup (SLeaf pre v) path = (if strip_prefix pre path = Some [] then Some (TStorage v) else None)"
| "trie_lookup (ALeaf pre a root) path =
     (case strip_prefix pre path of
        None \<Rightarrow> None
      | Some [] \<Rightarrow> Some (TAccount a)
      | Some r \<Rightarrow> (case root of None \<Rightarrow> None | Some t \<Rightarrow> trie_lookup t r))"
| "trie_lookup (Br pre cs) path =
     (case strip_prefix pre path of
        Some (b # r) \<Rightarrow> (if unat b < length cs then case cs ! unat b of None \<Rightarrow> None | Some t \<Rightarrow> trie_lookup t r else None)
      | _ \<Rightarrow> None)"

text \<open>
  The shape of storage tries and of the state trie: every leaf lies at the depth of its key, \<open>n\<close>
  nibbles below the root, and the storage tries hang below the account leaves.
\<close>

fun storage_trie :: "nat \<Rightarrow> trie \<Rightarrow> bool" where
  "storage_trie n (SLeaf pre v) \<longleftrightarrow> length pre = n"
| "storage_trie n (ALeaf pre a root) \<longleftrightarrow> False"
| "storage_trie n (Br pre cs) \<longleftrightarrow>
     length pre < n \<and> length cs = 16 \<and>
     list_all (\<lambda>c. case c of None \<Rightarrow> True | Some t \<Rightarrow> storage_trie (n - length pre - 1) t) cs"

fun account_trie :: "nat \<Rightarrow> trie \<Rightarrow> bool" where
  "account_trie n (SLeaf pre v) \<longleftrightarrow> False"
| "account_trie n (ALeaf pre a root) \<longleftrightarrow> length pre = n \<and> (case root of None \<Rightarrow> True | Some t \<Rightarrow> storage_trie 64 t)"
| "account_trie n (Br pre cs) \<longleftrightarrow>
     length pre < n \<and> length cs = 16 \<and>
     list_all (\<lambda>c. case c of None \<Rightarrow> True | Some t \<Rightarrow> account_trie (n - length pre - 1) t) cs"

subsection \<open>Tries in pages\<close>

definition node_at :: "externals \<Rightarrow> 'a storage_engine_scheme \<Rightarrow> page_id \<Rightarrow> nat \<Rightarrow> node option" where
  "node_at E st p i =
     (case get_value (node_ops E) (pg_data (page_at p st)) i of
        Ok n \<Rightarrow> if nibble_list (node_prefix n) then Some n else None
      | _ \<Rightarrow> None)"

text \<open>Where a pointer in a node of page \<open>p\<close> leads.\<close>

definition child_at :: "'a storage_engine_scheme \<Rightarrow> page_id \<Rightarrow> pointer \<Rightarrow> (page_id \<times> nat) option" where
  "child_at st p ptr =
     (case pointer_cell_index ptr of
        Some i \<Rightarrow> Some (p, i)
      | None \<Rightarrow>
          (case location_page_id (ptr_location ptr) :: (page_id option, unit) result of
             Ok (Some q) \<Rightarrow> if pm_get (se_pages st) q = Ok q then Some (q, 0) else None
           | _ \<Rightarrow> None))"

text \<open>Cell \<open>i\<close> of page \<open>p\<close> holds \<open>t\<close>, all of whose nodes lie in the pages of \<open>S\<close>.\<close>

inductive holds :: "externals \<Rightarrow> 'a storage_engine_scheme \<Rightarrow> page_id set \<Rightarrow> page_id \<Rightarrow> nat \<Rightarrow> trie \<Rightarrow> bool"
  for E :: externals and st :: "'a storage_engine_scheme" and S :: "page_id set" where
  holds_storage_leaf:
    "p \<in> S \<Longrightarrow> node_at E st p i = Some n \<Longrightarrow> node_kind n = StorageLeaf r \<Longrightarrow> x_decode_u256 E r = Some v \<Longrightarrow>
     holds E st S p i (SLeaf (node_prefix n) v)"
| holds_account_leaf:
    "p \<in> S \<Longrightarrow> node_at E st p i = Some n \<Longrightarrow> node_kind n = AccountLeaf nonce bal code root \<Longrightarrow> node_value E n = Ok (TAccount a) \<Longrightarrow>
     (root = None \<and> sub = None) \<or>
     (\<exists>ptr t q j. root = Some ptr \<and> sub = Some t \<and> child_at st p ptr = Some (q, j) \<and> holds E st S q j t) \<Longrightarrow>
     holds E st S p i (ALeaf (node_prefix n) a sub)"
| holds_branch:
    "p \<in> S \<Longrightarrow> node_at E st p i = Some n \<Longrightarrow> node_kind n = Branch cs \<Longrightarrow> length cs = length ts \<Longrightarrow>
     (\<forall>k < length ts. (cs ! k = None \<and> ts ! k = None) \<or>
        (\<exists>ptr t q j. cs ! k = Some ptr \<and> ts ! k = Some t \<and> child_at st p ptr = Some (q, j) \<and> holds E st S q j t)) \<Longrightarrow>
     holds E st S p i (Br (node_prefix n) ts)"

inductive_cases holds_SLeafE: "holds E st S p i (SLeaf pre v)"
inductive_cases holds_ALeafE: "holds E st S p i (ALeaf pre a root)"
inductive_cases holds_BrE: "holds E st S p i (Br pre cs)"

subsection \<open>One step of the search\<close>

lemma lcp_strip:
  "length (longest_common_prefix path pre) < length pre \<longleftrightarrow> strip_prefix pre path = None"
  "strip_prefix pre path = Some r \<Longrightarrow> length (longest_common_prefix path pre) = length pre"
  by (induction pre path rule: strip_prefix.induct) (auto split: if_splits)

lemma strip_prefix_drop: "strip_prefix pre (drop off ns) = Some r \<Longrightarrow> drop (off + length pre) ns = r"
  by (metis append_eq_conv_conj drop_drop add.commute strip_prefix_Some)

lemma nibble_list_drop: "nibble_list ns \<Longrightarrow> nibble_list (drop k ns)"
  by (auto simp: nibble_list_def list_all_iff dest: in_set_dropD)

lemma is_nibble_less: "is_nibble b \<Longrightarrow> unat b < 16"
  by (simp add: is_nibble_def word_le_nat_alt)

lemma node_at_apply:
  "node_at E w p i = Some n \<Longrightarrow> get_node E p i w = (Ok n, w) \<and> nibble_list (node_prefix n)"
  by (auto simp: node_at_def action_simps split: result.splits if_splits)

lemma follow_child:
  assumes "child_at w p ptr = Some (q, j)"
  shows "(case pointer_cell_index ptr of
      Some ci \<Rightarrow> f p ci
    | None \<Rightarrow> bindE (pointer_page_id ptr) (\<lambda>c. bindE (get_page c) (\<lambda>c. f c 0))) w = f q j w"
proof (cases "pointer_cell_index ptr")
  case None
  have "location_page_id (ptr_location ptr) = (Ok (Some q) :: (page_id option, engine_error) result)"
    "pm_get (se_pages w) q = Ok q" "j = 0"
    using assms None by (auto simp: child_at_def location_page_id_def split: result.splits option.splits if_splits)
  then show ?thesis using None by (simp add: pointer_page_id_def action_simps)
qed (use assms in \<open>simp add: child_at_def\<close>)

lemma prefix_found:
  assumes "off \<le> length ns" and "nibble_list ns" and "strip_prefix pre (drop off ns) = Some r"
  shows "off + length pre \<le> length ns" "drop (off + length pre) ns = r" "nibble_list r"
    "r = b # s \<Longrightarrow> drop (off + length pre + 1) ns = s \<and> off + length pre + 1 \<le> length ns \<and> unat b < 16"
proof -
  have e: "drop off ns = pre @ r" using assms(3) by (simp add: strip_prefix_Some)
  then have l: "length ns - off = length pre + length r" by (metis length_append length_drop)
  then show "off + length pre \<le> length ns" using assms(1) by simp
  show d: "drop (off + length pre) ns = r" by (rule strip_prefix_drop [OF assms(3)])
  then show n: "nibble_list r" using assms(2) nibble_list_drop by blast
  assume r: "r = b # s"
  then have "drop 1 (drop (off + length pre) ns) = s" using d by simp
  then have "drop (off + length pre + 1) ns = s" by (simp add: add.commute)
  then show "drop (off + length pre + 1) ns = s \<and> off + length pre + 1 \<le> length ns \<and> unat b < 16"
    using l r n assms(1) by (simp add: nibble_list_def is_nibble_less)
qed

text \<open>The four outcomes of a step at the node \<open>n\<close>.\<close>

lemma search_at_node:
  assumes "node_at E w p i = Some n" and "nibble_list ns" and "off \<le> length ns"
  shows "get_value_from_page (Suc f) E (path_of ns) off p i w =
    (case strip_prefix (node_prefix n) (drop off ns) of
       None \<Rightarrow> (Ok None, w)
     | Some [] \<Rightarrow> bindE (node_result (node_value E n)) (\<lambda>v. bindE (cache_account E (path_of ns) p i v) (\<lambda>_. returnE (Some v))) w
     | Some (b # s) \<Rightarrow>
         bindE
           (case node_kind n of
              AccountLeaf _ _ _ root \<Rightarrow> returnE (root, off + length (node_prefix n))
            | Branch cs \<Rightarrow> if unat b < length cs then returnE (cs ! unat b, off + length (node_prefix n) + 1) else panicE
            | _ \<Rightarrow> panicE) (\<lambda>(child_pointer, new_off).
           case child_pointer of
             None \<Rightarrow> returnE None
           | Some ptr \<Rightarrow>
               (case pointer_cell_index ptr of
                  Some ci \<Rightarrow> get_value_from_page f E (path_of ns) new_off p ci
                | None \<Rightarrow> bindE (pointer_page_id ptr) (\<lambda>c. bindE (get_page c) (\<lambda>c. get_value_from_page f E (path_of ns) new_off c 0)))) w)"
proof -
  have n: "get_node E p i w = (Ok n, w)" "length (node_prefix n) \<le> 128"
    using node_at_apply [OF assms(1)] by (simp_all add: nibble_list_def)
  show ?thesis
  proof (cases "strip_prefix (node_prefix n) (drop off ns)")
    case None
    then show ?thesis
      using n assms(2,3) by (simp add: get_value_from_page.simps(2) action_simps raw_path_ops nibble_list_drop lcp_strip Let_def)
  next
    case (Some r)
    note found = prefix_found(1,2,3) [OF assms(3,2) Some]
    have k: "length (longest_common_prefix (drop off ns) (node_prefix n)) = length (node_prefix n)" by (rule lcp_strip(2) [OF Some])
    show ?thesis
      using n assms(2,3) found k Some
      by (auto simp: get_value_from_page.simps(2) action_simps raw_path_ops nibble_list_drop Let_def raw_path_is_empty_def
          raw_path_get_unchecked_def raw_path_get_def path_of_def [of r] split: list.splits node_kind.splits)
  qed
qed

lemma search_child:
  assumes "child_at w p ptr = Some (q, j)"
  shows "(case pointer_cell_index ptr of
      Some ci \<Rightarrow> get_value_from_page f E path off p ci
    | None \<Rightarrow> bindE (pointer_page_id ptr) (\<lambda>c. bindE (get_page c) (\<lambda>c. get_value_from_page f E path off c 0))) w =
    get_value_from_page f E path off q j w"
  by (rule follow_child [OF assms])

subsection \<open>The search is the lookup\<close>

lemma list_all_child: "list_all (\<lambda>c. case c of None \<Rightarrow> True | Some t \<Rightarrow> P t) cs \<Longrightarrow> k < length cs \<Longrightarrow> cs ! k = Some t \<Longrightarrow> P t"
  by (force simp: list_all_length)

lemma search_storage:
  assumes "storage_trie n t" and "holds E w S p i t" and "nibble_list ns" and "off \<le> length ns" and "length ns - off = n" and "n < fuel"
  shows "get_value_from_page fuel E (path_of ns) off p i w = (Ok (trie_lookup t (drop off ns)), w)"
  using assms
proof (induction n t arbitrary: p i off fuel rule: storage_trie.induct)
  case (1 n pre v)
  from 1(2) obtain nd r where nd: "node_at E w p i = Some nd" "node_kind nd = StorageLeaf r" "x_decode_u256 E r = Some v" "pre = node_prefix nd"
    by (auto elim: holds_SLeafE)
  obtain f where f: "fuel = Suc f" using 1(6) by (cases fuel) auto
  have "strip_prefix pre (drop off ns) \<noteq> Some (b # s)" for b s
    using 1(1,5) by (auto simp: strip_prefix_Some dest: arg_cong [of _ _ length])
  then show ?case
    using search_at_node [OF nd(1) 1(3,4), of f] nd f
    by (auto simp: action_simps node_value_def cache_account_def split: option.splits list.splits)
next
  case (2 n pre a root)
  then show ?case by simp
next
  case (3 n pre cs)
  from 3(3) obtain nd ps where nd: "node_at E w p i = Some nd" "node_kind nd = Branch ps" "length ps = length cs" "pre = node_prefix nd"
    and ch: "\<And>k. k < length cs \<Longrightarrow> (ps ! k = None \<and> cs ! k = None) \<or>
        (\<exists>ptr t q j. ps ! k = Some ptr \<and> cs ! k = Some t \<and> child_at w p ptr = Some (q, j) \<and> holds E w S q j t)"
    by (auto elim!: holds_BrE)
  obtain f where f: "fuel = Suc f" using 3(7) by (cases fuel) auto
  have shape: "length pre < n" "length cs = 16" using 3(2) by auto
  note step = search_at_node [OF nd(1) 3(4,5), of f]
  have ne: "strip_prefix pre (drop off ns) \<noteq> Some []"
    using shape 3(6) by (auto simp: strip_prefix_Some dest: arg_cong [of _ _ length])
  show ?case
  proof (cases "strip_prefix pre (drop off ns)")
    case None
    then show ?thesis using step nd f by simp
  next
    case (Some r)
    with ne obtain b s where bs: "strip_prefix pre (drop off ns) = Some (b # s)" by (cases r) auto
    note found = prefix_found(4) [OF 3(5,4) bs refl]
    then have b: "unat b < length cs" using shape by simp
    show ?thesis
    proof (cases "ps ! unat b")
      case None
      with ch [OF b] show ?thesis using step nd f bs b by (simp add: action_simps)
    next
      case (Some ptr)
      with ch [OF b] obtain t q j where t: "cs ! unat b = Some t" "child_at w p ptr = Some (q, j)" "holds E w S q j t" by auto
      have mem: "Some t \<in> set cs" using t(1) b by (metis nth_mem)
      have "storage_trie (n - length pre - 1) t" using 3(2) t(1) b list_all_child by (auto simp: list_all_length)
      then have "get_value_from_page f E (path_of ns) (off + length pre + 1) q j w = (Ok (trie_lookup t (drop (off + length pre + 1) ns)), w)"
        using 3(1) [of "Some t" t q j "off + length pre + 1" f] mem t(3) f found 3(4,6,7) shape by simp
      then show ?thesis
        using step nd f bs b Some found t search_child [OF t(2)] by (simp add: action_simps)
    qed
  qed
qed

text \<open>A place of the account leaf of \<open>ns\<close> in \<open>t\<close>.\<close>

definition account_loc :: "externals \<Rightarrow> 'a storage_engine_scheme \<Rightarrow> page_id set \<Rightarrow> trie \<Rightarrow> nibbles \<Rightarrow> page_id \<Rightarrow> nat \<Rightarrow> bool" where
  "account_loc E st S t ns q j \<longleftrightarrow>
     pm_get (se_pages st) q = Ok q \<and>
     (\<exists>pre a root. holds E st S q j (ALeaf pre a root) \<and> (case root of None \<Rightarrow> True | Some s \<Rightarrow> storage_trie 64 s) \<and>
        (\<forall>slot. length slot = 64 \<longrightarrow> trie_lookup t (ns @ slot) = (case root of None \<Rightarrow> None | Some s \<Rightarrow> trie_lookup s slot)))"

abbreviation with_cache :: "(page_id \<times> nat) b512_map \<Rightarrow> world \<Rightarrow> world" where
  "with_cache c w \<equiv> w\<lparr>w_cx := (w_cx w)\<lparr>cx_cache := c\<rparr>\<rparr>"

definition caches :: "externals \<Rightarrow> world \<Rightarrow> page_id set \<Rightarrow> trie \<Rightarrow> nibbles \<Rightarrow> nibbles \<Rightarrow> (page_id \<times> nat) b512_map \<Rightarrow> bool" where
  "caches E w S t ns rest c \<longleftrightarrow>
     c = cx_cache (w_cx w) \<or>
     (\<exists>q j. length ns = 64 \<and> c = (cx_cache (w_cx w))(ns \<mapsto> (q, j)) \<and> account_loc E w S t rest q j)"

lemma with_cache_same [simp]: "with_cache (cx_cache (w_cx w)) w = w"
  by (cases w) simp

lemma child_at_get: "child_at w p ptr = Some (q, j) \<Longrightarrow> pm_get (se_pages w) p = Ok p \<Longrightarrow> pm_get (se_pages w) q = Ok q"
  by (auto simp: child_at_def split: option.splits result.splits if_splits)

lemma search_account_leaf:
  assumes "account_trie n (ALeaf pre a root)" and "holds E w S p i (ALeaf pre a root)" and "pm_get (se_pages w) p = Ok p"
    and "nibble_list ns" and "off \<le> length ns" and "length ns - off = n \<or> length ns - off = n + 64" and "n + 65 < fuel"
  shows "\<exists>c. get_value_from_page fuel E (path_of ns) off p i w = (Ok (trie_lookup (ALeaf pre a root) (drop off ns)), with_cache c w) \<and>
    caches E w S (ALeaf pre a root) ns (drop off ns) c"
proof -
  from assms(2) obtain nd nonce bal code rt where nd: "node_at E w p i = Some nd" "node_kind nd = AccountLeaf nonce bal code rt"
    "node_value E nd = Ok (TAccount a)" "pre = node_prefix nd"
    and ch: "(rt = None \<and> root = None) \<or> (\<exists>ptr t q j. rt = Some ptr \<and> root = Some t \<and> child_at w p ptr = Some (q, j) \<and> holds E w S q j t)"
    by (auto elim: holds_ALeafE)
  obtain f where f: "fuel = Suc f" using assms(7) by (cases fuel) auto
  have pre: "length pre = n" "\<And>t. root = Some t \<Longrightarrow> storage_trie 64 t" using assms(1) by auto
  note step = search_at_node [OF nd(1) assms(4,5), of f]
  show ?thesis
  proof (cases "strip_prefix pre (drop off ns)")
    case None
    then show ?thesis using step nd f by (auto simp: caches_def intro!: exI [of _ "cx_cache (w_cx w)"])
  next
    case (Some r)
    note found = prefix_found [OF assms(5,4) Some]
    show ?thesis
    proof (cases r)
      case Nil
      have rest: "drop off ns = pre" using Some Nil by (simp add: strip_prefix_Some)
      have loc: "account_loc E w S (ALeaf pre a root) (drop off ns) p i"
      proof -
        have "trie_lookup (ALeaf pre a root) (pre @ slot) = (case root of None \<Rightarrow> None | Some s \<Rightarrow> trie_lookup s slot)"
          if "length slot = 64" for slot
        proof -
          have "strip_prefix pre (pre @ slot) = Some slot" by (simp add: strip_prefix_Some)
          then show ?thesis using that by (cases slot) auto
        qed
        then show ?thesis
          unfolding account_loc_def rest using assms(2,3) pre(2)
          by (intro conjI exI [of _ pre] exI [of _ a] exI [of _ root]) (auto split: option.splits)
      qed
      show ?thesis
        using step nd f Some Nil loc
        by (auto simp: action_simps cache_account_def caches_def b512_insert_def ADDRESS_PATH_LENGTH_def
            intro: exI [of _ "cx_cache (w_cx w)"])
    next
      case (Cons b s)
      show ?thesis
      proof (cases root)
        case None
        then have "rt = None" using ch by auto
        then show ?thesis using step nd f Some Cons None
          by (auto simp: action_simps caches_def intro!: exI [of _ "cx_cache (w_cx w)"])
      next
        case (Some t)
        then obtain ptr q j where q: "rt = Some ptr" "child_at w p ptr = Some (q, j)" "holds E w S q j t" using ch by auto
        have len: "length ns - (off + length pre) = 64"
          using found(2) Cons assms(6) pre(1) by (cases "length ns - off = n") auto
        have "get_value_from_page f E (path_of ns) (off + length pre) q j w = (Ok (trie_lookup t r), w)"
          using search_storage [OF pre(2) [OF Some] q(3) assms(4) found(1) len, of f] found(2) assms(7) f by simp
        then show ?thesis
          using step nd f Cons Some \<open>strip_prefix pre (drop off ns) = Some r\<close> q search_child [OF q(2)]
          by (auto simp: action_simps caches_def intro!: exI [of _ "cx_cache (w_cx w)"])
      qed
    qed
  qed
qed

lemma caches_child:
  assumes "caches E w S t ns rest c" and "\<And>slot. length slot = 64 \<Longrightarrow> trie_lookup t' (rest' @ slot) = trie_lookup t (rest @ slot)"
  shows "caches E w S t' ns rest' c"
  using assms unfolding caches_def account_loc_def by fastforce

lemma search_account:
  assumes "account_trie n t" and "holds E w S p i t" and "pm_get (se_pages w) p = Ok p"
    and "nibble_list ns" and "off \<le> length ns" and "length ns - off = n \<or> length ns - off = n + 64" and "n + 65 < fuel"
  shows "\<exists>c. get_value_from_page fuel E (path_of ns) off p i w = (Ok (trie_lookup t (drop off ns)), with_cache c w) \<and>
    caches E w S t ns (drop off ns) c"
  using assms
proof (induction n t arbitrary: p i off fuel rule: account_trie.induct)
  case (1 n pre v)
  then show ?case by simp
next
  case (2 n pre a root)
  then show ?case by (rule search_account_leaf)
next
  case (3 n pre cs)
  from 3(3) obtain nd ps where nd: "node_at E w p i = Some nd" "node_kind nd = Branch ps" "length ps = length cs" "pre = node_prefix nd"
    and ch: "\<And>k. k < length cs \<Longrightarrow> (ps ! k = None \<and> cs ! k = None) \<or>
        (\<exists>ptr t q j. ps ! k = Some ptr \<and> cs ! k = Some t \<and> child_at w p ptr = Some (q, j) \<and> holds E w S q j t)"
    by (auto elim!: holds_BrE)
  obtain f where f: "fuel = Suc f" using 3(8) by (cases fuel) auto
  have shape: "length pre < n" "length cs = 16" using 3(2) by auto
  note step = search_at_node [OF nd(1) 3(5,6), of f]
  have ne: "strip_prefix pre (drop off ns) \<noteq> Some []"
    using shape 3(7) by (auto simp: strip_prefix_Some dest: arg_cong [of _ _ length])
  show ?case
  proof (cases "strip_prefix pre (drop off ns)")
    case None
    then show ?thesis using step nd f by (auto simp: caches_def intro!: exI [of _ "cx_cache (w_cx w)"])
  next
    case (Some r)
    with ne obtain b s where bs: "strip_prefix pre (drop off ns) = Some (b # s)" by (cases r) auto
    note found = prefix_found(4) [OF 3(6,5) bs refl]
    then have b: "unat b < length cs" using shape by simp
    show ?thesis
    proof (cases "ps ! unat b")
      case None
      with ch [OF b] show ?thesis using step nd f bs b
        by (auto simp: action_simps caches_def intro!: exI [of _ "cx_cache (w_cx w)"])
    next
      case (Some ptr)
      with ch [OF b] obtain t q j where t: "cs ! unat b = Some t" "child_at w p ptr = Some (q, j)" "holds E w S q j t" by auto
      have mem: "Some t \<in> set cs" using t(1) b by (metis nth_mem)
      have at: "account_trie (n - length pre - 1) t" using 3(2) t(1) b list_all_child by (auto simp: list_all_length)
      have lens: "off + length pre + 1 \<le> length ns" "length ns - (off + length pre + 1) = n - length pre - 1 \<or>
          length ns - (off + length pre + 1) = n - length pre - 1 + 64" "n - length pre - 1 + 65 < f"
        using found 3(7,8) f shape by auto
      obtain c where c: "get_value_from_page f E (path_of ns) (off + length pre + 1) q j w =
          (Ok (trie_lookup t (drop (off + length pre + 1) ns)), with_cache c w)" "caches E w S t ns (drop (off + length pre + 1) ns) c"
        using 3(1) [OF mem refl at t(3) child_at_get [OF t(2) 3(4)] 3(5) lens] by blast
      have "trie_lookup (Br pre cs) (drop off ns @ slot) = trie_lookup t (drop (off + length pre + 1) ns @ slot)" for slot
      proof -
        have "strip_prefix pre (drop off ns @ slot) = Some (b # s @ slot)" using bs by (simp add: strip_prefix_Some)
        then show ?thesis using t(1) b found by simp
      qed
      then have "caches E w S (Br pre cs) ns (drop off ns) c" using caches_child [OF c(2)] by blast
      then show ?thesis
        using step nd f bs b Some found t c(1) search_child [OF t(2)] by (auto simp: action_simps)
    qed
  qed
qed

subsection \<open>Reading accounts and storage\<close>

text \<open>
  The context of a transaction that reads the trie \<open>t\<close>: its root page holds \<open>t\<close>, and the cached
  locations are those of account leaves of \<open>t\<close>.
\<close>

definition reads :: "externals \<Rightarrow> world \<Rightarrow> page_id set \<Rightarrow> trie \<Rightarrow> bool" where
  "reads E w S t \<longleftrightarrow>
     account_trie 64 t \<and>
     (\<exists>r. cx_root_node_page_id (w_cx w) = Some r \<and> pm_get (se_pages w) r = Ok r \<and> holds E w S r 0 t) \<and>
     (\<forall>ns q j. cx_cache (w_cx w) ns = Some (q, j) \<longrightarrow> account_loc E w S t ns q j)"

text \<open>The fuel that suffices: one node for each of the 128 nibbles and for each of the two leaves.\<close>

definition READ_FUEL :: nat where
  "READ_FUEL = 130"

text \<open>Only the pages of \<open>S\<close> matter.\<close>

lemma child_at_frame:
  "child_at st p ptr = Some (q, j) \<Longrightarrow> (pm_get (se_pages st) q = Ok q \<longrightarrow> pm_get (se_pages st') q = Ok q) \<Longrightarrow>
   child_at st' p ptr = Some (q, j)"
  by (auto simp: child_at_def split: option.splits result.splits if_splits)

lemma holds_in: "holds E st S p i t \<Longrightarrow> p \<in> S"
  by (auto elim: holds.cases)

lemma holds_frame:
  assumes "holds E st S p i t"
    and same: "\<forall>p \<in> S. page_at p st' = page_at p st" and got: "\<forall>p \<in> S. pm_get (se_pages st) p = Ok p \<longrightarrow> pm_get (se_pages st') p = Ok p"
  shows "holds E st' S p i t"
  using assms(1)
proof (induction rule: holds.induct)
  case (holds_storage_leaf p i n r v)
  then show ?case using same by (intro holds.holds_storage_leaf) (auto simp: node_at_def)
next
  case (holds_account_leaf p i n nonce bal code root a sub)
  have "node_at E st' p i = Some n" using holds_account_leaf(1,2) same by (simp add: node_at_def)
  moreover have "(root = None \<and> sub = None) \<or>
      (\<exists>ptr t q j. root = Some ptr \<and> sub = Some t \<and> child_at st' p ptr = Some (q, j) \<and> holds E st' S q j t)"
    using holds_account_leaf(5) child_at_frame [of st p _ _ _ st'] got holds_in by blast
  ultimately show ?case using holds_account_leaf(1,3,4) by (intro holds.holds_account_leaf) auto
next
  case (holds_branch p i n cs ts)
  have "node_at E st' p i = Some n" using holds_branch(1,2) same by (simp add: node_at_def)
  moreover have "\<forall>k < length ts. (cs ! k = None \<and> ts ! k = None) \<or>
      (\<exists>ptr t q j. cs ! k = Some ptr \<and> ts ! k = Some t \<and> child_at st' p ptr = Some (q, j) \<and> holds E st' S q j t)"
    using holds_branch(5) child_at_frame [of st p _ _ _ st'] got holds_in by blast
  ultimately show ?case using holds_branch(1,3,4) by (intro holds.holds_branch) auto
qed

lemma holds_with_cache: "holds E w S p i t \<Longrightarrow> holds E (with_cache c w) S p i t"
  by (erule holds_frame) auto

lemma reads_with_cache:
  assumes "reads E w S t" and "caches E w S t ns ns c"
  shows "reads E (with_cache c w) S t"
proof -
  have "account_loc E (with_cache c w) S t ns q j" if "account_loc E w S t ns q j" for ns q j
    using that unfolding account_loc_def by (fastforce intro: holds_with_cache)
  then show ?thesis using assms unfolding reads_def caches_def by (auto intro: holds_with_cache split: if_splits)
qed

lemma raw_path_of_address_eq: "length (ap_path a) \<le> 128 \<Longrightarrow> raw_path_of_address a = Ok (path_of (ap_path a))"
  by (simp add: raw_path_of_address_def raw_path_of_nibbles_eq)

lemma raw_path_of_storage_eq:
  assumes "list_all is_nibble (ap_path (sp_address s))" and "list_all is_nibble (sp_slot s)"
    and "length (ap_path (sp_address s)) = 64" and "length (sp_slot s) = 64"
  shows "raw_path_of_storage s = Ok (path_of (ap_path (sp_address s) @ sp_slot s))"
  using assms by (simp add: raw_path_of_storage_def raw_path_of_address_eq raw_path_of_nibbles_eq raw_path_join_def raw_path_ops nibble_list_def)

lemma cached_storage_root_eq:
  assumes "account_loc E w S t ns q j" and "length (ap_path (sp_address s)) = 64"
  shows "\<exists>root. (\<forall>slot. length slot = 64 \<longrightarrow> trie_lookup t (ns @ slot) = (case root of None \<Rightarrow> None | Some s \<Rightarrow> trie_lookup s slot)) \<and>
    (case root of
       None \<Rightarrow> cached_storage_root E s q j w = (Ok None, w)
     | Some u \<Rightarrow> storage_trie 64 u \<and> (\<exists>p i. cached_storage_root E s q j w = (Ok (Some (p, i, 64)), w) \<and> holds E w S p i u))"
proof -
  obtain pre a root where r: "pm_get (se_pages w) q = Ok q" "holds E w S q j (ALeaf pre a root)"
    "\<And>u. root = Some u \<Longrightarrow> storage_trie 64 u"
    "\<forall>slot. length slot = 64 \<longrightarrow> trie_lookup t (ns @ slot) = (case root of None \<Rightarrow> None | Some s \<Rightarrow> trie_lookup s slot)"
    using assms(1) by (force simp: account_loc_def)
  from r(2) obtain nd nonce bal code rt where nd: "node_at E w q j = Some nd" "node_kind nd = AccountLeaf nonce bal code rt"
    and ch: "(rt = None \<and> root = None) \<or> (\<exists>ptr t q' j'. rt = Some ptr \<and> root = Some t \<and> child_at w q ptr = Some (q', j') \<and> holds E w S q' j' t)"
    by (auto elim: holds_ALeafE)
  have g: "get_node E q j w = (Ok nd, w)" using node_at_apply [OF nd(1)] by simp
  show ?thesis
  proof (cases root)
    case None
    then have "cached_storage_root E s q j w = (Ok None, w)"
      using g nd ch r(1) by (auto simp: cached_storage_root_def action_simps direct_child_def)
    then show ?thesis using None r(4) by (intro exI [of _ root]) simp
  next
    case (Some u)
    then obtain ptr p i where c: "rt = Some ptr" "child_at w q ptr = Some (p, i)" "holds E w S p i u" using ch by auto
    have "cached_storage_root E s q j w = (Ok (Some (p, i, 64)), w)"
      using follow_child [OF c(2), of "\<lambda>x y. returnE (Some (x, y, get_slot_offset s))"] g nd c(1) r(1) assms(2)
      by (simp add: cached_storage_root_def action_simps direct_child_def get_slot_offset_def)
    then show ?thesis using Some r(3,4) c(3) by (intro exI [of _ root]) auto
  qed
qed

subsection \<open>A concrete state\<close>

text \<open>One page with a single account leaf, committed in snapshot 1, and a transaction that reads it.\<close>

definition sample_account :: account where
  "sample_account =
     \<lparr>acc_nonce = 1, acc_balance = 2, acc_storage_root = x_empty_root_hash sample_externals,
      acc_code_hash = x_keccak_empty sample_externals\<rparr>"

definition sample_leaf :: node where
  "sample_leaf = node_new (replicate 64 0) (AccountLeaf (x_encode_u64 sample_externals 1)
     (x_encode_u256 sample_externals 2) (x_keccak_empty sample_externals) None)"

definition sample_contents :: bytes where
  "sample_contents = snd (insert_value (node_ops sample_externals) (replicate 4088 0) sample_leaf)"

definition sample_world :: world where
  "sample_world =
     \<lparr>se_pages = \<lparr>mmap = (\<lambda>_. \<lparr>pg_state = 0, pg_data = replicate 4088 0\<rparr>)(1 := \<lparr>pg_state = 1, pg_data = sample_contents\<rparr>),
        mmap_len = 8192, file_len = 8192, pm_page_count = 1\<rparr>,
      se_meta = sample_meta, se_alive = 0,
      w_cx = \<lparr>cx_snapshot_id = 2, cx_root_node_hash = replicate 32 7, cx_root_node_page_id = Some 1,
        cx_page_count = 1, cx_cache = Map.empty\<rparr>\<rparr>"

lemma nibble_replicate [simp]: "is_nibble x \<Longrightarrow> list_all is_nibble (replicate n x)"
  by (simp add: list_all_iff)

lemma is_nibble_numeral [simp]: "is_nibble 0" "is_nibble 5"
  by (simp_all add: is_nibble_def)

lemma sample_leaf_wf: "node_wf sample_leaf" "node_value sample_externals sample_leaf = Ok (TAccount sample_account)"
proof -
  have "length (x_keccak_empty sample_externals) = 32" by (simp add: sample_externals_def)
  then show "node_wf sample_leaf" "node_value sample_externals sample_leaf = Ok (TAccount sample_account)"
    using sample_rlp_int_laws
    by (simp_all add: sample_leaf_def node_wf_def node_new_def node_kind_wf_def rlp_int_laws_def node_value_def
        sample_account_def)
qed

lemma sample_stored: "page_inv sample_contents" "stores (node_ops sample_externals) (replicate 4088 0) 0 sample_leaf sample_contents"
proof -
  have laws: "codec_laws sample_externals \<and> node_wf sample_leaf"
    using sample_laws sample_leaf_wf by (simp add: codec_laws_def)
  have "rlp_int_string 9 (x_encode_u64 sample_externals 1)" "rlp_int_string 33 (x_encode_u256 sample_externals 2)"
    using sample_rlp_int_laws by (simp_all add: rlp_int_laws_def)
  then have "length (x_encode_u64 sample_externals 1) \<le> 9" "length (x_encode_u256 sample_externals 2) \<le> 33"
    by (auto simp: rlp_int_string_def split: if_splits)
  then have size: "v_size (node_ops sample_externals) sample_leaf \<le> 4084"
    by (simp add: node_ops_def sample_leaf_def node_new_def node_size_def packed_length_def)
  obtain c where "insert_value (node_ops sample_externals) (replicate 4088 0) sample_leaf = (Ok 0, c)" "page_inv c"
    "stores (node_ops sample_externals) (replicate 4088 0) 0 sample_leaf c"
    using insert_value_cases [OF empty_page_inv node_value.value_codec_axioms laws] empty_page_free(1) empty_page_fits size
    by (auto split: if_splits)
  then show "page_inv sample_contents" "stores (node_ops sample_externals) (replicate 4088 0) 0 sample_leaf sample_contents"
    by (simp_all add: sample_contents_def)
qed

lemma sample_get_leaf: "get_value (node_ops sample_externals) sample_contents 0 = Ok sample_leaf"
  using sample_stored by (simp add: stores_get_value [of _ "replicate 4088 0"])

lemma sample_get_other: "i \<noteq> 0 \<Longrightarrow> get_value (node_ops sample_externals) sample_contents i = Err InvalidCellPointer"
  using stores_get_other [OF sample_stored(2) empty_page_inv sample_stored(1)] by (simp add: get_value_def get_cell_pointer_def num_cells_def)

lemma sample_reads: "reads sample_externals sample_world {1} (ALeaf (replicate 64 0) sample_account None)"
proof -
  have "node_at sample_externals sample_world 1 0 = Some sample_leaf"
    using sample_get_leaf by (simp add: node_at_def page_at_def sample_world_def sample_leaf_def node_new_def nibble_list_def)
  then have "holds sample_externals sample_world {1} 1 0 (ALeaf (node_prefix sample_leaf) sample_account None)"
    using sample_leaf_wf(2) by (intro holds_account_leaf) (auto simp: sample_leaf_def node_new_def)
  then show ?thesis
    by (simp add: reads_def sample_leaf_def node_new_def sample_world_def pm_get_def in_memory_def page_id_as_offset_def
        PAGE_SIZE_def page_from_ptr_def raw_state_load_def page_state_of_u64_def DIRTY_MASK_def)
qed

subsection \<open>Reading changes only the cache\<close>

text \<open>An action that leaves everything but the cache of the context as it is, on every outcome.\<close>

definition quiet :: "'a action \<Rightarrow> bool" where
  "quiet m \<longleftrightarrow> (\<forall>w. \<exists>c. snd (m w) = with_cache c w)"

named_theorems quiet_intros \<open>actions that change only the cache\<close>

lemma quiet_bind [quiet_intros]:
  assumes "quiet m" and "\<And>x. quiet (f x)"
  shows "quiet (bindE m f)"
  unfolding quiet_def
proof
  fix w
  obtain r c where m: "m w = (r, with_cache c w)" using assms(1) unfolding quiet_def by (metis prod.collapse)
  have "\<exists>d. snd (f x (with_cache c w)) = with_cache d w" for x
  proof -
    obtain d where "snd (f x (with_cache c w)) = with_cache d (with_cache c w)" using assms(2) unfolding quiet_def by blast
    then show ?thesis by (intro exI [of _ d]) simp
  qed
  then show "\<exists>c. snd (bindE m f w) = with_cache c w"
    using m by (cases r) (auto simp: bindE_apply)
qed

lemma quiet_same: "(\<And>w. snd (m w) = w) \<Longrightarrow> quiet m"
  unfolding quiet_def by (metis with_cache_same)

lemma quiet_return [quiet_intros]:
  "quiet (returnE x)" "quiet (liftE r)" "quiet panicE" "quiet (asks g)" "quiet (read_page p h)" "quiet (get_page p)"
  by (rule quiet_same, simp add: action_simps get_page_apply)+

lemma quiet_pointer_page_id [quiet_intros]: "quiet (pointer_page_id ptr)"
  unfolding pointer_page_id_def by (intro quiet_intros)

lemma quiet_cases [quiet_intros]:
  "(b \<Longrightarrow> quiet m) \<Longrightarrow> (\<not> b \<Longrightarrow> quiet m') \<Longrightarrow> quiet (if b then m else m')"
  "(\<And>x. quiet (g x)) \<Longrightarrow> quiet (let x = e in g x)"
  "quiet m \<Longrightarrow> (\<And>x. quiet (f x)) \<Longrightarrow> quiet (case o1 of None \<Rightarrow> m | Some x \<Rightarrow> f x)"
  "(\<And>x y. quiet (h x y)) \<Longrightarrow> quiet (case z of (x, y) \<Rightarrow> h x y)"
  "(\<And>x. quiet (k x)) \<Longrightarrow> (\<And>x. quiet (k' x)) \<Longrightarrow> quiet (case tv of TAccount x \<Rightarrow> k x | TStorage x \<Rightarrow> k' x)"
  by (simp, simp, cases o1, simp, simp, cases z, simp, cases tv, simp_all)

lemma quiet_cache [quiet_intros]: "quiet (modify_context (\<lambda>cx. cx\<lparr>cx_cache := c\<rparr>))"
  by (auto simp: quiet_def action_simps)

lemma quiet_cache_account [quiet_intros]: "quiet (cache_account E path p i v)"
  unfolding cache_account_def by (intro quiet_intros)

lemma quiet_kind [quiet_intros]:
  "(\<And>r. quiet (f r)) \<Longrightarrow> (\<And>cs. quiet (g cs)) \<Longrightarrow> quiet m \<Longrightarrow>
   quiet (case k of AccountLeaf a b c root \<Rightarrow> f root | Branch cs \<Rightarrow> g cs | StorageLeaf v \<Rightarrow> m)"
  by (cases k) simp_all

lemma quiet_get_value_from_page [quiet_intros]: "quiet (get_value_from_page fuel E path off p i)"
  by (induction fuel arbitrary: off p i) (unfold get_value_from_page.simps, (intro quiet_intros | assumption)+)

lemma quiet_get_account: "quiet (get_account fuel E a)"
  unfolding get_account_def by (intro quiet_intros)

lemma quiet_get_storage: "quiet (get_storage fuel E s)"
  unfolding get_storage_def cached_storage_root_def by (intro quiet_intros)

subsection \<open>The read operations\<close>

lemma get_account_correct:
  assumes "reads E w S t" and "list_all is_nibble (ap_path a)" and "length (ap_path a) = 64"
  shows "\<exists>c. get_account READ_FUEL E a w =
      (Ok (case trie_lookup t (ap_path a) of Some (TAccount acc) \<Rightarrow> Some acc | _ \<Rightarrow> None), with_cache c w) \<and>
    reads E (with_cache c w) S t"
proof -
  obtain r where r: "cx_root_node_page_id (w_cx w) = Some r" "pm_get (se_pages w) r = Ok r" "holds E w S r 0 t" "account_trie 64 t"
    using assms(1) by (auto simp: reads_def)
  have ns: "nibble_list (ap_path a)" using assms(2,3) by (simp add: nibble_list_def)
  obtain c where c: "get_value_from_page READ_FUEL E (path_of (ap_path a)) 0 r 0 w = (Ok (trie_lookup t (ap_path a)), with_cache c w)"
    "caches E w S t (ap_path a) (ap_path a) c"
    using search_account [OF r(4,3,2) ns, of 0 READ_FUEL] assms(3) by (auto simp: READ_FUEL_def)
  have "get_account READ_FUEL E a w =
      (Ok (case trie_lookup t (ap_path a) of Some (TAccount acc) \<Rightarrow> Some acc | _ \<Rightarrow> None), with_cache c w)"
    using r(1,2) c(1) assms(3)
    by (simp add: get_account_def action_simps raw_path_of_address_eq split: option.splits trie_value.splits)
  then show ?thesis using reads_with_cache [OF assms(1) c(2)] by blast
qed

lemma get_storage_correct:
  assumes "reads E w S t" and "list_all is_nibble (ap_path (sp_address s))" and "length (ap_path (sp_address s)) = 64"
    and "list_all is_nibble (sp_slot s)" and "length (sp_slot s) = 64"
  shows "get_storage READ_FUEL E s w =
    (Ok (case trie_lookup t (ap_path (sp_address s) @ sp_slot s) of Some (TStorage v) \<Rightarrow> Some v | _ \<Rightarrow> None), w)"
proof -
  define ns where "ns = ap_path (sp_address s) @ sp_slot s"
  obtain r where r: "cx_root_node_page_id (w_cx w) = Some r" "pm_get (se_pages w) r = Ok r" "holds E w S r 0 t" "account_trie 64 t"
    and cache: "\<And>ns q j. cx_cache (w_cx w) ns = Some (q, j) \<Longrightarrow> account_loc E w S t ns q j"
    using assms(1) by (auto simp: reads_def)
  have ns: "nibble_list ns" "length ns = 128" using assms(2-5) by (simp_all add: nibble_list_def ns_def)
  have paths: "raw_path_of_storage s = (Ok (path_of ns) :: (_, engine_error) result)"
    "raw_path_of_address (sp_address s) = (Ok (path_of (ap_path (sp_address s))) :: (_, engine_error) result)"
    using raw_path_of_storage_eq [OF assms(2,4,3,5)] assms(3) by (simp_all add: raw_path_of_address_eq ns_def)
  show ?thesis
  proof (cases "cx_cache (w_cx w) (ap_path (sp_address s))")
    case None
    obtain c where "get_value_from_page READ_FUEL E (path_of ns) 0 r 0 w = (Ok (trie_lookup t ns), with_cache c w)" "caches E w S t ns ns c"
      using search_account [OF r(4,3,2) ns(1), of 0 READ_FUEL] ns(2) by (auto simp: READ_FUEL_def)
    then show ?thesis
      using r(1,2) paths None ns(2) assms(3)
      by (auto simp: get_storage_def action_simps caches_def b512_get_def ns_def [symmetric] split: option.splits trie_value.splits)
  next
    case (Some loc)
    then obtain q j where loc: "cx_cache (w_cx w) (ap_path (sp_address s)) = Some (q, j)" by (cases loc) auto
    obtain root where root: "trie_lookup t ns = (case root of None \<Rightarrow> None | Some u \<Rightarrow> trie_lookup u (sp_slot s))"
      "case root of None \<Rightarrow> cached_storage_root E s q j w = (Ok None, w)
       | Some u \<Rightarrow> storage_trie 64 u \<and> (\<exists>p i. cached_storage_root E s q j w = (Ok (Some (p, i, 64)), w) \<and> holds E w S p i u)"
      using cached_storage_root_eq [OF cache [OF loc] assms(3)] assms(5) ns_def by blast
    have "get_value_from_page READ_FUEL E (path_of ns) 64 p i w = (Ok (trie_lookup u (sp_slot s)), w)"
      if "root = Some u" "storage_trie 64 u" "holds E w S p i u" for u p i
      using search_storage [OF that(2,3) ns(1), of 64 READ_FUEL] ns(2) assms(3) by (simp add: READ_FUEL_def ns_def)
    then show ?thesis
      using root r(1) loc paths assms(3)
      by (cases root) (auto simp: get_storage_def action_simps b512_get_def ns_def [symmetric] split: option.splits trie_value.splits)
  qed
qed

subsection \<open>Properties\<close>

text \<open>
  C6. Reading an account: when the pages of a context hold the trie \<open>t\<close>, \<open>get_account\<close> returns what the
  lookup of the address in \<open>t\<close> gives, within a fuel of 130 steps whatever the size of the trie; it
  changes nothing but the cache of the context, whose entries stay correct.
\<close>

theorem get_account_refines_lookup:
  assumes "reads E w S t" and "list_all is_nibble (ap_path a)" and "length (ap_path a) = 64"
  shows "\<exists>c. get_account READ_FUEL E a w =
      (Ok (case trie_lookup t (ap_path a) of Some (TAccount acc) \<Rightarrow> Some acc | _ \<Rightarrow> None), with_cache c w) \<and>
    reads E (with_cache c w) S t"
  using get_account_correct [OF assms] .

theorem get_account_refines_lookup_witness:
  "\<exists>w'. get_account READ_FUEL sample_externals \<lparr>ap_path = replicate 64 0\<rparr> sample_world = (Ok (Some sample_account), w')"
proof -
  have "strip_prefix (replicate 64 0) (replicate 64 (0 :: byte)) = Some []" by (simp add: strip_prefix_Some)
  then show ?thesis
    using get_account_refines_lookup [OF sample_reads, of "\<lparr>ap_path = replicate 64 0\<rparr>"] by auto
qed

text \<open>
  C5. Reading a storage slot: whether the search starts at the root of the state trie or at the cached
  location of the account, \<open>get_storage\<close> returns what the lookup of the whole path in \<open>t\<close> gives and
  leaves the state as it was.
\<close>

theorem get_storage_refines_lookup:
  assumes "reads E w S t" and "list_all is_nibble (ap_path (sp_address s))" and "length (ap_path (sp_address s)) = 64"
    and "list_all is_nibble (sp_slot s)" and "length (sp_slot s) = 64"
  shows "get_storage READ_FUEL E s w =
    (Ok (case trie_lookup t (ap_path (sp_address s) @ sp_slot s) of Some (TStorage v) \<Rightarrow> Some v | _ \<Rightarrow> None), w)"
  using get_storage_correct [OF assms] .

theorem get_storage_refines_lookup_witness:
  "get_storage READ_FUEL sample_externals
     \<lparr>sp_address = \<lparr>ap_path = replicate 64 0\<rparr>, sp_slot = replicate 64 5\<rparr> sample_world = (Ok None, sample_world)"
proof -
  have "strip_prefix (replicate 64 0) (replicate 64 0 @ replicate 64 (5 :: byte)) = Some (replicate 64 5)"
    by (simp add: strip_prefix_Some)
  moreover have "replicate 64 (5 :: byte) = 5 # replicate 63 5" by code_simp
  ultimately show ?thesis
    using get_storage_refines_lookup [OF sample_reads, of "\<lparr>sp_address = \<lparr>ap_path = replicate 64 0\<rparr>, sp_slot = replicate 64 5\<rparr>"]
    by auto
qed

end
