(* ===== verification/Copy_On_Write.thy ===== *)
theory Copy_On_Write
  imports Write_Protocol Engine_Read
begin

text \<open>
  Copy-on-write: the write path never touches a page that an older snapshot may still read.

  A page is \<open>shielded\<close> in a world when it is occupied by another snapshot than the one being written
  and is not on the part of the orphan list that may be reused; it is \<open>held\<close> when the running
  transaction has a write handle of it. \<open>cow_step\<close> relates two worlds of a transaction when every
  shielded page is the same in both, held pages are still held, and the committed metadata are
  unchanged. The interpretation \<open>cow\<close> of \<open>write_protocol\<close> shows that this holds for the whole write
  path, on success and on every error.
\<close>

definition snap :: "world \<Rightarrow> snapshot_id" where
  "snap w = cx_snapshot_id (w_cx w)"

definition page_limit :: "world \<Rightarrow> u32" where
  "page_limit w = pm_page_count (se_pages w)"

definition reusable :: "world \<Rightarrow> page_id set" where
  "reusable w = op_page_id ` {o1 \<in> set (current_orphans (se_meta w)). op_orphaned_at o1 \<le> se_alive w}"

definition shielded :: "world \<Rightarrow> page_id \<Rightarrow> bool" where
  "shielded w p \<longleftrightarrow>
     p \<le> page_limit w \<and> (case state_of (page_at p w) of Occupied s \<Rightarrow> s \<noteq> snap w | _ \<Rightarrow> False) \<and> p \<notin> reusable w"

definition held :: "world \<Rightarrow> page_id \<Rightarrow> bool" where
  "held w p \<longleftrightarrow> p \<le> page_limit w \<and> state_of (page_at p w) = Dirty (snap w)"

definition cow_good :: "externals \<Rightarrow> io_outcomes \<Rightarrow> world \<Rightarrow> bool" where
  "cow_good E io w \<longleftrightarrow> mm_inv E (se_meta w) \<and> bounded_io (io_meta_file io) \<and> se_alive w < snap w \<and> \<not> bit (snap w) 63"

definition pm_extends :: "page_manager \<Rightarrow> page_manager \<Rightarrow> bool" where
  "pm_extends pm pm' \<longleftrightarrow> pm_page_count pm \<le> pm_page_count pm' \<and> mmap_len pm' = mmap_len pm \<and> file_len pm \<le> file_len pm'"

text \<open>The orphan list of a transaction: entries leave at the head, the new ones bear its snapshot.\<close>

definition queue_step :: "snapshot_id \<Rightarrow> orphan_page list \<Rightarrow> orphan_page list \<Rightarrow> bool" where
  "queue_step sid xs ys \<longleftrightarrow> (\<exists>k os. ys = drop k xs @ os \<and> (\<forall>o1 \<in> set os. op_orphaned_at o1 = sid))"

definition cow_step :: "world \<Rightarrow> world \<Rightarrow> bool" where
  "cow_step w w' \<longleftrightarrow>
     snap w' = snap w \<and> se_alive w' = se_alive w \<and> pm_extends (se_pages w) (se_pages w') \<and> reusable w' \<subseteq> reusable w \<and>
     queue_step (snap w) (current_orphans (se_meta w)) (current_orphans (se_meta w')) \<and>
     (\<forall>p. shielded w p \<longrightarrow> page_at p w' = page_at p w) \<and> (\<forall>p. held w p \<longrightarrow> held w' p) \<and>
     active_slot (se_meta w') = active_slot (se_meta w) \<and> committed_orphans (se_meta w') = committed_orphans (se_meta w)"

subsection \<open>The relation\<close>

lemma queue_step_refl [simp]: "queue_step sid xs xs"
  unfolding queue_step_def by (intro exI [of _ 0] exI [of _ "[]"]) simp

lemma queue_step_trans: "queue_step sid xs ys \<Longrightarrow> queue_step sid ys zs \<Longrightarrow> queue_step sid xs zs"
  unfolding queue_step_def
proof (elim exE conjE)
  fix k os l os'
  assume *: "ys = drop k xs @ os" "\<forall>o1 \<in> set os. op_orphaned_at o1 = sid" "zs = drop l ys @ os'" "\<forall>o1 \<in> set os'. op_orphaned_at o1 = sid"
  let ?os = "drop (l - length (drop k xs)) os @ os'"
  have "zs = drop (l + k) xs @ ?os" using *(1,3) by simp
  moreover have "\<forall>o1 \<in> set ?os. op_orphaned_at o1 = sid" using *(2,4) by (auto dest: in_set_dropD)
  ultimately show "\<exists>k os. zs = drop k xs @ os \<and> (\<forall>o1 \<in> set os. op_orphaned_at o1 = sid)" by blast
qed

lemma queue_step_push: "op_orphaned_at x = sid \<Longrightarrow> queue_step sid xs (xs @ [x])"
  unfolding queue_step_def by (intro exI [of _ 0] exI [of _ "[x]"]) simp

lemma queue_step_pop: "queue_step sid xs (case xs of x # ys \<Rightarrow> if b x then ys else x # ys | [] \<Rightarrow> [])"
  unfolding queue_step_def
  by (cases xs) (auto intro: exI [of _ 0] exI [of _ "Suc 0"])

lemma queue_step_member: "queue_step sid xs ys \<Longrightarrow> y \<in> set ys \<Longrightarrow> y \<in> set xs \<or> op_orphaned_at y = sid"
  by (auto simp: queue_step_def dest: in_set_dropD)

lemma page_at_put [simp]: "page_at q (put_page p raw w) = (if q = p then raw else page_at q w)"
  by (simp add: page_at_def put_page_def)

lemma put_page_fields [simp]:
  "se_meta (put_page p raw w) = se_meta w" "se_alive (put_page p raw w) = se_alive w" "w_cx (put_page p raw w) = w_cx w"
  "snap (put_page p raw w) = snap w" "page_limit (put_page p raw w) = page_limit w" "reusable (put_page p raw w) = reusable w"
  "pm_extends (se_pages w) (se_pages (put_page p raw w))" "pm_extends pm (se_pages (put_page p raw w)) \<longleftrightarrow> pm_extends pm (se_pages w)"
  by (simp_all add: put_page_def snap_def page_limit_def reusable_def pm_extends_def)

lemma shielded_step: "cow_step w w' \<Longrightarrow> shielded w p \<Longrightarrow> shielded w' p"
  unfolding cow_step_def shielded_def pm_extends_def page_limit_def by (auto split: page_state.splits)

lemma pm_extends_refl [simp]: "pm_extends pm pm"
  by (simp add: pm_extends_def)

lemma pm_extends_trans: "pm_extends pm1 pm2 \<Longrightarrow> pm_extends pm2 pm3 \<Longrightarrow> pm_extends pm1 pm3"
  by (auto simp: pm_extends_def)

lemma cow_step_refl: "cow_step w w"
  by (simp add: cow_step_def)

lemma cow_step_trans: "cow_step w1 w2 \<Longrightarrow> cow_step w2 w3 \<Longrightarrow> cow_step w1 w3"
  using shielded_step [of w1 w2] pm_extends_trans queue_step_trans by (auto simp: cow_step_def)

text \<open>Changing a page that is not shielded.\<close>

lemma cow_step_put:
  assumes "\<not> shielded w p" and "held w p \<Longrightarrow> state_of raw = Dirty (snap w)"
  shows "cow_step w (put_page p raw w)"
  using assms by (auto simp: cow_step_def held_def shielded_def)

lemma held_not_shielded: "held w p \<Longrightarrow> \<not> shielded w p"
  by (simp add: held_def shielded_def)

text \<open>A page that the transaction has acquired between \<open>w\<close> and \<open>w'\<close>.\<close>

definition acquired :: "externals \<Rightarrow> io_outcomes \<Rightarrow> world \<Rightarrow> page_id \<Rightarrow> world \<Rightarrow> bool" where
  "acquired E io w p w' \<longleftrightarrow> cow_good E io w' \<and> cow_step w w' \<and> held w' p \<and> \<not> shielded w p \<and> \<not> held w p"

lemma acquired_step: "acquired E io w p w' \<Longrightarrow> cow_good E io w'' \<Longrightarrow> cow_step w' w'' \<Longrightarrow> acquired E io w p w''"
  unfolding acquired_def using cow_step_trans cow_step_def by blast

lemma acquired_trans:
  assumes "cow_step w w1" and "acquired E io w1 p w2" shows "acquired E io w p w2"
proof -
  have "\<not> shielded w p" "\<not> held w p"
    using assms shielded_step [OF assms(1)] by (auto simp: acquired_def cow_step_def [of w w1])
  then show ?thesis using assms cow_step_trans by (auto simp: acquired_def)
qed

lemma acquired_drop:
  assumes "acquired E io w p w'"
  shows "cow_good E io (drop_page p w') \<and> cow_step w (drop_page p w')"
  using assms by (auto simp: acquired_def drop_page_def cow_good_def cow_step_def held_def)

lemma good_context: "cow_good E io w \<Longrightarrow> cx_snapshot_id c = cx_snapshot_id (w_cx w) \<Longrightarrow>
    cow_good E io (w\<lparr>w_cx := c\<rparr>) \<and> cow_step w (w\<lparr>w_cx := c\<rparr>)"
  by (simp add: cow_good_def cow_step_def snap_def page_limit_def reusable_def shielded_def held_def)

lemma write_held:
  assumes "cow_good E io w" and "held w p"
  shows "cow_good E io (put_page p ((page_at p w)\<lparr>pg_data := bs\<rparr>) w) \<and> cow_step w (put_page p ((page_at p w)\<lparr>pg_data := bs\<rparr>) w)"
  using assms held_not_shielded [OF assms(2)] by (auto simp: cow_good_def held_def intro!: cow_step_put)

subsection \<open>The primitives\<close>

lemma orphan_page_steps:
  assumes "cow_good E io w"
  shows "cow_good E io (snd (orphan_page_action io p w)) \<and> cow_step w (snd (orphan_page_action io p w))"
proof -
  have inv: "mm_inv E (se_meta w)" "bounded_io (io_meta_file io)" and lt: "\<not> snap w \<le> se_alive w"
    using assms by (auto simp: cow_good_def)
  show ?thesis
  proof (rule orphans_push_cases [OF inv, of "orphan_page_new p (snap w)"])
    fix mm'
    assume m: "orphans_push (io_meta_file io) (orphan_page_new p (snap w)) (se_meta w) = (Ok (), mm')" "mm_inv E mm'"
      "current_orphans mm' = current_orphans (se_meta w) @ [orphan_page_new p (snap w)]"
      "committed_orphans mm' = committed_orphans (se_meta w)" "active_slot mm' = active_slot (se_meta w)"
    have r: "orphan_page_action io p w = (Ok (), w\<lparr>se_meta := mm'\<rparr>)"
      using m(1) by (simp add: orphan_page_action_def action_simps meta_action_def snap_def)
    have "reusable (w\<lparr>se_meta := mm'\<rparr>) = reusable w"
      using lt by (auto simp: reusable_def m(3) orphan_page_new_def)
    moreover have "queue_step (snap w) (current_orphans (se_meta w)) (current_orphans mm')"
      unfolding m(3) by (rule queue_step_push) (simp add: orphan_page_new_def)
    ultimately have "cow_step w (w\<lparr>se_meta := mm'\<rparr>)"
      using m(4,5) by (simp add: cow_step_def snap_def page_limit_def held_def page_at_def)
    then show ?thesis using r m(2) assms by (simp add: cow_good_def snap_def)
  next
    assume "orphans_push (io_meta_file io) (orphan_page_new p (snap w)) (se_meta w) = (Err MetaIO, se_meta w)"
    then have "orphan_page_action io p w = (Err EIO, w)"
      by (simp add: orphan_page_action_def action_simps meta_action_def snap_def)
    then show ?thesis using assms by (simp add: cow_step_refl)
  qed
qed

lemma pm_get_mut_cases:
  assumes "pm_get_mut pm sid p = (r, pm')" and "\<not> bit sid 63"
  shows "(pm' = pm \<and> (\<forall>q. r \<noteq> Ok q)) \<or>
    (r = Ok p \<and> p \<le> pm_page_count pm \<and> \<not> is_dirty_state (state_of (mmap pm p)) \<and>
     pm' = pm\<lparr>mmap := (mmap pm)(p := (mmap pm p)\<lparr>pg_state := u64_of_page_state (Dirty sid)\<rparr>)\<rparr>)"
  using assms
  by (auto simp: pm_get_mut_def page_mut_from_ptr_eq is_dirty_state_def not_less split: if_splits page_state.splits)

lemma pm_allocate_cases:
  assumes "pm_allocate io_ok sid pm = (r, pm')" and "\<not> bit sid 63"
  shows "pm_extends pm pm' \<and> (\<forall>q \<le> pm_page_count pm. mmap pm' q = mmap pm q) \<and>
    (\<forall>p. r = Ok p \<longrightarrow> pm_page_count pm < p \<and> p \<le> pm_page_count pm' \<and> state_of (mmap pm' p) = Dirty sid)"
proof (cases "fst (next_page_id pm)")
  case None
  then have "next_page_id pm = (None, pm)" by (auto simp: next_page_id_def split: option.splits)
  then show ?thesis using assms(1) by (auto simp: pm_allocate_def)
next
  case (Some pn)
  then obtain n where n: "next_page_id pm = (Some (n, n), pm\<lparr>pm_page_count := n\<rparr>)" "checked_add_u32 (pm_page_count pm) 1 = Some n"
    by (auto simp: next_page_id_def page_id_new_def split: option.splits if_splits)
  have lt: "pm_page_count pm < n" using checked_add_u32_unat [OF n(2)] by (simp add: word_less_nat_alt)
  define pm1 where "pm1 = pm\<lparr>pm_page_count := n\<rparr>"
  obtain g pm2 where g: "grow_if_needed io_ok (unat n * PAGE_SIZE) pm1 = (g, pm2)" by fastforce
  have f: "mmap pm2 = mmap pm" "pm_page_count pm2 = n" "mmap_len pm2 = mmap_len pm" "file_len pm \<le> file_len pm2"
    using g grow_loop_frame [of io_ok "unat n * PAGE_SIZE" pm1 g pm2] by (auto simp: grow_if_needed_def pm1_def split: if_splits)
  have ne: "q \<noteq> n" if "q \<le> pm_page_count pm" for q using that lt by auto
  consider "r = Err PageLimitReached" "pm' = pm1" | "pm' = pm2" "\<forall>p. r \<noteq> Ok p"
    | "r = Ok n" "pm' = pm2\<lparr>mmap := (mmap pm)(n := (mmap pm n)\<lparr>pg_state := u64_of_page_state (Dirty sid), pg_data := replicate DATA_SIZE 0\<rparr>)\<rparr>"
    using assms g f(1)
    by (cases g) (auto simp: pm_allocate_def n(1) pm1_def [symmetric] Let_def page_mut_acquire_unchecked_def page_state_dirty_eq
        raw_state_store_def split: if_splits)
  then show ?thesis
    using lt ne f assms(2) by cases (auto simp: pm1_def pm_extends_def)
qed

lemma pages_steps:
  assumes "cow_good E io w" and "pm_extends (se_pages w) pm" and "\<forall>q \<le> page_limit w. mmap pm q = page_at q w"
  shows "cow_good E io (w\<lparr>se_pages := pm\<rparr>) \<and> cow_step w (w\<lparr>se_pages := pm\<rparr>)"
proof -
  have "held (w\<lparr>se_pages := pm\<rparr>) q" if "held w q" for q
    using that assms(2,3) unfolding held_def page_limit_def page_at_def snap_def pm_extends_def by auto
  moreover have "page_at q (w\<lparr>se_pages := pm\<rparr>) = page_at q w" if "shielded w q" for q
    using that assms(3) by (simp add: shielded_def page_at_def)
  ultimately show ?thesis using assms(1,2) by (simp add: cow_good_def cow_step_def snap_def reusable_def page_limit_def)
qed

text \<open>Taking the page \<open>p\<close> of the memory map for writing.\<close>

lemma take_page:
  assumes "cow_good E io w" and "pages_action (\<lambda>pm. pm_get_mut pm (snap w) p) w = (r, w')"
  shows "(w' = w \<and> (\<forall>q. r \<noteq> Ok q)) \<or>
    (r = Ok p \<and> p \<le> page_limit w \<and> \<not> is_dirty_state (state_of (page_at p w)) \<and>
     w' = put_page p ((page_at p w)\<lparr>pg_state := u64_of_page_state (Dirty (snap w))\<rparr>) w)"
proof -
  obtain r0 pm' where g: "pm_get_mut (se_pages w) (snap w) p = (r0, pm')" by fastforce
  have e: "r = map_err EPage r0" "w' = w\<lparr>se_pages := pm'\<rparr>" using assms(2) g by (simp_all add: pages_action_def)
  have "\<not> bit (snap w) 63" using assms(1) by (simp add: cow_good_def)
  from pm_get_mut_cases [OF g this] show ?thesis
  proof
    assume "pm' = se_pages w \<and> (\<forall>q. r0 \<noteq> Ok q)"
    then show ?thesis using e by (cases r0) auto
  qed (use e in \<open>auto simp: page_limit_def page_at_def put_page_def\<close>)
qed

text \<open>Preparing a reused page.\<close>

lemma reuse_page_eq:
  assumes "cow_good E io w"
  shows "\<exists>bs. reuse_page p w = (Ok (), put_page p ((page_at p w)\<lparr>pg_state := u64_of_page_state (Dirty (snap w)), pg_data := bs\<rparr>) w)"
proof -
  have "\<not> bit (snap w) 63" using assms by (simp add: cow_good_def)
  then have "page_set_snapshot_id (snap w) (page_at p w) =
      (Ok (), (page_at p w)\<lparr>pg_state := u64_of_page_state (Dirty (snap w))\<rparr>)"
    by (simp add: page_set_snapshot_id_def page_state_dirty_eq raw_state_store_def)
  then show ?thesis by (auto simp: reuse_page_def action_simps snap_def [symmetric] put_page_def page_at_def)
qed

lemma pop_steps:
  assumes "cow_good E io w" and "meta_action (orphans_pop (se_alive w)) w = (r, w1)"
  shows "cow_good E io w1 \<and> cow_step w w1 \<and> (\<exists>o1. r = Ok o1 \<and> (\<forall>x. o1 = Some x \<longrightarrow> op_page_id x \<in> reusable w)) \<and>
    se_pages w1 = se_pages w \<and> w_cx w1 = w_cx w"
proof -
  have inv: "mm_inv E (se_meta w)" using assms(1) by (simp add: cow_good_def)
  obtain mm' where m: "orphans_pop (se_alive w) (se_meta w) = (Ok (case current_orphans (se_meta w) of
        x # _ \<Rightarrow> if op_orphaned_at x \<le> se_alive w then Some x else None | [] \<Rightarrow> None), mm')" "mm_inv E mm'"
    "committed_orphans mm' = committed_orphans (se_meta w)" "active_slot mm' = active_slot (se_meta w)"
    "current_orphans mm' = (case current_orphans (se_meta w) of
        x # xs \<Rightarrow> if op_orphaned_at x \<le> se_alive w then xs else x # xs | [] \<Rightarrow> [])"
    using orphans_pop_ok [OF inv, of "se_alive w"] by blast
  have r: "r = Ok (case current_orphans (se_meta w) of
        x # _ \<Rightarrow> if op_orphaned_at x \<le> se_alive w then Some x else None | [] \<Rightarrow> None)" "w1 = w\<lparr>se_meta := mm'\<rparr>"
    using assms(2) m(1) by (simp_all add: meta_action_def)
  have "set (current_orphans mm') \<subseteq> set (current_orphans (se_meta w))" using m(5) by (auto split: list.splits)
  then have "reusable w1 \<subseteq> reusable w" using r(2) by (auto simp: reusable_def)
  moreover have "queue_step (snap w) (current_orphans (se_meta w)) (current_orphans mm')"
    unfolding m(5) by (rule queue_step_pop)
  ultimately have "cow_step w w1"
    using m(3,4) r(2) by (simp add: cow_step_def snap_def page_limit_def held_def page_at_def)
  moreover have "cow_good E io w1" using assms(1) m(2) r(2) by (simp add: cow_good_def snap_def)
  moreover have "\<forall>x. (case current_orphans (se_meta w) of
        x # _ \<Rightarrow> if op_orphaned_at x \<le> se_alive w then Some x else None | [] \<Rightarrow> None) = Some x \<longrightarrow> op_page_id x \<in> reusable w"
    by (auto simp: reusable_def split: list.splits if_splits)
  ultimately show ?thesis using r by auto
qed

lemma good_step_good: "cow_step w1 w2 \<Longrightarrow> mm_inv E (se_meta w2) \<Longrightarrow> cow_good E io w1 \<Longrightarrow> cow_good E io w2"
  by (simp add: cow_good_def cow_step_def)

text \<open>Reusing the page of the orphan \<open>x\<close>, which has just been popped.\<close>

definition reuse_orphan :: "orphan_page \<Rightarrow> page_id action" where
  "reuse_orphan x =
     bindE (liftE (orphan_page_id x)) (\<lambda>orphaned_page_id.
     bindE (get_mut_page orphaned_page_id) (\<lambda>page.
       drop_on_error page (bindE (reuse_page page) (\<lambda>_. returnE page))))"

lemma reuse_orphan_steps:
  assumes "cow_good E io w" and "cow_good E io w1" and "cow_step w w1" and "op_page_id x \<in> reusable w"
    and "se_pages w1 = se_pages w" and "w_cx w1 = w_cx w" and "reuse_orphan x w1 = (r, w2)"
  shows "cow_good E io w2 \<and> cow_step w w2 \<and> (\<forall>p. r = Ok p \<longrightarrow> acquired E io w p w2)"
proof (cases "page_id_new (op_page_id x)")
  case None
  then show ?thesis using assms by (auto simp: reuse_orphan_def action_simps orphan_page_id_def)
next
  case (Some p)
  then have p: "p = op_page_id x" by (simp add: page_id_new_Some)
  have snap1: "snap w1 = snap w" "page_limit w1 = page_limit w" "page_at p w1 = page_at p w"
    using assms(5,6) by (simp_all add: snap_def page_limit_def page_at_def)
  obtain r0 w0 where g: "pages_action (\<lambda>pm. pm_get_mut pm (snap w1) p) w1 = (r0, w0)" by fastforce
  then have gm: "get_mut_page p w1 = (r0, w0)" by (simp add: get_mut_page_def action_simps snap_def)
  consider "w0 = w1" "\<forall>q. r0 \<noteq> Ok q" | "r0 = Ok p" "p \<le> page_limit w1" "\<not> is_dirty_state (state_of (page_at p w1))"
      "w0 = put_page p ((page_at p w1)\<lparr>pg_state := u64_of_page_state (Dirty (snap w1))\<rparr>) w1"
    using take_page [OF assms(2) g] by blast
  then show ?thesis
  proof cases
    case 1
    then have "w2 = w1 \<and> (\<forall>q. r \<noteq> Ok q)"
      using assms(7) gm Some by (cases r0) (auto simp: reuse_orphan_def action_simps orphan_page_id_def)
    then show ?thesis using assms(2,3) by simp
  next
    case 2
    have "cow_good E io w0" using assms(2) 2(4) by (simp add: cow_good_def)
    from reuse_page_eq [OF this, of p] obtain bs where
      "reuse_page p w0 = (Ok (), put_page p ((page_at p w0)\<lparr>pg_state := u64_of_page_state (Dirty (snap w0)), pg_data := bs\<rparr>) w0)" by blast
    then have w2: "r = Ok p" "w2 = put_page p ((page_at p w1)\<lparr>pg_state := u64_of_page_state (Dirty (snap w1)), pg_data := bs\<rparr>) w1"
      using assms(7) gm Some 2(1,4)
      by (auto simp: reuse_orphan_def action_simps orphan_page_id_def drop_on_error_def put_page_def page_at_def snap_def)
    have bit: "\<not> bit (snap w) 63" using assms(1) by (simp add: cow_good_def)
    have sh: "\<not> shielded w p" using assms(4) p by (simp add: shielded_def)
    have nh: "\<not> held w p" using 2(3) snap1 by (auto simp: held_def is_dirty_state_def)
    have held2: "held w2 p" using w2(2) 2(2) snap1 bit by (simp add: held_def)
    have "held w2 q" if "held w q" for q
      using that nh assms(3) w2(2) by (cases "q = p") (auto simp: cow_step_def held_def)
    moreover have "page_at q w2 = page_at q w" if "shielded w q" for q
      using that sh assms(3) w2(2) by (cases "q = p") (auto simp: cow_step_def)
    ultimately have "cow_step w w2" using assms(3) w2(2) sh by (simp add: cow_step_def)
    moreover have "cow_good E io w2" using assms(2) w2(2) by (simp add: cow_good_def)
    ultimately show ?thesis using held2 sh nh w2(1) by (simp add: acquired_def)
  qed
qed

lemma fresh_page_steps:
  assumes "cow_good E io w" and "pages_action (pm_allocate io_ok (snap w)) w = (r, w')"
  shows "cow_good E io w' \<and> cow_step w w' \<and> (\<forall>p. r = Ok p \<longrightarrow> acquired E io w p w')"
proof -
  obtain r0 pm' where g: "pm_allocate io_ok (snap w) (se_pages w) = (r0, pm')" by fastforce
  have e: "r = map_err EPage r0" "w' = w\<lparr>se_pages := pm'\<rparr>" using assms(2) g by (simp_all add: pages_action_def)
  have b: "\<not> bit (snap w) 63" using assms(1) by (simp add: cow_good_def)
  note c = pm_allocate_cases [OF g b]
  have s: "cow_good E io w' \<and> cow_step w w'"
    unfolding e(2) by (rule pages_steps [OF assms(1)]) (use c in \<open>auto simp: page_limit_def page_at_def\<close>)
  have "acquired E io w p w'" if "r = Ok p" for p
  proof -
    have r0: "r0 = Ok p" using that e(1) by (cases r0) auto
    then have "page_limit w < p" using c by (simp add: page_limit_def)
    then have "\<not> p \<le> page_limit w" by simp
    then show ?thesis using s c r0 e(2) by (simp add: acquired_def shielded_def held_def page_limit_def page_at_def snap_def)
  qed
  with s show ?thesis by blast
qed

lemma acquired_context:
  "acquired E io w p w' \<Longrightarrow> cx_snapshot_id c = cx_snapshot_id (w_cx w') \<Longrightarrow> acquired E io w p (w'\<lparr>w_cx := c\<rparr>)"
  by (rule acquired_step) (use good_context in \<open>auto simp: acquired_def\<close>)

subsection \<open>Acquiring pages\<close>

lemma allocate_page_eq:
  "allocate_page io =
     bindE (asks se_alive) (\<lambda>alive.
     bindE (meta_action (orphans_pop alive)) (\<lambda>orphan.
     bindE
       (case orphan of
          Some orphan \<Rightarrow> reuse_orphan orphan
        | None \<Rightarrow> bindE (asks snap) (\<lambda>sid. pages_action (pm_allocate (io_page_file io) sid)))
       (\<lambda>page.
          bindE (asks (\<lambda>w. pm_size (se_pages w))) (\<lambda>n.
          bindE (modify_context (\<lambda>cx. cx\<lparr>cx_page_count := n\<rparr>)) (\<lambda>_. returnE page)))))"
  unfolding allocate_page_def reuse_orphan_def snap_def [abs_def] by (rule refl)

lemma allocate_page_steps:
  assumes "cow_good E io w" and "allocate_page io w = (r, w')"
  shows "cow_good E io w' \<and> cow_step w w' \<and> (\<forall>p. r = Ok p \<longrightarrow> acquired E io w p w')"
proof -
  obtain r1 w1 where pop: "meta_action (orphans_pop (se_alive w)) w = (r1, w1)" by fastforce
  note p1 = pop_steps [OF assms(1) pop]
  then obtain o1 where o1: "r1 = Ok o1" "\<And>x. o1 = Some x \<Longrightarrow> op_page_id x \<in> reusable w" by blast
  define body where "body = (case o1 of
          Some orphan \<Rightarrow> reuse_orphan orphan
        | None \<Rightarrow> bindE (asks snap) (\<lambda>sid. pages_action (pm_allocate (io_page_file io) sid)))"
  obtain r2 w2 where b: "body w1 = (r2, w2)" by fastforce
  have s2: "cow_good E io w2 \<and> cow_step w w2 \<and> (\<forall>p. r2 = Ok p \<longrightarrow> acquired E io w p w2)"
  proof (cases o1)
    case (Some x)
    then show ?thesis using reuse_orphan_steps [OF assms(1) _ _ o1(2) [OF Some]] p1 b by (auto simp: body_def)
  next
    case None
    then have a: "pages_action (pm_allocate (io_page_file io) (snap w1)) w1 = (r2, w2)" using b by (simp add: body_def action_simps)
    note f = fresh_page_steps [OF _ a]
    have "acquired E io w p w2" if "r2 = Ok p" for p
      using f p1 that acquired_trans by blast
    then show ?thesis using f p1 cow_step_trans by blast
  qed
  have e: "(r, w') = (case r2 of Ok p \<Rightarrow> (Ok p, w2\<lparr>w_cx := (w_cx w2)\<lparr>cx_page_count := pm_size (se_pages w2)\<rparr>\<rparr>) | _ \<Rightarrow> (r2, w2))"
    using assms(2) pop o1(1) b
    by (auto simp: allocate_page_eq action_simps body_def [symmetric] split: result.splits)
  show ?thesis
  proof (cases r2)
    case (Ok p)
    then have "acquired E io w p w'" "r = Ok p" using e s2 acquired_context by auto
    then show ?thesis by (auto simp: acquired_def)
  qed (use e s2 in auto)
qed

lemma get_mut_clone_steps:
  assumes "cow_good E io w" and "get_mut_clone io q w = (r, w')"
  shows "cow_good E io w' \<and> cow_step w w' \<and> (\<forall>p. r = Ok p \<longrightarrow> acquired E io w p w')"
proof (cases "\<exists>s. state_of (page_at q w) = Occupied s \<and> pm_get (se_pages w) q = Ok q")
  case False
  have "w' = w \<and> (\<forall>p. r \<noteq> Ok p)"
  proof (cases "pm_get (se_pages w) q")
    case (Ok x)
    then have "state_of (page_at q w) \<noteq> Unused" "\<not> is_dirty_state (state_of (page_at q w))" "x = q"
      by (auto simp: pm_get_def page_from_ptr_def raw_state_load_def page_at_def is_dirty_state_def split: if_splits page_state.splits)
    then show ?thesis using False Ok by (auto simp: is_dirty_state_def split: page_state.splits)
  qed (use assms(2) in \<open>auto simp: get_mut_clone_def action_simps\<close>)
  then show ?thesis using assms(1) by (simp add: cow_step_refl)
next
  case True
  then obtain s where s: "state_of (page_at q w) = Occupied s" "pm_get (se_pages w) q = Ok q" by blast
  have sid: "page_snapshot_id (page_at q w) = Ok s"
    using s(1) by (simp add: page_snapshot_id_def raw_state_load_def page_state_snapshot_id_def)
  show ?thesis
  proof (cases "s = snap w")
    case True
    then have t: "pages_action (\<lambda>pm. pm_get_mut pm (snap w) q) w = (r, w')"
      using assms(2) s(2) sid by (simp add: get_mut_clone_def action_simps snap_def)
    have sh: "\<not> shielded w q" "\<not> held w q" using s(1) True by (auto simp: shielded_def held_def)
    from take_page [OF assms(1) t] show ?thesis
    proof
      assume "w' = w \<and> (\<forall>q. r \<noteq> Ok q)"
      then show ?thesis using assms(1) by (simp add: cow_step_refl)
    next
      assume a: "r = Ok q \<and> q \<le> page_limit w \<and> \<not> is_dirty_state (state_of (page_at q w)) \<and>
        w' = put_page q ((page_at q w)\<lparr>pg_state := u64_of_page_state (Dirty (snap w))\<rparr>) w"
      then have "cow_step w w'" using sh by (auto intro: cow_step_put)
      then show ?thesis using a sh assms(1) by (auto simp: acquired_def held_def cow_good_def)
    qed
  next
    case False
    define rest where "rest new = bindE (asks (\<lambda>w. page_contents (page_at q w))) (\<lambda>contents.
              bindE (write_page new (\<lambda>_. (Ok (), contents))) (\<lambda>_.
              bindE (orphan_page_action io q) (\<lambda>_. returnE new)))" for new
    obtain r1 w1 where a: "allocate_page io w = (r1, w1)" by fastforce
    note st = allocate_page_steps [OF assms(1) a]
    have e: "(r, w') = bind_state (r1, w1) (\<lambda>new. drop_on_error new (rest new))"
      using assms(2) s(2) sid False a by (simp add: get_mut_clone_def action_simps snap_def rest_def)
    show ?thesis
    proof (cases r1)
      case (Ok new)
      then have acq: "acquired E io w new w1" using st by blast
      then have "cow_good E io w1" "held w1 new" by (simp_all add: acquired_def)
      note wr = write_held [OF this, of "pg_data (page_at q w1)"]
      define w2 where "w2 = put_page new ((page_at new w1)\<lparr>pg_data := pg_data (page_at q w1)\<rparr>) w1"
      have acq2: "acquired E io w new w2" using acquired_step [OF acq] wr by (simp add: w2_def)
      obtain r3 w3 where o3: "orphan_page_action io q w2 = (r3, w3)" by fastforce
      have acq3: "acquired E io w new w3"
        using acquired_step [OF acq2] orphan_page_steps [of E io w2 q] acq2 o3 by (auto simp: acquired_def)
      have rr: "rest new w1 = (case r3 of Ok _ \<Rightarrow> (Ok new, w3) | Err e \<Rightarrow> (Err e, w3) | Panic \<Rightarrow> (Panic, w3) | Diverge \<Rightarrow> (Diverge, w3))"
        using o3 by (simp add: rest_def action_simps write_page_def page_contents_def w2_def split: result.splits)
      show ?thesis
        using e rr acq3 acquired_drop [OF acq3] Ok
        by (auto simp: drop_on_error_def acquired_def split: result.splits)
    qed (use e st in auto)
  qed
qed

interpretation cow: write_protocol E io "cow_good E io" cow_step held for E io
proof (unfold_locales, goal_cases)
  case (1 w)
  show ?case by (rule cow_step_refl)
next
  case (2 w1 w2 w3)
  then show ?case by (rule cow_step_trans)
next
  case (3 w w' p)
  then show ?case by (simp add: cow_step_def)
next
  case (4 w c)
  then show ?case by (rule good_context)
next
  case (5 w p bs)
  then show ?case by (rule write_held)
next
  case (6 w p)
  then show ?case by (rule orphan_page_steps)
next
  case (7 w r w')
  from allocate_page_steps [OF 7] show ?case
    using acquired_step acquired_drop unfolding acquired_def by blast
next
  case (8 w q r w')
  from get_mut_clone_steps [OF 8] show ?case
    using acquired_step acquired_drop unfolding acquired_def by blast
qed

subsection \<open>Properties\<close>

lemma set_values_steps:
  assumes "cow_good E io w"
  shows "cow_step w (snd (set_values fuel E io changes w))" "cow_good E io (snd (set_values fuel E io changes w))"
  using cow.safeD [OF cow.safe_set_values [of E io "{}"], OF assms] by auto

definition sample_io :: io_outcomes where
  "sample_io = \<lparr>io_page_file = (\<lambda>_. True), io_meta_file = (\<lambda>_. False), io_sync_pages = True, io_sync_meta = True\<rparr>"

lemma sample_cow: "cow_good sample_externals sample_io sample_world" "shielded sample_world 1"
proof -
  have b: "\<not> bit (2 :: u64) 63" by (simp add: bit_numeral_rec)
  show "cow_good sample_externals sample_io sample_world"
    using sample_meta_inv b by (simp add: cow_good_def sample_world_def sample_io_def bounded_io_def snap_def)
  have "current_orphans sample_meta = []" by (simp add: current_orphans_def queue_of_def zero_slot_def subl_def)
  then show "shielded sample_world 1"
    by (simp add: shielded_def page_limit_def page_at_def sample_world_def page_state_of_u64_def DIRTY_MASK_def snap_def reusable_def)
qed

text \<open>
  C4. Copy-on-write. Whatever changes are applied, and whether \<open>set_values\<close> succeeds, fails, panics or
  runs out of fuel: a page that belongs to an older snapshot and has not been released for reuse keeps
  its state and all of its bytes, and the committed metadata slot with its orphan list is untouched.
\<close>

theorem set_values_copy_on_write:
  assumes "cow_good E io w" and "shielded w p"
  shows "page_at p (snd (set_values fuel E io changes w)) = page_at p w \<and>
    active_slot (se_meta (snd (set_values fuel E io changes w))) = active_slot (se_meta w) \<and>
    committed_orphans (se_meta (snd (set_values fuel E io changes w))) = committed_orphans (se_meta w)"
  using set_values_steps(1) [OF assms(1), of fuel changes] assms(2) by (simp add: cow_step_def)

theorem set_values_copy_on_write_witness:
  "page_at 1 (snd (set_values 1000 sample_externals sample_io [(path_of (replicate 64 0), None)] sample_world)) = page_at 1 sample_world"
  using set_values_copy_on_write [OF sample_cow] by blast

lemma pm_get_frame:
  assumes "pm_extends (se_pages w) (se_pages w')" and "page_at p w' = page_at p w" and "pm_get (se_pages w) p = Ok p"
  shows "pm_get (se_pages w') p = Ok p"
proof -
  have g: "\<not> pm_page_count (se_pages w) < p" "in_memory (se_pages w) p" "page_from_ptr p (mmap (se_pages w) p) = Ok p"
    using assms(3) by (auto simp: pm_get_def split: if_splits)
  then have "\<not> pm_page_count (se_pages w') < p" using assms(1) by (auto simp: pm_extends_def)
  moreover have "in_memory (se_pages w') p" using g(2) assms(1) by (auto simp: in_memory_def pm_extends_def)
  ultimately show ?thesis using g(3) assms(2) by (simp add: pm_get_def page_at_def)
qed

lemma reads_frame:
  assumes "reads E (w\<lparr>w_cx := cx\<rparr>) S t" and "pm_extends (se_pages w) (se_pages w')" and "\<forall>p \<in> S. page_at p w' = page_at p w"
  shows "reads E (w'\<lparr>w_cx := cx\<rparr>) S t"
proof -
  have got: "\<forall>p \<in> S. pm_get (se_pages (w\<lparr>w_cx := cx\<rparr>)) p = Ok p \<longrightarrow> pm_get (se_pages (w'\<lparr>w_cx := cx\<rparr>)) p = Ok p"
    using pm_get_frame [OF assms(2)] assms(3) by simp
  have same: "\<forall>p \<in> S. page_at p (w'\<lparr>w_cx := cx\<rparr>) = page_at p (w\<lparr>w_cx := cx\<rparr>)" using assms(3) by simp
  note hf = holds_frame [OF _ same got]
  have "account_loc E (w'\<lparr>w_cx := cx\<rparr>) S t ns q j" if "account_loc E (w\<lparr>w_cx := cx\<rparr>) S t ns q j" for ns q j
    using that got hf holds_in unfolding account_loc_def by (elim conjE exE) (intro conjI exI; blast)
  then show ?thesis using assms(1) hf got holds_in unfolding reads_def by auto blast
qed

text \<open>
  C3. Snapshot isolation. A reader whose trie lies in shielded pages keeps reading the same trie while
  another transaction writes: after \<open>set_values\<close> of the writer, successful or not, its accounts and
  storage slots read exactly as before.
\<close>

theorem snapshot_isolation:
  assumes "cow_good E io w" and "reads E (w\<lparr>w_cx := cx\<rparr>) S t" and "\<forall>p \<in> S. shielded w p"
  shows "reads E ((snd (set_values fuel E io changes w))\<lparr>w_cx := cx\<rparr>) S t"
  using set_values_steps(1) [OF assms(1), of fuel changes] assms(2,3)
  by (intro reads_frame [OF assms(2)]) (auto simp: cow_step_def)

theorem snapshot_isolation_witness:
  "reads sample_externals ((snd (set_values 1000 sample_externals sample_io [(path_of (replicate 64 0), None)] sample_world))
     \<lparr>w_cx := w_cx sample_world\<rparr>) {1} (ALeaf (replicate 64 0) sample_account None)"
  using snapshot_isolation [OF sample_cow(1), of "w_cx sample_world" "{1}" "ALeaf (replicate 64 0) sample_account None"] sample_reads sample_cow(2)
  by simp

end
