(* ===== verification/Transactions.thy ===== *)
theory Transactions
  imports Copy_On_Write "HOL-Library.AList" "HOL-Library.Multiset"
begin

text \<open>
  Transactions: \<open>src/src/transaction/manager.rs\<close>, \<open>src/src/transaction.rs\<close> and the opening and the
  transaction entry points of \<open>src/src/database.rs\<close>.

  A database is the storage engine with the transaction manager. The metrics are left out. The pending
  changes of a transaction are an association list with distinct keys; its order stands for the
  iteration order of the hash map. \<open>begin_ro\<close> and \<open>begin_rw\<close> read the context and then register the
  transaction under another lock; \<open>register_ro\<close> and \<open>register_rw\<close> are their second halves.
\<close>

subsection \<open>The transaction manager\<close>

record transaction_manager =
  tm_has_writer :: bool
  tm_open_txs :: "snapshot_id list"

datatype transaction_error = TransactionError

definition tm_new :: transaction_manager where
  "tm_new = \<lparr>tm_has_writer = False, tm_open_txs = []\<rparr>"

definition min_snapshot_id :: "transaction_manager \<Rightarrow> snapshot_id option" where
  "min_snapshot_id tm = (case tm_open_txs tm of [] \<Rightarrow> None | s # ss \<Rightarrow> Some (fold min ss s))"

definition tm_begin_rw :: "snapshot_id \<Rightarrow> transaction_manager \<Rightarrow> (snapshot_id, transaction_error) result \<times> transaction_manager" where
  "tm_begin_rw sid tm =
     (if tm_has_writer tm then (Err TransactionError, tm)
      else let tm = tm\<lparr>tm_has_writer := True, tm_open_txs := tm_open_txs tm @ [sid - 1]\<rparr> in
        (unwrap_option (min_snapshot_id tm), tm))"

definition tm_begin_ro :: "snapshot_id \<Rightarrow> transaction_manager \<Rightarrow> transaction_manager" where
  "tm_begin_ro sid tm = tm\<lparr>tm_open_txs := tm_open_txs tm @ [sid]\<rparr>"

fun position :: "('a \<Rightarrow> bool) \<Rightarrow> 'a list \<Rightarrow> nat option" where
  "position P [] = None"
| "position P (x # xs) = (if P x then Some 0 else map_option Suc (position P xs))"

definition swap_remove :: "nat \<Rightarrow> 'a list \<Rightarrow> 'a list" where
  "swap_remove i xs = butlast (xs[i := last xs])"

definition tm_remove_tx :: "snapshot_id \<Rightarrow> bool \<Rightarrow> transaction_manager \<Rightarrow> (unit, transaction_error) result \<times> transaction_manager" where
  "tm_remove_tx sid is_writer tm =
     (let tm = (if is_writer then tm\<lparr>tm_has_writer := False\<rparr> else tm);
          sid = (if is_writer then sid - 1 else sid) in
      case position (\<lambda>s. s = sid) (tm_open_txs tm) of
        None \<Rightarrow> (Panic, tm)
      | Some index \<Rightarrow> (Ok (), tm\<lparr>tm_open_txs := swap_remove index (tm_open_txs tm)\<rparr>))"

subsection \<open>The database\<close>

record database =
  db_engine :: storage_engine
  db_tm :: transaction_manager

record transaction =
  tx_committed :: bool
  tx_context :: transaction_context
  tx_pending :: "(raw_path \<times> trie_value option) list"

definition database_new :: "storage_engine \<Rightarrow> database" where
  "database_new st = \<lparr>db_engine = st, db_tm = tm_new\<rparr>"

datatype open_error = OpenPage page_error | OpenMeta metadata_error

record database_options =
  do_wipe :: bool
  do_max_pages :: "u32 option"

text \<open>
  Opening: the contents of the two files are given; \<open>opts.wipe\<close> truncates both. The thread pool is
  left out.
\<close>

definition wipe_if :: "bool \<Rightarrow> (nat \<Rightarrow> bool) \<Rightarrow> meta_manager \<Rightarrow> (meta_manager, open_error) result" where
  "wipe_if wipe io_ok mm =
     (if wipe then case mm_wipe io_ok mm of
          (Ok _, mm) \<Rightarrow> Ok mm | (Err e, _) \<Rightarrow> Err (OpenMeta e) | (Panic, _) \<Rightarrow> Panic | (Diverge, _) \<Rightarrow> Diverge
      else Ok mm)"

definition open_with_options ::
  "externals \<Rightarrow> io_outcomes \<Rightarrow> database_options \<Rightarrow> hashed_slot \<times> hashed_slot \<times> orphan_page list \<Rightarrow>
   (page_id \<Rightarrow> raw_page) \<times> nat \<Rightarrow> (database, open_error) result" where
  "open_with_options E io opts meta_file page_file =
     (case meta_file of (s0, s1, xs) \<Rightarrow>
      bind_result (map_err OpenMeta (mm_from_file E s0 s1 xs)) (\<lambda>mm.
      bind_result (wipe_if (do_wipe opts) (io_meta_file io) mm) (\<lambda>mm.
        let page_count = ms_page_count (hs_meta (active_slot mm));
            pm_opts = options_new\<lparr>opt_page_count := page_count\<rparr>;
            pm_opts = (case do_max_pages opts of Some n \<Rightarrow> pm_opts\<lparr>opt_max_pages := n\<rparr> | None \<Rightarrow> pm_opts);
            file = (if do_wipe opts then (\<lambda>_. \<lparr>pg_state = 0, pg_data = replicate DATA_SIZE 0\<rparr>) else fst page_file);
            len = (if do_wipe opts then 0 else snd page_file) in
        bind_result (map_err OpenPage (from_file_with_options pm_opts file len (io_page_file io))) (\<lambda>pm.
          Ok (database_new (engine_new pm mm))))))"

definition db_state_root :: "database \<Rightarrow> bytes" where
  "db_state_root db = cx_root_node_hash (read_context (db_engine db))"

definition db_size :: "database \<Rightarrow> u32" where
  "db_size db = engine_size (db_engine db)"

definition transaction_new :: "transaction_context \<Rightarrow> transaction" where
  "transaction_new cx = \<lparr>tx_committed = False, tx_context = cx, tx_pending = []\<rparr>"

text \<open>The second half of \<open>begin_ro\<close> and of \<open>begin_rw\<close>, after the context has been read.\<close>

definition register_ro :: "transaction_context \<Rightarrow> database \<Rightarrow> transaction \<times> database" where
  "register_ro cx db = (transaction_new cx, db\<lparr>db_tm := tm_begin_ro (cx_snapshot_id cx) (db_tm db)\<rparr>)"

definition register_rw :: "transaction_context \<Rightarrow> database \<Rightarrow> (transaction, transaction_error) result \<times> database" where
  "register_rw cx db =
     bind_state (case tm_begin_rw (cx_snapshot_id cx) (db_tm db) of (r, tm) \<Rightarrow> (r, db\<lparr>db_tm := tm\<rparr>)) (\<lambda>min_sid db.
       let db = (if 0 < min_sid then db\<lparr>db_engine := unlock (min_sid - 1) (db_engine db)\<rparr> else db) in
       (Ok (transaction_new cx), db))"

definition begin_ro :: "database \<Rightarrow> transaction \<times> database" where
  "begin_ro db = register_ro (read_context (db_engine db)) db"

definition begin_rw :: "database \<Rightarrow> (transaction, transaction_error) result \<times> database" where
  "begin_rw db = register_rw (write_context (db_engine db)) db"

subsection \<open>Transactions\<close>

definition world_of :: "storage_engine \<Rightarrow> transaction_context \<Rightarrow> world" where
  "world_of st cx = \<lparr>se_pages = se_pages st, se_meta = se_meta st, se_alive = se_alive st, w_cx = cx\<rparr>"

definition storage_of :: "world \<Rightarrow> storage_engine" where
  "storage_of w = \<lparr>se_pages = se_pages w, se_meta = se_meta w, se_alive = se_alive w\<rparr>"

text \<open>An engine call on the context of a transaction, whose error is a panic of the caller.\<close>

definition run_unwrap :: "'a action \<Rightarrow> transaction \<Rightarrow> database \<Rightarrow> ('a, transaction_error) result \<times> transaction \<times> database" where
  "run_unwrap m tx db =
     (case m (world_of (db_engine db) (tx_context tx)) of (r, w) \<Rightarrow>
        (unwrap r, tx\<lparr>tx_context := w_cx w\<rparr>, db\<lparr>db_engine := storage_of w\<rparr>))"

definition tx_get_account ::
  "externals \<Rightarrow> address_path \<Rightarrow> transaction \<Rightarrow> database \<Rightarrow> (account option, transaction_error) result \<times> transaction \<times> database" where
  "tx_get_account E a = run_unwrap (get_account READ_FUEL E a)"

definition tx_get_storage_slot ::
  "externals \<Rightarrow> storage_path \<Rightarrow> transaction \<Rightarrow> database \<Rightarrow> (u256 option, transaction_error) result \<times> transaction \<times> database" where
  "tx_get_storage_slot E s = run_unwrap (get_storage READ_FUEL E s)"

definition tx_state_root :: "transaction \<Rightarrow> bytes" where
  "tx_state_root tx = cx_root_node_hash (tx_context tx)"

definition tx_clear_cache :: "transaction \<Rightarrow> transaction" where
  "tx_clear_cache tx = tx\<lparr>tx_context := context_clear_cache (tx_context tx)\<rparr>"

definition set_account :: "address_path \<Rightarrow> account option \<Rightarrow> transaction \<Rightarrow> (transaction, transaction_error) result" where
  "set_account a account tx =
     bind_result (raw_path_of_address a) (\<lambda>path.
       Ok (tx\<lparr>tx_pending := AList.update path (map_option TAccount account) (tx_pending tx)\<rparr>))"

definition set_storage_slot :: "storage_path \<Rightarrow> u256 option \<Rightarrow> transaction \<Rightarrow> (transaction, transaction_error) result" where
  "set_storage_slot s value tx =
     bind_result (raw_path_of_storage s) (\<lambda>path.
       Ok (tx\<lparr>tx_pending := AList.update path (map_option TStorage value) (tx_pending tx)\<rparr>))"

text \<open>\<open>commit\<close> of a writer: first the changes are applied, then, under the lock of the transaction manager, published.\<close>

definition tx_apply ::
  "nat \<Rightarrow> externals \<Rightarrow> io_outcomes \<Rightarrow> transaction \<Rightarrow> database \<Rightarrow> (unit, transaction_error) result \<times> transaction \<times> database" where
  "tx_apply fuel E io tx db =
     (let changes = tx_pending tx; tx = tx\<lparr>tx_pending := []\<rparr> in
      if changes \<noteq> [] then run_unwrap (set_values fuel E io changes) tx db else (Ok (), tx, db))"

definition tx_remove :: "bool \<Rightarrow> transaction \<Rightarrow> database \<Rightarrow> (unit, transaction_error) result \<times> database" where
  "tx_remove is_writer tx db =
     (case tm_remove_tx (cx_snapshot_id (tx_context tx)) is_writer (db_tm db) of (r, tm) \<Rightarrow> (r, db\<lparr>db_tm := tm\<rparr>))"

definition tx_publish ::
  "externals \<Rightarrow> io_outcomes \<Rightarrow> transaction \<Rightarrow> database \<Rightarrow> (unit, transaction_error) result \<times> database" where
  "tx_publish E io tx db =
     (case run_unwrap (engine_commit E io) tx db of (r, tx, db) \<Rightarrow> bind_state (r, db) (\<lambda>_. tx_remove True tx))"

definition tx_commit_rw ::
  "nat \<Rightarrow> externals \<Rightarrow> io_outcomes \<Rightarrow> transaction \<Rightarrow> database \<Rightarrow> (unit, transaction_error) result \<times> database" where
  "tx_commit_rw fuel E io tx db =
     (case tx_apply fuel E io tx db of (r, tx, db) \<Rightarrow> bind_state (r, db) (\<lambda>_. tx_publish E io tx))"

definition tx_rollback :: "transaction \<Rightarrow> database \<Rightarrow> (unit, transaction_error) result \<times> database" where
  "tx_rollback tx db = tx_remove True tx db"

definition tx_commit_ro :: "transaction \<Rightarrow> database \<Rightarrow> (unit, transaction_error) result \<times> database" where
  "tx_commit_ro tx db = tx_remove False tx db"

subsection \<open>The transaction manager counts the open transactions\<close>

lemma position_SomeD: "position P xs = Some i \<Longrightarrow> i < length xs \<and> P (xs ! i)"
  by (induction xs arbitrary: i) (auto split: if_splits)

lemma position_eq_Some: "x \<in> set xs \<Longrightarrow> \<exists>i. position (\<lambda>s. s = x) xs = Some i"
  by (induction xs) auto

lemma mset_swap_remove:
  assumes "i < length xs"
  shows "mset (swap_remove i xs) = mset xs - {#xs ! i#}"
proof (cases "i = length xs - 1")
  case True
  then have "xs = butlast xs @ [xs ! i]" using assms by (metis append_butlast_last_id last_conv_nth list.size(3) not_less_zero)
  moreover have "swap_remove i xs = butlast xs"
    using True assms by (simp add: swap_remove_def butlast_list_update)
  ultimately show ?thesis by (metis add_mset_remove_trivial mset.simps mset_append union_mset_add_mset_right add_0_right)
next
  case False
  then have i: "i < length (butlast xs)" using assms by simp
  have xs: "xs = butlast xs @ [last xs]" using assms by (metis append_butlast_last_id list.size(3) not_less_zero)
  have nth: "butlast xs ! i = xs ! i" using i by (simp add: nth_butlast)
  have "swap_remove i xs = (butlast xs)[i := last xs]" using False assms by (simp add: swap_remove_def butlast_list_update)
  then have "mset (swap_remove i xs) = add_mset (last xs) (mset (butlast xs) - {#xs ! i#})"
    using i nth by (simp add: mset_update)
  also have "\<dots> = add_mset (last xs) (mset (butlast xs)) - {#xs ! i#}"
    using i nth by (metis add_mset_diff_bothsides diff_union_swap2 nth_mem_mset)
  also have "\<dots> = mset xs - {#xs ! i#}" using xs by (metis mset.simps mset_append union_mset_add_mset_right add_0_right)
  finally show ?thesis .
qed

lemma min_snapshot_id_eq: "min_snapshot_id tm = (if tm_open_txs tm = [] then None else Some (Min (set (tm_open_txs tm))))"
  by (auto simp: min_snapshot_id_def Min.set_eq_fold [symmetric] split: list.split)

text \<open>Removing: the entry of the transaction goes, one occurrence of it.\<close>

lemma tm_remove_tx_eq:
  assumes "sid - (if is_writer then 1 else 0) \<in> set (tm_open_txs tm)"
  shows "\<exists>xs. tm_remove_tx sid is_writer tm =
      (Ok (), tm\<lparr>tm_has_writer := tm_has_writer tm \<and> \<not> is_writer, tm_open_txs := xs\<rparr>) \<and>
    mset xs = mset (tm_open_txs tm) - {#sid - (if is_writer then 1 else 0)#}"
proof -
  define x where "x = sid - (if is_writer then 1 else 0)"
  obtain i where i: "position (\<lambda>s. s = x) (tm_open_txs tm) = Some i" using position_eq_Some assms x_def by metis
  note p = position_SomeD [OF i]
  have "mset (swap_remove i (tm_open_txs tm)) = mset (tm_open_txs tm) - {#x#}" using p mset_swap_remove by auto
  then show ?thesis
    using i unfolding x_def by (intro exI [of _ "swap_remove i (tm_open_txs tm)"]) (cases tm; cases is_writer; simp add: tm_remove_tx_def Let_def)
qed

lemma tm_begin_rw_ok:
  assumes "\<not> tm_has_writer tm"
  shows "tm_begin_rw sid tm = (Ok (Min (insert (sid - 1) (set (tm_open_txs tm)))),
    tm\<lparr>tm_has_writer := True, tm_open_txs := tm_open_txs tm @ [sid - 1]\<rparr>)"
  using assms by (simp add: tm_begin_rw_def min_snapshot_id_eq unwrap_option_def)

end
