(* ===== verification/Transaction_System.thy ===== *)
theory Transaction_System
  imports Transactions
begin

text \<open>
  Clients of the database: the system state \<open>system\<close> adds the transactions that are open, and \<open>sys_step\<close>
  is one call of a client, on the granularity of the locks: applying the changes of a writer and
  publishing them are two steps, and every call may fail or panic.

  The properties: the reclamation threshold never exceeds the snapshot of an open reader; a reader
  that has started on an intact trie reads that trie for as long as it is open; orphaned pages that no
  reader sees are handed out again; and the two races that the separate locks of \<open>begin_ro\<close> and
  \<open>begin_rw\<close> admit, which the system excludes by taking each of the two calls as one step.
\<close>

subsection \<open>The system\<close>

text \<open>
  The database with the transactions its clients hold. \<open>Applied\<close> is a writer inside \<open>commit\<close>, between
  \<open>set_values\<close> and the lock of the transaction manager; \<open>Lost\<close> is a writer that ended without \<open>commit\<close> or
  \<open>rollback\<close>, because it was dropped or because an error of the engine made the commit panic. Nothing
  takes it off the transaction manager. A reader that is dropped or panics stays in \<open>sys_readers\<close>.
\<close>

datatype writer = NoWriter | Open transaction | Applied transaction | Lost transaction

record system =
  sys_db :: database
  sys_readers :: "transaction list"
  sys_writer :: writer

abbreviation sys_engine :: "system \<Rightarrow> storage_engine" where
  "sys_engine s \<equiv> db_engine (sys_db s)"

abbreviation sys_meta :: "system \<Rightarrow> meta_manager" where
  "sys_meta s \<equiv> se_meta (sys_engine s)"

abbreviation sys_tm :: "system \<Rightarrow> transaction_manager" where
  "sys_tm s \<equiv> db_tm (sys_db s)"

definition tx_snapshot :: "transaction \<Rightarrow> snapshot_id" where
  "tx_snapshot tx = cx_snapshot_id (tx_context tx)"

definition active_snapshot :: "'a storage_engine_scheme \<Rightarrow> snapshot_id" where
  "active_snapshot st = ms_snapshot_id (hs_meta (active_slot (se_meta st)))"

definition fresh_system :: "storage_engine \<Rightarrow> system" where
  "fresh_system st = \<lparr>sys_db = database_new st, sys_readers = [], sys_writer = NoWriter\<rparr>"

text \<open>The calls of a client that only look at the database, with the paths that \<open>AddressPath\<close> and \<open>StoragePath\<close> admit.\<close>

definition address_ok :: "address_path \<Rightarrow> bool" where
  "address_ok a \<longleftrightarrow> list_all is_nibble (ap_path a) \<and> length (ap_path a) = 64"

definition storage_ok :: "storage_path \<Rightarrow> bool" where
  "storage_ok p \<longleftrightarrow> address_ok (sp_address p) \<and> list_all is_nibble (sp_slot p) \<and> length (sp_slot p) = 64"

inductive read_call :: "externals \<Rightarrow> transaction \<Rightarrow> database \<Rightarrow> transaction \<Rightarrow> database \<Rightarrow> bool" for E where
  read_account: "address_ok a \<Longrightarrow> tx_get_account E a tx db = (r, tx', db') \<Longrightarrow> read_call E tx db tx' db'"
| read_slot: "storage_ok p \<Longrightarrow> tx_get_storage_slot E p tx db = (r, tx', db') \<Longrightarrow> read_call E tx db tx' db'"
| read_clear: "read_call E tx db (tx_clear_cache tx) db"

text \<open>The calls that change the pending changes of a writer.\<close>

inductive set_call :: "transaction \<Rightarrow> transaction \<Rightarrow> bool" where
  set_call_account: "set_account a v tx = Ok tx' \<Longrightarrow> set_call tx tx'"
| set_call_slot: "set_storage_slot p x tx = Ok tx' \<Longrightarrow> set_call tx tx'"

text \<open>
  One call. The snapshots of writers are bounded by the 63 bits that the state word of a page has for
  them, and the metadata file by \<open>2 ^ 31\<close> orphans.
\<close>

inductive sys_step :: "externals \<Rightarrow> system \<Rightarrow> system \<Rightarrow> bool" for E where
  step_begin_ro: "begin_ro (sys_db s) = (tx, db) \<Longrightarrow>
    sys_step E s (s\<lparr>sys_db := db, sys_readers := tx # sys_readers s\<rparr>)"
| step_begin_rw: "begin_rw (sys_db s) = (Ok tx, db) \<Longrightarrow> \<not> bit (tx_snapshot tx) 63 \<Longrightarrow>
    sys_step E s (s\<lparr>sys_db := db, sys_writer := Open tx\<rparr>)"
| step_busy: "begin_rw (sys_db s) = (Err e, db) \<Longrightarrow> sys_step E s (s\<lparr>sys_db := db\<rparr>)"
| step_read_ro: "sys_readers s = xs @ tx # ys \<Longrightarrow> read_call E tx (sys_db s) tx' db \<Longrightarrow>
    sys_step E s (s\<lparr>sys_db := db, sys_readers := xs @ tx' # ys\<rparr>)"
| step_read_rw: "sys_writer s = Open tx \<Longrightarrow> read_call E tx (sys_db s) tx' db \<Longrightarrow>
    sys_step E s (s\<lparr>sys_db := db, sys_writer := Open tx'\<rparr>)"
| step_set: "sys_writer s = Open tx \<Longrightarrow> set_call tx tx' \<Longrightarrow> sys_step E s (s\<lparr>sys_writer := Open tx'\<rparr>)"
| step_apply: "sys_writer s = Open tx \<Longrightarrow> bounded_io (io_meta_file io) \<Longrightarrow> tx_apply fuel E io tx (sys_db s) = (r, tx', db) \<Longrightarrow>
    sys_step E s (s\<lparr>sys_db := db, sys_writer := (if r = Ok () then Applied tx' else Lost tx')\<rparr>)"
| step_publish: "sys_writer s = Applied tx \<Longrightarrow> tx_publish E io tx (sys_db s) = (r, db) \<Longrightarrow>
    sys_step E s (s\<lparr>sys_db := db, sys_writer := (if r = Ok () then NoWriter else Lost tx)\<rparr>)"
| step_rollback: "sys_writer s = Open tx \<Longrightarrow> tx_rollback tx (sys_db s) = (r, db) \<Longrightarrow>
    sys_step E s (s\<lparr>sys_db := db, sys_writer := (if r = Ok () then NoWriter else Lost tx)\<rparr>)"
| step_abandon: "sys_writer s = Open tx \<Longrightarrow> sys_step E s (s\<lparr>sys_writer := Lost tx\<rparr>)"
| step_commit_ro: "sys_readers s = xs @ tx # ys \<Longrightarrow> tx_commit_ro tx (sys_db s) = (r, db) \<Longrightarrow>
    sys_step E s (s\<lparr>sys_db := db, sys_readers := xs @ ys\<rparr>)"

subsection \<open>The invariant\<close>

definition writer_entry :: "writer \<Rightarrow> snapshot_id list" where
  "writer_entry wr = (case wr of NoWriter \<Rightarrow> [] | Open tx \<Rightarrow> [tx_snapshot tx - 1] | Applied tx \<Rightarrow> [tx_snapshot tx - 1] | Lost tx \<Rightarrow> [tx_snapshot tx - 1])"

text \<open>The orphan list is ordered by the snapshots of its entries, none of them later than \<open>sid\<close>.\<close>

definition stamps_ok :: "meta_manager \<Rightarrow> snapshot_id \<Rightarrow> bool" where
  "stamps_ok mm sid \<longleftrightarrow>
     sorted (map op_orphaned_at (current_orphans mm)) \<and> (\<forall>o1 \<in> set (current_orphans mm). op_orphaned_at o1 \<le> sid)"

definition writer_ok :: "externals \<Rightarrow> storage_engine \<Rightarrow> writer \<Rightarrow> bool" where
  "writer_ok E st wr =
     (let mm = se_meta st; act = active_snapshot st in
      case wr of
        NoWriter \<Rightarrow> mm_inv E mm \<and> stamps_ok mm act \<and> ms_snapshot_id (hs_meta (dirty_slot mm)) = act + 1
      | Open tx \<Rightarrow> mm_inv E mm \<and> stamps_ok mm act \<and> ms_snapshot_id (hs_meta (dirty_slot mm)) = act + 1 \<and>
          tx_snapshot tx = act + 1 \<and> \<not> bit (act + 1) 63
      | Applied tx \<Rightarrow> mm_inv E mm \<and> stamps_ok mm (act + 1) \<and> tx_snapshot tx = act + 1 \<and> \<not> bit (act + 1) 63
      | Lost tx \<Rightarrow> True)"

definition sys_inv :: "externals \<Rightarrow> system \<Rightarrow> bool" where
  "sys_inv E s \<longleftrightarrow>
     mset (tm_open_txs (sys_tm s)) = mset (map tx_snapshot (sys_readers s)) + mset (writer_entry (sys_writer s)) \<and>
     (tm_has_writer (sys_tm s) \<longleftrightarrow> sys_writer s \<noteq> NoWriter) \<and>
     se_alive (sys_engine s) \<le> active_snapshot (sys_engine s) \<and> \<not> bit (active_snapshot (sys_engine s)) 63 \<and>
     (\<forall>tx \<in> set (sys_readers s). se_alive (sys_engine s) \<le> tx_snapshot tx \<and> tx_snapshot tx \<le> active_snapshot (sys_engine s)) \<and>
     writer_ok E (sys_engine s) (sys_writer s)"

definition fresh_ok :: "externals \<Rightarrow> storage_engine \<Rightarrow> bool" where
  "fresh_ok E st \<longleftrightarrow>
     mm_inv E (se_meta st) \<and> stamps_ok (se_meta st) (active_snapshot st) \<and> se_alive st = active_snapshot st \<and>
     ms_snapshot_id (hs_meta (dirty_slot (se_meta st))) = active_snapshot st + 1 \<and> \<not> bit (active_snapshot st) 63"

lemma fresh_inv: "fresh_ok E st \<Longrightarrow> sys_inv E (fresh_system st)"
  by (simp add: fresh_ok_def sys_inv_def fresh_system_def database_new_def tm_new_def writer_entry_def writer_ok_def)

text \<open>Reading.\<close>

lemma run_quiet:
  assumes "quiet m" and "run_unwrap m tx db = (r, tx', db')"
  shows "db' = db \<and> (\<exists>c. tx' = tx\<lparr>tx_context := (tx_context tx)\<lparr>cx_cache := c\<rparr>\<rparr>)"
proof -
  obtain r0 c where m: "m (world_of (db_engine db) (tx_context tx)) = (r0, with_cache c (world_of (db_engine db) (tx_context tx)))"
    using assms(1) unfolding quiet_def by (metis prod.collapse)
  have "storage_of (with_cache c (world_of (db_engine db) (tx_context tx))) = db_engine db"
    by (simp add: storage_of_def world_of_def)
  then show ?thesis using assms(2) m by (auto simp: run_unwrap_def world_of_def)
qed

lemma read_call_frame:
  assumes "read_call E tx db tx' db'"
  shows "db' = db" "tx_snapshot tx' = tx_snapshot tx"
  using assms
  by (cases; auto simp: tx_get_account_def tx_get_storage_slot_def tx_snapshot_def tx_clear_cache_def context_clear_cache_def
      dest!: run_quiet [OF quiet_get_account] run_quiet [OF quiet_get_storage])+

lemma set_call_frame: "set_call tx tx' \<Longrightarrow> tx_snapshot tx' = tx_snapshot tx"
  by (cases rule: set_call.cases, assumption)
    (auto simp: set_account_def set_storage_slot_def tx_snapshot_def bind_result_eq_Ok)


lemma next_snapshot:
  assumes "\<not> bit (x :: u64) 63"
  shows "x < x + 1" "unat x + 1 < 2 ^ 64"
proof -
  have "take_bit 63 x = x"
  proof (rule bit_eqI)
    fix n
    assume "possible_bit TYPE(u64) n"
    then have "n < 63 \<or> n = 63" by auto
    then show "bit (take_bit 63 x) n = bit x n" using assms by (auto simp: bit_take_bit_iff)
  qed
  then have "unat x = take_bit 63 (unat x)" by (metis unsigned_take_bit_eq)
  then have "unat x < 2 ^ 63" by (metis take_bit_nat_less_exp)
  then show "unat x + 1 < 2 ^ 64" by simp
  with \<open>unat x < 2 ^ 63\<close> show "x < x + 1" by (simp add: word_less_nat_alt unat_word_ariths)
qed

text \<open>What the two halves of a commit do to the database.\<close>

lemma storage_of_sel [simp]: "se_pages (storage_of w) = se_pages w" "se_meta (storage_of w) = se_meta w" "se_alive (storage_of w) = se_alive w"
  by (simp_all add: storage_of_def)

lemma world_of_sel [simp]:
  "se_pages (world_of st cx) = se_pages st" "se_meta (world_of st cx) = se_meta st" "se_alive (world_of st cx) = se_alive st"
  "w_cx (world_of st cx) = cx" "snap (world_of st cx) = cx_snapshot_id cx"
  by (simp_all add: world_of_def snap_def)

lemma open_good:
  assumes "writer_ok E st (Open tx)" and "se_alive st \<le> active_snapshot st" and "\<not> bit (active_snapshot st) 63" and "bounded_io (io_meta_file io)"
  shows "cow_good E io (world_of st (tx_context tx))"
  using assms next_snapshot [OF assms(3)]
  by (simp add: writer_ok_def cow_good_def tx_snapshot_def [symmetric] Let_def)

lemma apply_frame:
  assumes "writer_ok E (db_engine db) (Open tx)" and "se_alive (db_engine db) \<le> active_snapshot (db_engine db)"
    and "\<not> bit (active_snapshot (db_engine db)) 63" and "bounded_io (io_meta_file io)"
    and "tx_apply fuel E io tx db = (r, tx', db')"
  shows "\<exists>w'. cow_step (world_of (db_engine db) (tx_context tx)) w' \<and> mm_inv E (se_meta w') \<and>
    db' = db\<lparr>db_engine := storage_of w'\<rparr> \<and> tx_snapshot tx' = tx_snapshot tx"
proof -
  define w where "w = world_of (db_engine db) (tx_context tx)"
  have good: "cow_good E io w" unfolding w_def by (rule open_good [OF assms(1-4)])
  show ?thesis
  proof (cases "tx_pending tx = []")
    case True
    then have "db' = db" "tx_snapshot tx' = tx_snapshot tx" using assms(5) by (auto simp: tx_apply_def tx_snapshot_def)
    moreover have "db\<lparr>db_engine := storage_of w\<rparr> = db" by (simp add: w_def storage_of_def world_of_def)
    ultimately show ?thesis using good cow_step_refl by (intro exI [of _ w]) (simp add: w_def [symmetric] cow_good_def)
  next
    case False
    obtain r0 w' where sv: "set_values fuel E io (tx_pending tx) w = (r0, w')" by fastforce
    have st: "cow_step w w'" "cow_good E io w'" using set_values_steps [OF good, of fuel "tx_pending tx"] sv by simp_all
    have "db' = db\<lparr>db_engine := storage_of w'\<rparr>" "tx' = tx\<lparr>tx_pending := [], tx_context := w_cx w'\<rparr>"
      using assms(5) False sv by (auto simp: tx_apply_def run_unwrap_def w_def [symmetric])
    moreover have "cx_snapshot_id (w_cx w') = tx_snapshot tx" using st(1) by (simp add: cow_step_def snap_def w_def tx_snapshot_def)
    ultimately show ?thesis using st by (intro exI [of _ w']) (simp add: w_def [symmetric] cow_good_def tx_snapshot_def)
  qed
qed

lemma update_metadata_inv:
  assumes "mm_inv E mm"
  shows "mm_inv E (update_dirty (update_metadata cx) mm)"
    "current_orphans (update_dirty (update_metadata cx) mm) = current_orphans mm"
    "ms_snapshot_id (hs_meta (dirty_slot (update_dirty (update_metadata cx) mm))) = cx_snapshot_id cx"
    "active_slot (update_dirty (update_metadata cx) mm) = active_slot mm"
  using assms
  by (simp_all add: mm_inv_def range_ok_def update_metadata_def set_root_node_page_id_def current_orphans_def queue_of_def)

text \<open>\<open>published\<close>: the state after a successful commit of the snapshot \<open>sid\<close>.\<close>

definition published :: "externals \<Rightarrow> snapshot_id \<Rightarrow> storage_engine \<Rightarrow> storage_engine \<Rightarrow> bool" where
  "published E sid st st' \<longleftrightarrow>
     se_pages st' = se_pages st \<and> se_alive st' = se_alive st \<and> active_snapshot st' = sid \<and>
     mm_inv E (se_meta st') \<and> current_orphans (se_meta st') = current_orphans (se_meta st) \<and>
     ms_snapshot_id (hs_meta (dirty_slot (se_meta st'))) = sid + 1"

definition unpublished :: "storage_engine \<Rightarrow> storage_engine \<Rightarrow> bool" where
  "unpublished st st' \<longleftrightarrow>
     se_pages st' = se_pages st \<and> se_alive st' = se_alive st \<and> active_slot (se_meta st') = active_slot (se_meta st)"

lemma engine_commit_frame:
  assumes "mm_inv E (se_meta w)" and "\<not> bit (snap w) 63" and "engine_commit E io w = (r, w')"
  shows "w_cx w' = w_cx w \<and> (io_sync_pages io \<and> io_sync_meta io \<longrightarrow> r = Ok ()) \<and>
    (if r = Ok () then published E (snap w) (storage_of w) (storage_of w') else unpublished (storage_of w) (storage_of w'))"
proof -
  define mm where "mm = update_dirty (update_metadata (w_cx w)) (se_meta w)"
  note u = update_metadata_inv [OF assms(1), of "w_cx w", folded mm_def]
  have lt: "unat (ms_snapshot_id (hs_meta (dirty_slot mm))) + 1 < 2 ^ 64" using next_snapshot(2) [OF assms(2)] u(3) by (simp add: snap_def)
  consider "\<not> io_sync_pages io" | "io_sync_pages io" "io_sync_meta io" | "io_sync_pages io" "\<not> io_sync_meta io" by blast
  then show ?thesis
  proof cases
    case 1
    then show ?thesis using assms(3) by (auto simp: engine_commit_def action_simps unpublished_def)
  next
    case 2
    obtain mm' where m: "mm_commit E True mm = (Ok (), mm')" "mm_inv E mm'" "current_orphans mm' = current_orphans mm"
      "\<exists>n k. hs_meta (active_slot mm') = (hs_meta (dirty_slot mm))\<lparr>ms_orphan_pages_len := n, ms_reclaimed_orphans_len := k\<rparr>"
      "hs_meta (dirty_slot mm') = (hs_meta (active_slot mm'))\<lparr>ms_snapshot_id := ms_snapshot_id (hs_meta (dirty_slot mm)) + 1\<rparr>"
      using mm_commit_ok [OF u(1) lt] by blast
    have "r = Ok ()" "w' = w\<lparr>se_meta := mm'\<rparr>"
      using assms(3) 2 m(1) by (auto simp: engine_commit_def action_simps meta_action_def mm_def [symmetric])
    then show ?thesis using m(2-5) u by (auto simp: published_def active_snapshot_def snap_def)
  next
    case 3
    obtain mm1 where "compact_orphans mm = (Ok (), mm1)" using compact_orphans_spec [OF u(1)] by blast
    then have "mm_commit E False mm = (Err MetaIO, mm_hashed E mm)" by (simp add: mm_commit_def mm_hashed_def Let_def)
    then have "r = Err EIO" "w' = w\<lparr>se_meta := mm_hashed E mm\<rparr>"
      using assms(3) 3 by (auto simp: engine_commit_def action_simps meta_action_def mm_def [symmetric])
    then show ?thesis using mm_hashed_spec(1) [OF u(1)] u(4) 3 by (simp add: unpublished_def)
  qed
qed

lemma tx_remove_eq:
  assumes "tx_snapshot tx - (if is_writer then 1 else 0) \<in> set (tm_open_txs (db_tm db))" and "tx_remove is_writer tx db = (r, db')"
  shows "r = Ok () \<and> (\<exists>xs. db' = db\<lparr>db_tm := (db_tm db)\<lparr>tm_has_writer := tm_has_writer (db_tm db) \<and> \<not> is_writer, tm_open_txs := xs\<rparr>\<rparr> \<and>
    mset xs = mset (tm_open_txs (db_tm db)) - {#tx_snapshot tx - (if is_writer then 1 else 0)#})"
  using tm_remove_tx_eq [of "tx_snapshot tx" is_writer "db_tm db"] assms by (auto simp: tx_remove_def tx_snapshot_def)

lemma publish_frame:
  assumes "mm_inv E (se_meta (db_engine db))" and "\<not> bit (tx_snapshot tx) 63" and "tx_snapshot tx - 1 \<in> set (tm_open_txs (db_tm db))"
    and "tx_publish E io tx db = (r, db')"
  shows "(io_sync_pages io \<and> io_sync_meta io \<longrightarrow> r = Ok ()) \<and>
    (if r = Ok () then published E (tx_snapshot tx) (db_engine db) (db_engine db') \<and> \<not> tm_has_writer (db_tm db') \<and>
        mset (tm_open_txs (db_tm db')) = mset (tm_open_txs (db_tm db)) - {#tx_snapshot tx - 1#}
      else unpublished (db_engine db) (db_engine db') \<and> db_tm db' = db_tm db)"
proof -
  define w where "w = world_of (db_engine db) (tx_context tx)"
  obtain r0 w' where c: "engine_commit E io w = (r0, w')" by fastforce
  have w: "snap w = tx_snapshot tx" "se_meta w = se_meta (db_engine db)" "storage_of w = db_engine db"
    by (simp_all add: w_def tx_snapshot_def storage_of_def)
  note f = engine_commit_frame [OF _ _ c, unfolded w, OF assms(1,2)]
  have run: "run_unwrap (engine_commit E io) tx db = (unwrap r0, tx\<lparr>tx_context := w_cx w'\<rparr>, db\<lparr>db_engine := storage_of w'\<rparr>)"
    using c by (simp add: run_unwrap_def w_def)
  show ?thesis
  proof (cases "r0 = Ok ()")
    case True
    have s: "tx_snapshot (tx\<lparr>tx_context := w_cx w'\<rparr>) = tx_snapshot tx" using f by (simp add: w_def tx_snapshot_def)
    have "tx_remove True (tx\<lparr>tx_context := w_cx w'\<rparr>) (db\<lparr>db_engine := storage_of w'\<rparr>) = (r, db')"
      using assms(4) run True by (simp add: tx_publish_def unwrap_def)
    from tx_remove_eq [OF _ this] show ?thesis using assms(3) s f True by auto
  next
    case False
    then have "r \<noteq> Ok ()" "db' = db\<lparr>db_engine := storage_of w'\<rparr>"
      using assms(4) run by (cases r0; auto simp: tx_publish_def)+
    then show ?thesis using f False by auto
  qed
qed


lemma stamps_step:
  assumes "stamps_ok mm a" and "a \<le> sid" and "queue_step sid (current_orphans mm) (current_orphans mm')"
  shows "stamps_ok mm' sid"
proof -
  obtain k os where q: "current_orphans mm' = drop k (current_orphans mm) @ os" "\<forall>o1 \<in> set os. op_orphaned_at o1 = sid"
    using assms(3) by (auto simp: queue_step_def)
  have "sorted (map op_orphaned_at os)" using q(2) by (induction os) auto
  moreover have "sorted (map op_orphaned_at (drop k (current_orphans mm)))"
    using assms(1) by (simp add: stamps_ok_def drop_map [symmetric] sorted_wrt_drop)
  ultimately show ?thesis
    using assms(1,2) q by (auto simp: stamps_ok_def sorted_append dest!: in_set_dropD intro: order.trans)
qed

lemma begin_rw_cases:
  assumes "begin_rw db = (r, db')"
  shows "(if tm_has_writer (db_tm db) then r = Err TransactionError \<and> db' = db
    else r = Ok (transaction_new (write_context (db_engine db))) \<and>
      (let sid = ms_snapshot_id (hs_meta (dirty_slot (se_meta (db_engine db)))); m = Min (insert (sid - 1) (set (tm_open_txs (db_tm db)))) in
       db' = \<lparr>db_engine = (db_engine db)\<lparr>se_alive := (if 0 < m then m else se_alive (db_engine db))\<rparr>,
         db_tm = (db_tm db)\<lparr>tm_has_writer := True, tm_open_txs := tm_open_txs (db_tm db) @ [sid - 1]\<rparr>\<rparr>))"
proof -
  have sid: "cx_snapshot_id (write_context (db_engine db)) = ms_snapshot_id (hs_meta (dirty_slot (se_meta (db_engine db))))"
    by (simp add: write_context_def context_new_def)
  show ?thesis
  proof (cases "tm_has_writer (db_tm db)")
    case True
    then show ?thesis using assms by (auto simp: begin_rw_def register_rw_def tm_begin_rw_def)
  next
    case False
    then show ?thesis
      using assms unfolding begin_rw_def register_rw_def tm_begin_rw_ok [OF False] sid
      by (cases db) (auto simp: Let_def unlock_def)
  qed
qed

lemma inv_begin_rw:
  assumes "sys_inv E s" and "begin_rw (sys_db s) = (Ok tx, db)" and "\<not> bit (tx_snapshot tx) 63"
  shows "sys_inv E (s\<lparr>sys_db := db, sys_writer := Open tx\<rparr>)"
proof -
  define act where "act = active_snapshot (sys_engine s)"
  have nw: "\<not> tm_has_writer (sys_tm s)" using begin_rw_cases [OF assms(2)] by (auto split: if_splits)
  then have wr: "sys_writer s = NoWriter" using assms(1) by (simp add: sys_inv_def)
  then have d: "ms_snapshot_id (hs_meta (dirty_slot (sys_meta s))) = act + 1" "mm_inv E (sys_meta s)" "stamps_ok (sys_meta s) act"
    using assms(1) by (simp_all add: sys_inv_def writer_ok_def act_def Let_def)
  define m where "m = Min (insert act (set (tm_open_txs (sys_tm s))))"
  have db: "tx = transaction_new (write_context (sys_engine s))" "db = \<lparr>db_engine = (sys_engine s)\<lparr>se_alive := (if 0 < m then m else se_alive (sys_engine s))\<rparr>,
      db_tm = (sys_tm s)\<lparr>tm_has_writer := True, tm_open_txs := tm_open_txs (sys_tm s) @ [act]\<rparr>\<rparr>"
    using begin_rw_cases [OF assms(2)] nw d(1) by (simp_all add: Let_def m_def)
  have tx: "tx_snapshot tx = act + 1" by (simp add: db(1) tx_snapshot_def transaction_new_def write_context_def context_new_def d(1))
  have ms: "mset (tm_open_txs (sys_tm s)) = mset (map tx_snapshot (sys_readers s))" using assms(1) wr by (simp add: sys_inv_def writer_entry_def)
  then have "set (tm_open_txs (sys_tm s)) = tx_snapshot ` set (sys_readers s)" by (metis set_mset_mset set_map)
  then have m: "m \<le> act" "\<And>r. r \<in> set (sys_readers s) \<Longrightarrow> m \<le> tx_snapshot r" by (simp_all add: m_def)
  have act: "active_snapshot (db_engine db) = act" "se_meta (db_engine db) = sys_meta s" by (simp_all add: db(2) act_def active_snapshot_def)
  show ?thesis
    using assms(1,3) wr ms m d tx act by (simp add: sys_inv_def writer_entry_def writer_ok_def db(2) act_def [symmetric] Let_def)
qed

lemma inv_begin_ro:
  assumes "sys_inv E s" and "begin_ro (sys_db s) = (tx, db)"
  shows "sys_inv E (s\<lparr>sys_db := db, sys_readers := tx # sys_readers s\<rparr>)"
proof -
  have "tx = transaction_new (read_context (sys_engine s))"
    "db = (sys_db s)\<lparr>db_tm := tm_begin_ro (active_snapshot (sys_engine s)) (sys_tm s)\<rparr>"
    using assms(2) by (auto simp: begin_ro_def register_ro_def read_context_def context_new_def active_snapshot_def)
  moreover from this(1) have "tx_snapshot tx = active_snapshot (sys_engine s)"
    by (simp add: tx_snapshot_def transaction_new_def read_context_def context_new_def active_snapshot_def)
  ultimately show ?thesis using assms(1) by (simp add: sys_inv_def tm_begin_ro_def)
qed

lemma inv_apply:
  assumes "sys_inv E s" and "sys_writer s = Open tx" and "bounded_io (io_meta_file io)" and "tx_apply fuel E io tx (sys_db s) = (r, tx', db)"
  shows "sys_inv E (s\<lparr>sys_db := db, sys_writer := (if r = Ok () then Applied tx' else Lost tx')\<rparr>)"
proof -
  define act where "act = active_snapshot (sys_engine s)"
  have i: "writer_ok E (sys_engine s) (Open tx)" "se_alive (sys_engine s) \<le> active_snapshot (sys_engine s)" "\<not> bit (active_snapshot (sys_engine s)) 63"
    using assms(1,2) by (simp_all add: sys_inv_def)
  obtain w' where w: "cow_step (world_of (sys_engine s) (tx_context tx)) w'" "mm_inv E (se_meta w')"
    "db = (sys_db s)\<lparr>db_engine := storage_of w'\<rparr>" "tx_snapshot tx' = tx_snapshot tx"
    using apply_frame [OF i assms(3,4)] by blast
  have tx: "tx_snapshot tx = act + 1" "\<not> bit (act + 1) 63" "stamps_ok (sys_meta s) act"
    using i(1) by (simp_all add: writer_ok_def act_def Let_def)
  have f: "active_snapshot (storage_of w') = act" "se_alive w' = se_alive (sys_engine s)"
    using w(1) by (simp_all add: cow_step_def act_def active_snapshot_def)
  have "queue_step (act + 1) (current_orphans (sys_meta s)) (current_orphans (se_meta w'))"
    using w(1) tx(1) by (simp add: cow_step_def tx_snapshot_def)
  then have "stamps_ok (se_meta w') (act + 1)"
    by (rule stamps_step [OF tx(3), rotated]) (use next_snapshot(1) [OF i(3)] in \<open>simp add: act_def\<close>)
  then show ?thesis
    using assms(1,2) w f tx by (simp add: sys_inv_def writer_ok_def writer_entry_def act_def [symmetric] Let_def)
qed

lemma inv_publish:
  assumes "sys_inv E s" and "sys_writer s = Applied tx" and "tx_publish E io tx (sys_db s) = (r, db)"
  shows "sys_inv E (s\<lparr>sys_db := db, sys_writer := (if r = Ok () then NoWriter else Lost tx)\<rparr>)"
proof -
  define act where "act = active_snapshot (sys_engine s)"
  have i: "mm_inv E (sys_meta s)" "stamps_ok (sys_meta s) (act + 1)" "tx_snapshot tx = act + 1" "\<not> bit (act + 1) 63" "\<not> bit act 63"
    using assms(1,2) by (simp_all add: sys_inv_def writer_ok_def act_def Let_def)
  have ms: "mset (tm_open_txs (sys_tm s)) = mset (map tx_snapshot (sys_readers s)) + {#act#}"
    using assms(1,2) i(3) by (simp add: sys_inv_def writer_entry_def)
  then have mem: "tx_snapshot tx - 1 \<in> set (tm_open_txs (sys_tm s))" using i(3) by (metis add_diff_cancel set_mset_mset union_iff union_single_eq_member)
  note p = publish_frame [OF i(1) _ mem assms(3)]
  have lt: "act \<le> act + 1" using next_snapshot(1) [OF i(5)] by simp
  show ?thesis
  proof (cases "r = Ok ()")
    case True
    then have pub: "published E (act + 1) (sys_engine s) (db_engine db)" "\<not> tm_has_writer (db_tm db)"
      "mset (tm_open_txs (db_tm db)) = mset (map tx_snapshot (sys_readers s))"
      using p i(3,4) ms by simp_all
    have "\<forall>t \<in> set (sys_readers s). se_alive (sys_engine s) \<le> tx_snapshot t \<and> tx_snapshot t \<le> act + 1" "se_alive (sys_engine s) \<le> act + 1"
      using assms(1) lt unfolding sys_inv_def act_def [symmetric] by (auto intro: order.trans)
    then show ?thesis
      using pub i(2,4) True
      by (simp add: sys_inv_def published_def writer_ok_def writer_entry_def stamps_ok_def Let_def)
  next
    case False
    then have "unpublished (sys_engine s) (db_engine db)" "db_tm db = sys_tm s" using p i(3,4) by simp_all
    then show ?thesis
      using assms(1,2) False
      by (simp add: sys_inv_def unpublished_def writer_ok_def writer_entry_def active_snapshot_def)
  qed
qed

lemma inv_rollback:
  assumes "sys_inv E s" and "sys_writer s = Open tx" and "tx_rollback tx (sys_db s) = (r, db)"
  shows "sys_inv E (s\<lparr>sys_db := db, sys_writer := (if r = Ok () then NoWriter else Lost tx)\<rparr>)"
proof -
  have ms: "mset (tm_open_txs (sys_tm s)) = mset (map tx_snapshot (sys_readers s)) + {#tx_snapshot tx - 1#}"
    using assms(1,2) by (simp add: sys_inv_def writer_entry_def)
  then have mem: "tx_snapshot tx - (if True then 1 else 0) \<in> set (tm_open_txs (sys_tm s))"
    by (metis set_mset_mset union_iff union_single_eq_member)
  note t = tx_remove_eq [OF mem assms(3) [unfolded tx_rollback_def]]
  show ?thesis
    using t ms assms(1,2) by (auto simp: sys_inv_def writer_entry_def writer_ok_def Let_def)
qed

lemma inv_commit_ro:
  assumes "sys_inv E s" and "sys_readers s = xs @ tx # ys" and "tx_commit_ro tx (sys_db s) = (r, db)"
  shows "r = Ok ()" "sys_inv E (s\<lparr>sys_db := db, sys_readers := xs @ ys\<rparr>)" "db_engine db = sys_engine s"
proof -
  have ms: "mset (tm_open_txs (sys_tm s)) = add_mset (tx_snapshot tx) (mset (map tx_snapshot (xs @ ys)) + mset (writer_entry (sys_writer s)))"
    using assms(1,2) by (simp add: sys_inv_def)
  then have mem: "tx_snapshot tx - (if False then 1 else 0) \<in> set (tm_open_txs (sys_tm s))"
    by (simp, metis set_mset_mset union_single_eq_member)
  note t = tx_remove_eq [OF mem assms(3) [unfolded tx_commit_ro_def]]
  show "r = Ok ()" "sys_inv E (s\<lparr>sys_db := db, sys_readers := xs @ ys\<rparr>)" "db_engine db = sys_engine s"
    using t ms assms(1,2) by (auto simp: sys_inv_def)
qed

lemma inv_same_engine:
  assumes "sys_inv E s" and "map tx_snapshot rs = map tx_snapshot (sys_readers s)"
  shows "sys_inv E (s\<lparr>sys_readers := rs\<rparr>)"
proof -
  have "tx_snapshot ` set rs = tx_snapshot ` set (sys_readers s)" by (metis assms(2) set_map)
  then have "\<forall>t \<in> set rs. \<exists>u \<in> set (sys_readers s). tx_snapshot t = tx_snapshot u" by (metis imageE imageI)
  then show ?thesis using assms by (auto simp: sys_inv_def simp flip: mset_map)
qed

lemma inv_writer_tx: "sys_inv E s \<Longrightarrow> sys_writer s = Open tx \<Longrightarrow> tx_snapshot tx' = tx_snapshot tx \<Longrightarrow>
    sys_inv E (s\<lparr>sys_writer := Open tx'\<rparr>) \<and> sys_inv E (s\<lparr>sys_writer := Lost tx'\<rparr>)"
  by (simp add: sys_inv_def writer_entry_def writer_ok_def Let_def)

lemma sys_inv_step: "sys_step E s s' \<Longrightarrow> sys_inv E s \<Longrightarrow> sys_inv E s'"
proof (induction rule: sys_step.induct)
  case (step_busy s e db)
  then have "db = sys_db s" using begin_rw_cases [OF step_busy(1)] by (auto split: if_splits)
  then show ?case using step_busy(2) by simp
next
  case (step_read_ro s xs tx ys tx' db)
  then show ?case using read_call_frame [OF step_read_ro(2)] inv_same_engine [OF step_read_ro(3), of "xs @ tx' # ys"] by simp
next
  case (step_read_rw s tx tx' db)
  then show ?case using read_call_frame [OF step_read_rw(2)] inv_writer_tx [OF step_read_rw(3,1)] by simp
qed (simp_all add: inv_begin_ro inv_begin_rw inv_apply inv_publish inv_rollback inv_commit_ro inv_writer_tx set_call_frame)

lemma sys_inv_reachable: "(sys_step E)\<^sup>*\<^sup>* s s' \<Longrightarrow> sys_inv E s \<Longrightarrow> sys_inv E s'"
  by (induction rule: rtranclp_induct) (auto intro: sys_inv_step)


subsection \<open>The life of a reader\<close>

text \<open>
  A reader is intact when its pages hold the trie \<open>t\<close>, none of them was written after its snapshot, and
  those that have been orphaned since carry a later snapshot.
\<close>

definition is_lost :: "writer \<Rightarrow> bool" where
  "is_lost wr = (case wr of Lost _ \<Rightarrow> True | _ \<Rightarrow> False)"

definition intact :: "externals \<Rightarrow> system \<Rightarrow> transaction \<Rightarrow> page_id set \<Rightarrow> trie \<Rightarrow> bool" where
  "intact E s tx S t \<longleftrightarrow>
     reads E (world_of (sys_engine s) (tx_context tx)) S t \<and>
     (\<forall>p \<in> S. p \<le> pm_page_count (se_pages (sys_engine s)) \<and>
        (case state_of (page_at p (sys_engine s)) of Occupied sid \<Rightarrow> sid \<le> tx_snapshot tx | _ \<Rightarrow> False)) \<and>
     (is_lost (sys_writer s) \<or> (\<forall>o1 \<in> set (current_orphans (sys_meta s)). op_page_id o1 \<in> S \<longrightarrow> tx_snapshot tx < op_orphaned_at o1))"

text \<open>\<open>follows E tx0 s0 tx s\<close>: the reader \<open>tx0\<close> of the system \<open>s0\<close> is the reader \<open>tx\<close> of the later system \<open>s\<close>.\<close>

inductive follows :: "externals \<Rightarrow> transaction \<Rightarrow> system \<Rightarrow> transaction \<Rightarrow> system \<Rightarrow> bool" for E tx0 s0 where
  follows_start: "tx0 \<in> set (sys_readers s0) \<Longrightarrow> follows E tx0 s0 tx0 s0"
| follows_other: "follows E tx0 s0 tx s \<Longrightarrow> sys_step E s s' \<Longrightarrow> tx \<in> set (sys_readers s') \<Longrightarrow> follows E tx0 s0 tx s'"
| follows_read: "follows E tx0 s0 tx s \<Longrightarrow> sys_readers s = xs @ tx # ys \<Longrightarrow> read_call E tx (sys_db s) tx' db \<Longrightarrow>
    follows E tx0 s0 tx' (s\<lparr>sys_db := db, sys_readers := xs @ tx' # ys\<rparr>)"

lemma follows_inv:
  "follows E tx0 s0 tx s \<Longrightarrow> sys_inv E s0 \<Longrightarrow> sys_inv E s \<and> tx \<in> set (sys_readers s)"
  by (induction rule: follows.induct) (auto intro: sys_inv_step sys_step.step_read_ro)

lemma world_of_same: "world_of (storage_of w) cx = w\<lparr>w_cx := cx\<rparr>" "(world_of st cx)\<lparr>w_cx := cx'\<rparr> = world_of st cx'"
  by (cases w, simp add: world_of_def storage_of_def) (simp add: world_of_def)

lemma intact_frame:
  assumes "intact E s tx S t" and "se_pages (sys_engine s') = se_pages (sys_engine s)"
    and "is_lost (sys_writer s') \<or> \<not> is_lost (sys_writer s) \<and> current_orphans (sys_meta s') = current_orphans (sys_meta s) \<or> sys_meta s' = sys_meta s \<and> sys_writer s' = sys_writer s"
  shows "intact E s' tx S t"
proof -
  define cx where "cx = tx_context tx"
  have "reads E ((world_of (sys_engine s) cx)\<lparr>w_cx := cx\<rparr>) S t" using assms(1) by (simp add: intact_def world_of_same cx_def)
  then have "reads E ((world_of (sys_engine s') cx)\<lparr>w_cx := cx\<rparr>) S t"
    by (rule reads_frame) (use assms(2) in \<open>simp_all add: page_at_def\<close>)
  then show ?thesis using assms by (auto simp: intact_def world_of_same cx_def page_at_def)
qed

lemma intact_apply:
  assumes "sys_inv E s" and "tx \<in> set (sys_readers s)" and "intact E s tx S t" and "sys_writer s = Open wtx"
    and "bounded_io (io_meta_file io)" and "tx_apply fuel E io wtx (sys_db s) = (r, wtx', db)"
  shows "intact E (s\<lparr>sys_db := db, sys_writer := (if r = Ok () then Applied wtx' else Lost wtx')\<rparr>) tx S t"
proof -
  define w where "w = world_of (sys_engine s) (tx_context wtx)"
  have i: "writer_ok E (sys_engine s) (Open wtx)" "se_alive (sys_engine s) \<le> active_snapshot (sys_engine s)" "\<not> bit (active_snapshot (sys_engine s)) 63"
    using assms(1,4) by (simp_all add: sys_inv_def)
  obtain w' where w': "cow_step w w'" "db = (sys_db s)\<lparr>db_engine := storage_of w'\<rparr>"
    using apply_frame [OF i assms(5,6)] w_def by blast
  have alive: "se_alive (sys_engine s) \<le> tx_snapshot tx" "tx_snapshot tx \<le> active_snapshot (sys_engine s)"
    using assms(1,2) by (simp_all add: sys_inv_def)
  have wsnap: "snap w = active_snapshot (sys_engine s) + 1" using i(1) by (simp add: w_def writer_ok_def tx_snapshot_def Let_def)
  then have lt: "tx_snapshot tx < snap w" using alive(2) next_snapshot(1) [OF i(3)] by simp
  have S: "p \<le> pm_page_count (se_pages (sys_engine s))" "case state_of (page_at p (sys_engine s)) of Occupied sid \<Rightarrow> sid \<le> tx_snapshot tx | _ \<Rightarrow> False"
    if "p \<in> S" for p using assms(3) that by (simp_all add: intact_def)
  have orph: "tx_snapshot tx < op_orphaned_at o1" if "o1 \<in> set (current_orphans (sys_meta s))" "op_page_id o1 \<in> S" for o1
    using assms(3,4) that by (simp add: intact_def is_lost_def)
  have sh: "shielded w p" if "p \<in> S" for p
  proof -
    have "p \<notin> reusable w" using orph that alive(1) by (fastforce simp: reusable_def w_def)
    then show ?thesis using S [OF that] lt
      by (auto simp: shielded_def page_limit_def page_at_def w_def split: page_state.splits)
  qed
  have same: "page_at p w' = page_at p w" if "p \<in> S" for p using w'(1) sh [OF that] by (simp add: cow_step_def)
  have "reads E (w\<lparr>w_cx := tx_context tx\<rparr>) S t" using assms(3) by (simp add: intact_def w_def world_of_same)
  then have rd: "reads E (world_of (storage_of w') (tx_context tx)) S t"
    unfolding world_of_same(1) by (rule reads_frame) (use w'(1) same in \<open>auto simp: cow_step_def\<close>)
  have pages: "p \<le> pm_page_count (se_pages w')" "case state_of (page_at p (storage_of w')) of Occupied sid \<Rightarrow> sid \<le> tx_snapshot tx | _ \<Rightarrow> False"
    if "p \<in> S" for p
    using S [OF that] same [OF that] w'(1) by (auto simp: cow_step_def pm_extends_def w_def page_at_def)
  have "tx_snapshot tx < op_orphaned_at o1" if "o1 \<in> set (current_orphans (se_meta w'))" "op_page_id o1 \<in> S" for o1
  proof -
    have "o1 \<in> set (current_orphans (sys_meta s)) \<or> op_orphaned_at o1 = snap w"
      using queue_step_member [of "snap w" _ _ o1] w'(1) that(1) by (auto simp: cow_step_def w_def)
    then show ?thesis using orph that(2) lt by auto
  qed
  then show ?thesis using rd pages w'(2) by (simp add: intact_def)
qed

lemma intact_step:
  assumes "sys_step E s s'" and "sys_inv E s" and "tx \<in> set (sys_readers s)" and "intact E s tx S t"
  shows "intact E s' tx S t"
  using assms
proof (induction rule: sys_step.induct)
  case (step_begin_ro s rtx db)
  then have "db_engine db = sys_engine s" by (auto simp: begin_ro_def register_ro_def)
  with step_begin_ro(4) show ?case by - (rule intact_frame [of E s]; auto)
next
  case (step_begin_rw s wtx db)
  then have "se_pages (db_engine db) = se_pages (sys_engine s)" "se_meta (db_engine db) = sys_meta s" "\<not> is_lost (sys_writer s)"
    using begin_rw_cases [OF step_begin_rw(1)] by (auto simp: sys_inv_def Let_def is_lost_def split: if_splits writer.splits)
  with step_begin_rw show ?case by - (rule intact_frame [of E s]; auto)
next
  case (step_busy s e db)
  then have "db = sys_db s" using begin_rw_cases [OF step_busy(1)] by (auto split: if_splits)
  with step_busy show ?case by simp
next
  case (step_read_ro s xs rtx ys rtx' db)
  with read_call_frame [OF step_read_ro(2)] show ?case by - (rule intact_frame [of E s]; auto)
next
  case (step_read_rw s wtx wtx' db)
  with read_call_frame [OF step_read_rw(2)] show ?case by - (rule intact_frame [of E s]; auto simp: is_lost_def)
next
  case (step_set s wtx wtx')
  then show ?case by - (rule intact_frame [of E s]; auto simp: is_lost_def)
next
  case (step_apply s wtx io fuel r wtx' db)
  then show ?case by (intro intact_apply) auto
next
  case (step_publish s wtx io r db)
  have i: "mm_inv E (sys_meta s)" "\<not> bit (tx_snapshot wtx) 63" "tx_snapshot wtx - 1 \<in> set (tm_open_txs (sys_tm s))"
    using step_publish(1,3) by (auto simp: sys_inv_def writer_ok_def Let_def writer_entry_def simp flip: set_mset_mset)
  have "se_pages (db_engine db) = se_pages (sys_engine s)" "r = Ok () \<Longrightarrow> current_orphans (se_meta (db_engine db)) = current_orphans (sys_meta s)"
    using publish_frame [OF i step_publish(2)] by (auto simp: published_def unpublished_def split: if_splits)
  with step_publish(1,5) show ?case by - (rule intact_frame [of E s]; auto simp: is_lost_def)
next
  case (step_rollback s wtx r db)
  then have "db_engine db = sys_engine s" by (auto simp: tx_rollback_def tx_remove_def split: prod.splits)
  with step_rollback show ?case by - (rule intact_frame [of E s]; auto simp: is_lost_def)
next
  case (step_abandon s wtx)
  then show ?case by - (rule intact_frame [of E s]; auto simp: is_lost_def)
next
  case (step_commit_ro s xs rtx ys r db)
  then have "db_engine db = sys_engine s" by (auto simp: tx_commit_ro_def tx_remove_def split: prod.splits)
  with step_commit_ro show ?case by - (rule intact_frame [of E s]; auto)
qed

text \<open>The calls of an intact reader.\<close>

lemma intact_reads: "intact E s tx S t \<Longrightarrow> reads E (world_of (sys_engine s) (tx_context tx)) S t"
  by (simp add: intact_def)

lemma storage_of_cache [simp]: "storage_of (with_cache c (world_of st cx)) = st" "db\<lparr>db_engine := db_engine db\<rparr> = db"
  by (simp_all add: storage_of_def world_of_def)

lemma reader_get_account:
  assumes "reads E (world_of (db_engine db) (tx_context tx)) S t" and "address_ok a"
  shows "\<exists>c. tx_get_account E a tx db =
      (Ok (case trie_lookup t (ap_path a) of Some (TAccount acc) \<Rightarrow> Some acc | _ \<Rightarrow> None),
       tx\<lparr>tx_context := (tx_context tx)\<lparr>cx_cache := c\<rparr>\<rparr>, db) \<and>
    reads E (world_of (db_engine db) ((tx_context tx)\<lparr>cx_cache := c\<rparr>)) S t"
proof -
  obtain c where "get_account READ_FUEL E a (world_of (db_engine db) (tx_context tx)) =
      (Ok (case trie_lookup t (ap_path a) of Some (TAccount acc) \<Rightarrow> Some acc | _ \<Rightarrow> None), with_cache c (world_of (db_engine db) (tx_context tx)))"
    "reads E (with_cache c (world_of (db_engine db) (tx_context tx))) S t"
    using get_account_correct [OF assms(1), of a] assms(2) by (auto simp: address_ok_def)
  then show ?thesis by (intro exI [of _ c]) (simp add: tx_get_account_def run_unwrap_def world_of_same)
qed

lemma reader_get_storage:
  assumes "reads E (world_of (db_engine db) (tx_context tx)) S t" and "storage_ok p"
  shows "tx_get_storage_slot E p tx db =
    (Ok (case trie_lookup t (ap_path (sp_address p) @ sp_slot p) of Some (TStorage v) \<Rightarrow> Some v | _ \<Rightarrow> None), tx, db)"
  using get_storage_correct [OF assms(1), of p] assms(2)
  by (simp add: storage_ok_def address_ok_def tx_get_storage_slot_def run_unwrap_def storage_of_def)

lemma intact_read_call:
  assumes "intact E s tx S t" and "read_call E tx (sys_db s) tx' db"
  shows "intact E (s\<lparr>sys_db := db, sys_readers := rs\<rparr>) tx' S t"
proof -
  have f: "db = sys_db s" "tx_snapshot tx' = tx_snapshot tx" by (rule read_call_frame [OF assms(2)])+
  have "reads E (world_of (sys_engine s) (tx_context tx')) S t"
    using assms(2)
  proof cases
    case (read_account a r)
    then show ?thesis using reader_get_account [OF intact_reads [OF assms(1)], of a] by auto
  next
    case (read_slot p r)
    then show ?thesis using reader_get_storage [OF intact_reads [OF assms(1)], of p] intact_reads [OF assms(1)] by auto
  next
    case read_clear
    define w where "w = world_of (sys_engine s) (tx_context tx)"
    have r: "reads E w S t" using assms(1) by (simp add: intact_def w_def)
    have "reads E (with_cache Map.empty w) S t" using r holds_with_cache unfolding reads_def by auto
    then show ?thesis using read_clear by (simp add: tx_clear_cache_def context_clear_cache_def w_def world_of_same)
  qed
  then show ?thesis using assms(1) unfolding intact_def f by simp
qed

lemma follows_intact:
  assumes "follows E tx0 s0 tx s" and "sys_inv E s0" and "intact E s0 tx0 S t"
  shows "intact E s tx S t"
  using assms
proof (induction rule: follows.induct)
  case (follows_other tx s s')
  then show ?case using intact_step follows_inv by blast
next
  case (follows_read tx s xs ys tx' db)
  then show ?case using intact_read_call by blast
qed


subsection \<open>Sequences of transactions\<close>

lemma begin_rw_alive:
  assumes "sys_inv E s" and "sys_writer s = NoWriter" and "begin_rw (sys_db s) = (r, db)"
  shows "r = Ok (transaction_new (write_context (sys_engine s)))" "se_meta (db_engine db) = sys_meta s"
    "se_alive (db_engine db) = Min (insert (active_snapshot (sys_engine s)) (tx_snapshot ` set (sys_readers s)))"
proof -
  define act where "act = active_snapshot (sys_engine s)"
  have nw: "\<not> tm_has_writer (sys_tm s)" and d: "ms_snapshot_id (hs_meta (dirty_slot (sys_meta s))) = act + 1"
    using assms(1,2) by (simp_all add: sys_inv_def writer_ok_def act_def Let_def)
  have "mset (tm_open_txs (sys_tm s)) = mset (map tx_snapshot (sys_readers s))" using assms(1,2) by (simp add: sys_inv_def writer_entry_def)
  then have os: "set (tm_open_txs (sys_tm s)) = tx_snapshot ` set (sys_readers s)" by (metis set_mset_mset set_map)
  define m where "m = Min (insert act (tx_snapshot ` set (sys_readers s)))"
  have "se_alive (sys_engine s) \<le> m" using assms(1) by (auto simp: m_def act_def sys_inv_def)
  then have "(if 0 < m then m else se_alive (sys_engine s)) = m" by (auto simp: word_gt_0)
  then show "r = Ok (transaction_new (write_context (sys_engine s)))" "se_meta (db_engine db) = sys_meta s"
    "se_alive (db_engine db) = Min (insert (active_snapshot (sys_engine s)) (tx_snapshot ` set (sys_readers s)))"
    using begin_rw_cases [OF assms(3)] nw d os by (simp_all add: Let_def m_def [symmetric] act_def [symmetric] del: Min_gr_iff split: if_splits)
qed

text \<open>A successful commit moves the active snapshot by one.\<close>

lemma commit_rw_steps:
  assumes "sys_inv E s" and "sys_writer s = Open tx" and "bounded_io (io_meta_file io)" and "tx_commit_rw fuel E io tx (sys_db s) = (Ok (), db)"
  shows "sys_inv E (s\<lparr>sys_db := db, sys_writer := NoWriter\<rparr>)" "active_snapshot (db_engine db) = active_snapshot (sys_engine s) + 1"
proof -
  obtain r tx' db1 where a: "tx_apply fuel E io tx (sys_db s) = (r, tx', db1)" by (cases "tx_apply fuel E io tx (sys_db s)") auto
  then have r: "r = Ok ()" "tx_publish E io tx' db1 = (Ok (), db)"
    using assms(4) by (cases r; auto simp: tx_commit_rw_def)+
  define s1 where "s1 = s\<lparr>sys_db := db1, sys_writer := Applied tx'\<rparr>"
  have inv1: "sys_inv E s1" using inv_apply [OF assms(1-3) a] r(1) by (simp add: s1_def)
  have s1: "sys_writer s1 = Applied tx'" "sys_db s1 = db1" by (simp_all add: s1_def)
  show "sys_inv E (s\<lparr>sys_db := db, sys_writer := NoWriter\<rparr>)"
    using inv_publish [OF inv1 s1(1), of io "Ok ()" db] r(2) s1 by (simp add: s1_def)
  have i: "writer_ok E (sys_engine s) (Open tx)" "se_alive (sys_engine s) \<le> active_snapshot (sys_engine s)" "\<not> bit (active_snapshot (sys_engine s)) 63"
    using assms(1,2) by (simp_all add: sys_inv_def)
  have act: "active_snapshot (db_engine db1) = active_snapshot (sys_engine s)"
    using apply_frame [OF i assms(3) a] by (auto simp: cow_step_def active_snapshot_def)
  have p: "mm_inv E (se_meta (db_engine db1))" "\<not> bit (tx_snapshot tx') 63" "tx_snapshot tx' = active_snapshot (db_engine db1) + 1"
    "tx_snapshot tx' - 1 \<in> set (tm_open_txs (db_tm db1))"
    using inv1 s1 by (auto simp: sys_inv_def writer_ok_def writer_entry_def Let_def simp flip: set_mset_mset)
  show "active_snapshot (db_engine db) = active_snapshot (sys_engine s) + 1"
    using publish_frame [OF p(1,2,4) r(2)] p(3) act by (simp add: published_def)
qed

text \<open>The order of the pending changes.\<close>

lemma mset_short: "mset xs = mset ys \<Longrightarrow> length ys \<le> 1 \<Longrightarrow> xs = ys"
  by (cases ys) auto

lemma sort_key_perm:
  fixes xs ys :: "('k :: linorder \<times> 'v) list"
  assumes "mset xs = mset ys" and "distinct (map fst xs)"
  shows "sort_key fst xs = sort_key fst ys"
proof (rule properties_for_sort_key [symmetric])
  show "mset (sort_key fst xs) = mset ys" using assms(1) by simp
  show "sorted (map fst (sort_key fst xs))" by simp
  fix k
  assume "k \<in> set (sort_key fst xs)"
  have dist: "distinct (map fst ys)" using assms by (metis mset_eq_imp_distinct_iff mset_map)
  have "mset (filter (\<lambda>x. fst k = fst x) (sort_key fst xs)) = mset (filter (\<lambda>x. fst k = fst x) ys)"
    using assms(1) by simp
  moreover have "length (filter (\<lambda>x. fst k = fst x) ys) \<le> 1"
  proof -
    have "distinct (map fst (filter (\<lambda>x. fst k = fst x) ys))" using dist by (rule distinct_map_filter)
    moreover have "set (map fst (filter (\<lambda>x. fst k = fst x) ys)) \<subseteq> {fst k}" by auto
    ultimately show ?thesis by (metis distinct_card card_mono card.empty card_insert_disjoint empty_iff finite.emptyI finite.insertI length_map One_nat_def)
  qed
  ultimately show "filter (\<lambda>x. fst k = fst x) (sort_key fst xs) = filter (\<lambda>x. fst k = fst x) ys"
    by (rule mset_short)
qed

lemma set_values_perm: "mset xs = mset ys \<Longrightarrow> distinct (map fst xs) \<Longrightarrow> set_values fuel E io xs = set_values fuel E io ys"
  unfolding set_values_def by (simp only: sort_key_perm)

lemma tx_publish_context: "tx_context tx' = tx_context tx \<Longrightarrow> tx_publish E io tx' = tx_publish E io tx"
  by (simp add: tx_publish_def run_unwrap_def tx_remove_def [abs_def] fun_eq_iff split: prod.split)

text \<open>Opening the metadata file.\<close>

lemma latest_slot_index_bound: "latest_slot_index E s0 s1 = Ok i \<Longrightarrow> i \<le> 1"
  by (auto simp: latest_slot_index_def split: if_splits result.splits)

lemma from_file_active:
  assumes "mm_from_file E s0 s1 xs = Ok mm"
  shows "mm_active mm \<le> 1"
proof -
  obtain i where i: "latest_slot_index E s0 s1 = Ok i" using assms by (auto simp: mm_from_file_def bind_result_eq_Ok)
  have "mm_active (snd (populate_dirty_slot m)) = mm_active m" for m
    by (auto simp: populate_dirty_slot_def Let_def split: result.split)
  then show ?thesis
    using assms latest_slot_index_bound [OF i] by (auto simp: mm_from_file_def i split: prod.splits result.splits) (metis snd_conv meta_manager.select_convs(4))
qed


subsection \<open>A sample database\<close>

text \<open>The page of \<open>sample_world\<close> as the committed state of snapshot 1.\<close>

definition sample_slot :: hashed_slot where
  "sample_slot = update_hash sample_externals
     (zero_slot\<lparr>hs_meta := (hs_meta zero_slot)\<lparr>ms_snapshot_id := 1, ms_root_node_page_id := 1, ms_page_count := 1\<rparr>\<rparr>)"

definition sample_engine :: storage_engine where
  "sample_engine =
     \<lparr>se_pages = se_pages sample_world,
      se_meta = \<lparr>mm_slot0 = sample_slot, mm_slot1 = sample_slot\<lparr>hs_meta := (hs_meta sample_slot)\<lparr>ms_snapshot_id := 2\<rparr>\<rparr>,
        mm_list = replicate 4 zero_orphan, mm_active = 0\<rparr>,
      se_alive = 1\<rparr>"

lemma sample_engine_slots [simp]:
  "active_slot (se_meta sample_engine) = sample_slot"
  "dirty_slot (se_meta sample_engine) = sample_slot\<lparr>hs_meta := (hs_meta sample_slot)\<lparr>ms_snapshot_id := 2\<rparr>\<rparr>"
  "active_snapshot sample_engine = 1" "se_pages sample_engine = se_pages sample_world" "se_alive sample_engine = 1"
  "current_orphans (se_meta sample_engine) = []"
  by (simp_all add: sample_engine_def active_slot_def dirty_slot_def active_snapshot_def sample_slot_def update_hash_def
      current_orphans_def queue_of_def zero_slot_def subl_def)

lemma bit_small [simp]: "\<not> bit (1 :: u64) 63" "\<not> bit (2 :: u64) 63" "\<not> bit (3 :: u64) 63"
  by (simp_all add: bit_numeral_rec bit_1_iff)

lemma sample_fresh: "fresh_ok sample_externals sample_engine"
proof -
  have "verify_integrity sample_externals sample_slot = Ok ()"
    unfolding sample_slot_def by (rule verify_update_hash [of _ 0]) (simp add: range_ok_def zero_slot_def)
  moreover have "range_ok (hs_meta sample_slot) 4" by (simp add: range_ok_def sample_slot_def update_hash_def zero_slot_def)
  ultimately have "mm_inv sample_externals (se_meta sample_engine)"
    by (simp add: mm_inv_def range_ok_def) (simp add: sample_engine_def)
  then show ?thesis by (simp add: fresh_ok_def stamps_ok_def)
qed

definition sample_reader :: transaction where
  "sample_reader = transaction_new (read_context sample_engine)"

definition sample_reading :: system where
  "sample_reading =
     \<lparr>sys_db = \<lparr>db_engine = sample_engine, db_tm = \<lparr>tm_has_writer = False, tm_open_txs = [1]\<rparr>\<rparr>,
      sys_readers = [sample_reader], sys_writer = NoWriter\<rparr>"

lemma sample_reader_snapshot [simp]: "tx_snapshot sample_reader = 1" "cx_snapshot_id (read_context sample_engine) = 1"
  by (simp_all add: sample_reader_def tx_snapshot_def transaction_new_def read_context_def context_new_def sample_slot_def update_hash_def)

lemma sample_reading_step: "sys_step E (fresh_system sample_engine) sample_reading"
proof -
  have "begin_ro (database_new sample_engine) = (sample_reader, sys_db sample_reading)"
    by (simp add: begin_ro_def register_ro_def database_new_def tm_begin_ro_def tm_new_def sample_reader_def sample_reading_def)
  then have "sys_step E (fresh_system sample_engine)
      ((fresh_system sample_engine)\<lparr>sys_db := sys_db sample_reading, sys_readers := sample_reader # sys_readers (fresh_system sample_engine)\<rparr>)"
    by (intro step_begin_ro) (simp add: fresh_system_def)
  then show ?thesis by (simp add: fresh_system_def sample_reading_def)
qed

lemma sample_reading_inv: "sys_inv sample_externals sample_reading"
  using sys_inv_step [OF sample_reading_step fresh_inv [OF sample_fresh]] .

lemma sample_intact: "intact sample_externals sample_reading sample_reader {1} (ALeaf (replicate 64 0) sample_account None)"
proof -
  define w where "w = world_of sample_engine (tx_context sample_reader)"
  have h: "holds sample_externals sample_world {1} 1 0 (ALeaf (replicate 64 0) sample_account None)"
    and g: "pm_get (se_pages sample_world) 1 = Ok 1"
    using sample_reads by (auto simp: reads_def sample_world_def)
  have "holds sample_externals w {1} 1 0 (ALeaf (replicate 64 0) sample_account None)"
    by (rule holds_frame [OF h]) (simp_all add: w_def page_at_def)
  then have "reads sample_externals w {1} (ALeaf (replicate 64 0) sample_account None)"
    using g by (simp add: reads_def w_def sample_reader_def transaction_new_def read_context_def context_new_def
        root_node_page_id_def sample_slot_def update_hash_def page_id_new_def page_id_is_valid_def
        PAGE_ID_MIN_def PAGE_ID_MAX_def)
  then show ?thesis
    by (simp add: intact_def sample_reading_def w_def sample_world_def page_at_def page_state_of_u64_def DIRTY_MASK_def)
qed

subsection \<open>Properties\<close>

text \<open>
  C2. The transaction manager and the reclamation threshold. Starting from a freshly opened database,
  after any sequence of calls of any number of clients, failed ones and panics included: the manager lists
  exactly the open transactions, there is a writer if and only if it says so, and no open reader is older
  than the threshold below which orphaned pages are reused.
\<close>

theorem threshold_never_overtakes_readers:
  assumes "fresh_ok E st" and "(sys_step E)\<^sup>*\<^sup>* (fresh_system st) s"
  shows "(\<forall>tx \<in> set (sys_readers s). se_alive (sys_engine s) \<le> tx_snapshot tx \<and> tx_snapshot tx \<le> active_snapshot (sys_engine s)) \<and>
    (tm_has_writer (sys_tm s) \<longleftrightarrow> sys_writer s \<noteq> NoWriter) \<and>
    mset (tm_open_txs (sys_tm s)) = mset (map tx_snapshot (sys_readers s)) + mset (writer_entry (sys_writer s))"
  using sys_inv_reachable [OF assms(2) fresh_inv [OF assms(1)]] by (simp add: sys_inv_def)

theorem threshold_never_overtakes_readers_witness:
  "se_alive (sys_engine sample_reading) \<le> tx_snapshot sample_reader"
  using threshold_never_overtakes_readers [OF sample_fresh r_into_rtranclp [of "sys_step sample_externals", OF sample_reading_step]]
  by (simp add: sample_reading_def)

text \<open>
  C1. A reader sees one snapshot. Whatever the other clients do while it is open, writers that apply,
  publish, fail or are lost, and readers that come and go, every account and every storage slot it asks
  for is the one of the trie that it started on.
\<close>

theorem open_reader_reads_its_snapshot:
  assumes "follows E tx0 s0 tx s" and "sys_inv E s0" and "intact E s0 tx0 S t" and "address_ok a" and "storage_ok p"
  shows "fst (tx_get_account E a tx (sys_db s)) = Ok (case trie_lookup t (ap_path a) of Some (TAccount acc) \<Rightarrow> Some acc | _ \<Rightarrow> None) \<and>
    fst (tx_get_storage_slot E p tx (sys_db s)) =
      Ok (case trie_lookup t (ap_path (sp_address p) @ sp_slot p) of Some (TStorage v) \<Rightarrow> Some v | _ \<Rightarrow> None)"
proof -
  have r: "reads E (world_of (sys_engine s) (tx_context tx)) S t"
    by (rule intact_reads) (rule follows_intact [OF assms(1-3)])
  show ?thesis using reader_get_account [OF r assms(4)] reader_get_storage [OF r assms(5)] by auto
qed

theorem open_reader_reads_its_snapshot_witness:
  "\<exists>s. follows sample_externals sample_reader sample_reading sample_reader s \<and>
     fst (tx_get_account sample_externals \<lparr>ap_path = replicate 64 0\<rparr> sample_reader (sys_db s)) = Ok (Some sample_account)"
proof -
  obtain db where b: "begin_rw (sys_db sample_reading) = (Ok (transaction_new (write_context sample_engine)), db)"
    using begin_rw_alive(1) [OF sample_reading_inv] by (simp add: sample_reading_def) (metis prod.collapse)
  define s where "s = sample_reading\<lparr>sys_db := db, sys_writer := Open (transaction_new (write_context sample_engine))\<rparr>"
  have "sys_step sample_externals sample_reading s"
    unfolding s_def by (rule step_begin_rw [OF b])
      (simp add: tx_snapshot_def transaction_new_def write_context_def context_new_def)
  then have f: "follows sample_externals sample_reader sample_reading sample_reader s"
    by (intro follows_other [OF follows_start]) (simp_all add: sample_reading_def s_def)
  have "address_ok \<lparr>ap_path = replicate 64 0\<rparr>" "storage_ok \<lparr>sp_address = \<lparr>ap_path = replicate 64 0\<rparr>, sp_slot = replicate 64 5\<rparr>"
    by (simp_all add: storage_ok_def address_ok_def)
  moreover have "strip_prefix (replicate 64 0) (replicate 64 (0 :: byte)) = Some []" by (simp add: strip_prefix_Some)
  ultimately show ?thesis
    using open_reader_reads_its_snapshot [OF f sample_reading_inv sample_intact] f by auto
qed

text \<open>
  C19. Pages do become free again. Whenever no writer is open, the next \<open>begin_rw\<close> succeeds; and if some
  orphaned page is not visible to any open reader, the list hands one out to the new writer.
\<close>

theorem orphans_are_reclaimed:
  assumes "sys_inv E s" and "sys_writer s = NoWriter" and "begin_rw (sys_db s) = (r, db)"
  shows "(\<exists>tx. r = Ok tx) \<and>
    ((\<exists>o1 \<in> set (current_orphans (sys_meta s)). \<forall>tx \<in> set (sys_readers s). op_orphaned_at o1 \<le> tx_snapshot tx) \<longrightarrow>
     (\<exists>y mm. orphans_pop (se_alive (db_engine db)) (se_meta (db_engine db)) = (Ok (Some y), mm)))"
proof (intro conjI impI)
  note b = begin_rw_alive [OF assms]
  show "\<exists>tx. r = Ok tx" using b(1) by blast
  have ok: "mm_inv E (sys_meta s)" "stamps_ok (sys_meta s) (active_snapshot (sys_engine s))"
    using assms(1,2) by (simp_all add: sys_inv_def writer_ok_def Let_def)
  assume "\<exists>o1 \<in> set (current_orphans (sys_meta s)). \<forall>tx \<in> set (sys_readers s). op_orphaned_at o1 \<le> tx_snapshot tx"
  then obtain o1 where o1: "o1 \<in> set (current_orphans (sys_meta s))" "\<forall>tx \<in> set (sys_readers s). op_orphaned_at o1 \<le> tx_snapshot tx" by blast
  then obtain x xs where q: "current_orphans (sys_meta s) = x # xs" by (cases "current_orphans (sys_meta s)") auto
  have "op_orphaned_at x \<le> op_orphaned_at o1" "op_orphaned_at o1 \<le> active_snapshot (sys_engine s)"
    using ok(2) o1(1) q by (auto simp: stamps_ok_def)
  moreover have "op_orphaned_at o1 \<le> se_alive (db_engine db)" unfolding b(3) using o1(2) calculation(2) by simp
  ultimately have "op_orphaned_at x \<le> se_alive (db_engine db)" by simp
  then show "\<exists>y mm. orphans_pop (se_alive (db_engine db)) (se_meta (db_engine db)) = (Ok (Some y), mm)"
    using orphans_pop_ok [OF ok(1), of "se_alive (db_engine db)"] q b(2) by auto
qed

theorem orphans_are_reclaimed_witness: "\<exists>tx. fst (begin_rw (sys_db sample_reading)) = Ok tx"
  using orphans_are_reclaimed [OF sample_reading_inv, of "fst (begin_rw (sys_db sample_reading))" "snd (begin_rw (sys_db sample_reading))"]
  by (simp add: sample_reading_def)

text \<open>
  C22. The order in which the hash map of a transaction yields its pending changes does not matter:
  committing any permutation of them has the same outcome and leaves the same database.
\<close>

theorem commit_order_irrelevant:
  assumes "mset (tx_pending tx') = mset (tx_pending tx)" and "distinct (map fst (tx_pending tx))" and "tx_context tx' = tx_context tx"
  shows "tx_commit_rw fuel E io tx' db = tx_commit_rw fuel E io tx db"
proof -
  have "set_values fuel E io (tx_pending tx') = set_values fuel E io (tx_pending tx)"
    using set_values_perm [OF assms(1) [symmetric] assms(2)] by simp
  moreover have "tx_pending tx' = [] \<longleftrightarrow> tx_pending tx = []" using assms(1) by (metis mset_zero_iff)
  ultimately show ?thesis
    using assms(3) tx_publish_context [of "tx'\<lparr>tx_pending := []\<rparr>" "tx\<lparr>tx_pending := []\<rparr>"]
      tx_publish_context [of "tx'\<lparr>tx_pending := [], tx_context := c\<rparr>" "tx\<lparr>tx_pending := [], tx_context := c\<rparr>" for c]
    by (simp add: tx_commit_rw_def tx_apply_def Let_def run_unwrap_def split: prod.split)
qed

theorem commit_order_irrelevant_witness:
  "tx_commit_rw 9 sample_externals sample_io (sample_reader\<lparr>tx_pending := [(path_of [1], None), (path_of [2], None)]\<rparr>) (sys_db sample_reading) =
   tx_commit_rw 9 sample_externals sample_io (sample_reader\<lparr>tx_pending := [(path_of [2], None), (path_of [1], None)]\<rparr>) (sys_db sample_reading)"
proof -
  have "path_of [2] \<noteq> path_of [1]" by code_simp
  then show ?thesis by (intro commit_order_irrelevant) auto
qed


text \<open>Beginning and committing a writer, as one sequence.\<close>

lemma write_round:
  assumes "sys_inv E s" and "sys_writer s = NoWriter" and "begin_rw (sys_db s) = (Ok w1, db1)" and "\<not> bit (tx_snapshot w1) 63"
    and "bounded_io (io_meta_file io)" and "tx_commit_rw fuel E io w1 db1 = (Ok (), db2)"
  shows "sys_inv E (s\<lparr>sys_db := db2\<rparr>)" "active_snapshot (db_engine db2) = active_snapshot (sys_engine s) + 1"
proof -
  define s1 where "s1 = s\<lparr>sys_db := db1, sys_writer := Open w1\<rparr>"
  have i: "sys_inv E s1" using inv_begin_rw [OF assms(1,3,4)] by (simp add: s1_def)
  have c: "tx_commit_rw fuel E io w1 (sys_db s1) = (Ok (), db2)" using assms(6) by (simp add: s1_def)
  have "active_snapshot (db_engine db1) = active_snapshot (sys_engine s)"
    using begin_rw_alive(2) [OF assms(1,2,3)] by (simp add: active_snapshot_def)
  moreover have "s1\<lparr>sys_db := db2, sys_writer := NoWriter\<rparr> = s\<lparr>sys_db := db2\<rparr>" using assms(2) by (cases s) (simp add: s1_def)
  ultimately show "sys_inv E (s\<lparr>sys_db := db2\<rparr>)" "active_snapshot (db_engine db2) = active_snapshot (sys_engine s) + 1"
    using commit_rw_steps [OF i _ assms(5) c] by (simp_all add: s1_def)
qed

text \<open>A transaction without changes commits when the two files can be synchronised.\<close>

lemma empty_commit:
  assumes "sys_inv E s" and "sys_writer s = NoWriter" and "begin_rw (sys_db s) = (Ok w1, db1)" and "\<not> bit (tx_snapshot w1) 63"
    and "io_sync_pages io" and "io_sync_meta io"
  shows "\<exists>db2. tx_commit_rw fuel E io w1 db1 = (Ok (), db2)"
proof -
  have i: "sys_inv E (s\<lparr>sys_db := db1, sys_writer := Open w1\<rparr>)" by (rule inv_begin_rw [OF assms(1,3,4)])
  then have mem: "mm_inv E (se_meta (db_engine db1))" "tx_snapshot w1 - 1 \<in> set (tm_open_txs (db_tm db1))"
    by (auto simp: sys_inv_def writer_ok_def writer_entry_def Let_def simp flip: set_mset_mset)
  have "w1 = transaction_new (write_context (sys_engine s))" using begin_rw_alive(1) [OF assms(1-3)] by simp
  then have "tx_pending w1 = []" by (simp add: transaction_new_def)
  moreover obtain r db2 where p: "tx_publish E io w1 db1 = (r, db2)" by fastforce
  moreover have "r = Ok ()" using publish_frame [OF mem(1) assms(4) mem(2) p] assms(5,6) by simp
  moreover have "tx_publish E io (w1\<lparr>tx_pending := []\<rparr>) = tx_publish E io w1" by (rule tx_publish_context) simp
  ultimately show ?thesis by (simp add: tx_commit_rw_def tx_apply_def)
qed

text \<open>
  C20. The race of \<open>begin_ro\<close>. The context of a reader is read before the reader is registered. When a
  writer commits and another one begins in between, the reader is registered on a snapshot below the
  reclamation threshold: the pages that the first writer has replaced may be overwritten while it reads.
\<close>

theorem begin_ro_race:
  assumes "sys_inv E s" and "sys_writer s = NoWriter" and "sys_readers s = []"
    and "begin_rw (sys_db s) = (Ok w1, db1)" and "\<not> bit (tx_snapshot w1) 63"
    and "bounded_io (io_meta_file io)" and "tx_commit_rw fuel E io w1 db1 = (Ok (), db2)" and "begin_rw db2 = (Ok w2, db3)"
  shows "\<exists>tx db4. register_ro (read_context (sys_engine s)) db3 = (tx, db4) \<and> tx_snapshot tx \<in> set (tm_open_txs (db_tm db4)) \<and>
    tx_snapshot tx < se_alive (db_engine db4)"
proof -
  note wr = write_round [OF assms(1,2,4-7)]
  have b: "begin_rw (sys_db (s\<lparr>sys_db := db2\<rparr>)) = (Ok w2, db3)" using assms(8) by simp
  have al: "se_alive (db_engine db3) = active_snapshot (sys_engine s) + 1"
    using begin_rw_alive(3) [OF wr(1) _ b] assms(2,3) wr(2) by simp
  obtain tx db4 where r: "register_ro (read_context (sys_engine s)) db3 = (tx, db4)" by fastforce
  then have tx: "tx_snapshot tx = active_snapshot (sys_engine s)" "db_engine db4 = db_engine db3"
    "tx_snapshot tx \<in> set (tm_open_txs (db_tm db4))"
    by (auto simp: register_ro_def tx_snapshot_def transaction_new_def read_context_def context_new_def active_snapshot_def tm_begin_ro_def)
  have "\<not> bit (active_snapshot (sys_engine s)) 63" using assms(1) by (simp add: sys_inv_def)
  then have "tx_snapshot tx < se_alive (db_engine db4)" using next_snapshot(1) tx al by simp
  then show ?thesis using r tx by blast
qed

text \<open>
  C21. The race of \<open>begin_rw\<close>. The context of a writer is read before the writer is registered, too. When
  another writer begins and commits in between, the late one is accepted with the snapshot that has just
  been committed: none of the pages of that snapshot is protected from it any more.
\<close>

theorem begin_rw_race:
  assumes "sys_inv E s" and "sys_writer s = NoWriter" and "begin_rw (sys_db s) = (Ok w1, db1)" and "\<not> bit (tx_snapshot w1) 63"
    and "bounded_io (io_meta_file io)" and "tx_commit_rw fuel E io w1 db1 = (Ok (), db2)"
  shows "\<exists>tx db3. register_rw (write_context (sys_engine s)) db2 = (Ok tx, db3) \<and>
    tx_snapshot tx = active_snapshot (db_engine db3) \<and>
    (\<forall>p. state_of (page_at p (db_engine db3)) = Occupied (active_snapshot (db_engine db3)) \<longrightarrow>
       \<not> shielded (world_of (db_engine db3) (tx_context tx)) p)"
proof -
  note wr = write_round [OF assms]
  have nw: "\<not> tm_has_writer (db_tm db2)" using wr(1) assms(2) by (simp add: sys_inv_def)
  have cx: "cx_snapshot_id (write_context (sys_engine s)) = active_snapshot (sys_engine s) + 1"
    using assms(1,2) by (simp add: sys_inv_def writer_ok_def Let_def write_context_def context_new_def)
  obtain r db3 where reg: "register_rw (write_context (sys_engine s)) db2 = (r, db3)" by fastforce
  then have "r = Ok (transaction_new (write_context (sys_engine s)))" "se_meta (db_engine db3) = se_meta (db_engine db2)"
    unfolding register_rw_def tm_begin_rw_ok [OF nw] by (auto simp: Let_def unlock_def)
  then show ?thesis
    using reg cx wr(2)
    by (auto simp: tx_snapshot_def transaction_new_def active_snapshot_def shielded_def page_at_def)
qed

lemma sample_fresh_inv: "sys_inv sample_externals (fresh_system sample_engine)" "sys_writer (fresh_system sample_engine) = NoWriter"
  "sys_readers (fresh_system sample_engine) = []" "sys_engine (fresh_system sample_engine) = sample_engine"
  using fresh_inv [OF sample_fresh] by (simp_all add: fresh_system_def database_new_def)

lemma sample_round:
  "\<exists>w1 db1 db2. begin_rw (sys_db (fresh_system sample_engine)) = (Ok w1, db1) \<and> \<not> bit (tx_snapshot w1) 63 \<and>
     tx_commit_rw 0 sample_externals sample_io w1 db1 = (Ok (), db2)"
proof -
  obtain r db1 where b: "begin_rw (sys_db (fresh_system sample_engine)) = (r, db1)" by fastforce
  note r = begin_rw_alive(1) [OF sample_fresh_inv(1,2) b]
  define w1 where "w1 = transaction_new (write_context sample_engine)"
  have bit: "\<not> bit (tx_snapshot w1) 63" by (simp add: w1_def tx_snapshot_def transaction_new_def write_context_def context_new_def)
  have b1: "begin_rw (sys_db (fresh_system sample_engine)) = (Ok w1, db1)" using b r sample_fresh_inv(4) by (simp add: w1_def)
  from empty_commit [OF sample_fresh_inv(1,2) b1 bit, of sample_io 0] show ?thesis
    using b1 bit by (auto simp: sample_io_def)
qed

lemma sample_io_bounded: "bounded_io (io_meta_file sample_io)"
  by (simp add: sample_io_def bounded_io_def)

theorem begin_ro_race_witness:
  "\<exists>tx db. register_ro (read_context sample_engine) db = (tx, snd (register_ro (read_context sample_engine) db)) \<and>
     tx_snapshot tx < se_alive (db_engine (snd (register_ro (read_context sample_engine) db)))"
proof -
  obtain w1 db1 db2 where r: "begin_rw (sys_db (fresh_system sample_engine)) = (Ok w1, db1)" "\<not> bit (tx_snapshot w1) 63"
    "tx_commit_rw 0 sample_externals sample_io w1 db1 = (Ok (), db2)" using sample_round by blast
  note wr = write_round [OF sample_fresh_inv(1,2) r(1,2) sample_io_bounded r(3)]
  obtain x db3 where "begin_rw db2 = (x, db3)" by fastforce
  then have "begin_rw db2 = (Ok (transaction_new (write_context (db_engine db2))), db3)"
    using begin_rw_alive(1) [OF wr(1), of x db3] sample_fresh_inv(2) by simp
  from begin_ro_race [OF sample_fresh_inv(1-3) r(1,2) sample_io_bounded r(3) this] show ?thesis
    unfolding sample_fresh_inv(4) by (metis snd_conv)
qed

theorem begin_rw_race_witness:
  "\<exists>tx db db3. register_rw (write_context sample_engine) db = (Ok tx, db3) \<and> tx_snapshot tx = active_snapshot (db_engine db3)"
proof -
  obtain w1 db1 db2 where r: "begin_rw (sys_db (fresh_system sample_engine)) = (Ok w1, db1)" "\<not> bit (tx_snapshot w1) 63"
    "tx_commit_rw 0 sample_externals sample_io w1 db1 = (Ok (), db2)" using sample_round by blast
  from begin_rw_race [OF sample_fresh_inv(1,2) r(1,2) sample_io_bounded r(3)] show ?thesis
    unfolding sample_fresh_inv(4) by blast
qed


text \<open>
  C23. Opening with \<open>wipe\<close>, in every case. The metadata is read first: when this fails, because both
  slots are corrupted, say, opening fails with the same error and nothing is erased. Otherwise, whatever
  the two files contained, the result is an empty database (no page, the state root all zeros, no open
  transaction, metadata in order), or an error because one of the two files could not be truncated or mapped.
\<close>

theorem open_wiped_empty:
  assumes "do_wipe opts" and "open_with_options E io opts (sa, sb, xs) page_file = res"
  shows "case mm_from_file E sa sb xs of
      Err e \<Rightarrow> res = Err (OpenMeta e)
    | Panic \<Rightarrow> res = Panic
    | Diverge \<Rightarrow> res = Diverge
    | Ok _ \<Rightarrow>
        if \<not> io_meta_file io SIZE_MIN then res = Err (OpenMeta MetaIO)
        else if \<not> io_page_file io (unat (case do_max_pages opts of None \<Rightarrow> MAX_COUNT | Some n \<Rightarrow> n) * PAGE_SIZE) then res = Err (OpenPage IO)
        else \<exists>db. res = Ok db \<and> fresh_ok E (db_engine db) \<and> db_tm db = tm_new \<and> db_size db = 0 \<and> db_state_root db = replicate 32 0"
proof (cases "mm_from_file E sa sb xs")
  case (Ok mm0)
  have act: "mm_active mm0 \<le> 1" using from_file_active [OF Ok] .
  define m1 where "m1 = mm0\<lparr>mm_slot0 := zero_slot, mm_slot1 := zero_slot, mm_list := replicate ((SIZE_MIN - 128) div 16) zero_orphan\<rparr>"
  define mm where "mm = set_dirty_slot (zero_slot\<lparr>hs_meta := (hs_meta zero_slot)\<lparr>ms_snapshot_id := 1\<rparr>\<rparr>) m1"
  have a1: "active_slot m1 = zero_slot" by (simp add: m1_def active_slot_def)
  have "populate_dirty_slot m1 = (Ok (), mm)"
    using populate_dirty_slot_eq [of m1] by (simp add: a1 mm_def zero_slot_def)
  then have wipe: "mm_wipe (io_meta_file io) mm0 = (if io_meta_file io SIZE_MIN then (Ok (), mm) else (Err MetaIO, mm0))"
    by (simp add: mm_wipe_def m1_def)
  have slots: "active_slot mm = zero_slot" "hs_meta (dirty_slot mm) = (hs_meta zero_slot)\<lparr>ms_snapshot_id := 1\<rparr>"
    "mm_list mm = replicate 248 zero_orphan" "mm_active mm \<le> 1"
    using a1 act by (simp_all add: mm_def) (simp_all add: m1_def SIZE_MIN_def)
  have inv: "mm_inv E mm" "stamps_ok mm 0"
    using slots zero_slot_empty
    by (simp_all add: mm_inv_def range_ok_def verify_integrity_def zero_slot_def stamps_ok_def current_orphans_def queue_of_def subl_def)
  define len where "len = unat (case do_max_pages opts of None \<Rightarrow> MAX_COUNT | Some n \<Rightarrow> n) * PAGE_SIZE"
  have bad: "res = (if \<not> io_meta_file io SIZE_MIN then Err (OpenMeta MetaIO) else Err (OpenPage IO))"
    if "\<not> io_meta_file io SIZE_MIN \<or> \<not> io_page_file io len"
    using that assms(1) Ok wipe slots(1)
    by (auto simp: assms(2) [symmetric] len_def open_with_options_def wipe_if_def Let_def from_file_with_options_def zero_slot_def options_new_def split: option.splits)
  have good: "\<exists>pm. res = Ok (database_new (engine_new pm mm)) \<and> pm_page_count pm = 0" if "io_meta_file io SIZE_MIN" "io_page_file io len"
    using that assms(1) Ok wipe slots(1)
    by (auto simp: assms(2) [symmetric] len_def open_with_options_def wipe_if_def Let_def from_file_with_options_def zero_slot_def options_new_def split: option.splits)
  have "fresh_ok E (engine_new pm mm)" for pm
    using inv slots by (simp add: fresh_ok_def engine_new_def active_snapshot_def zero_slot_def)
  then have "\<exists>db. res = Ok db \<and> fresh_ok E (db_engine db) \<and> db_tm db = tm_new \<and> db_size db = 0 \<and> db_state_root db = replicate 32 0"
    if "io_meta_file io SIZE_MIN" "io_page_file io len"
    using good [OF that] slots(1)
    by (auto simp: database_new_def db_size_def engine_size_def pm_size_def db_state_root_def read_context_def context_new_def engine_new_def zero_slot_def)
  then show ?thesis using Ok bad unfolding len_def by simp
qed (simp_all add: assms(2) [symmetric] open_with_options_def)

theorem open_wiped_empty_witness:
  "\<exists>db. open_with_options sample_externals (sample_io\<lparr>io_meta_file := (\<lambda>n. n \<le> 4096)\<rparr>) \<lparr>do_wipe = True, do_max_pages = Some 10\<rparr>
      (zero_slot, zero_slot, []) (\<lambda>_. \<lparr>pg_state = 7, pg_data = []\<rparr>, 40960) = Ok db \<and> db_size db = 0"
proof -
  have z: "slot_is_empty zero_slot" by (rule zero_slot_empty)
  have "\<exists>mm. mm_from_file sample_externals zero_slot zero_slot [] = Ok mm"
    using populate_dirty_slot_eq [of "\<lparr>mm_slot0 = zero_slot, mm_slot1 = zero_slot, mm_list = [], mm_active = 0\<rparr>"]
    by (simp add: mm_from_file_def latest_slot_index_def z active_slot_def) (simp add: zero_slot_def)
  then obtain mm where m: "mm_from_file sample_externals zero_slot zero_slot [] = Ok mm" by blast
  show ?thesis
    using open_wiped_empty [OF _ refl, where opts = "\<lparr>do_wipe = True, do_max_pages = Some 10\<rparr>" and E = sample_externals and sa = zero_slot and sb = zero_slot and xs = "[]"
      and io = "sample_io\<lparr>io_meta_file := (\<lambda>n. n \<le> 4096)\<rparr>" and page_file = "(\<lambda>_. \<lparr>pg_state = 7, pg_data = []\<rparr>, 40960)"]
    by (auto simp: m sample_io_def SIZE_MIN_def)
qed

end
