(* ===== verification/Overlay.thy ===== *)
theory Overlay
  imports Node
begin

text \<open>
  Overlays (\<open>src/src/overlay.rs\<close>): a list of changes that is collected unsorted and then frozen into a
  sorted array, of which an \<open>OverlayState\<close> is a window with an offset into the paths. The searches of
  the standard library that it uses are modelled with their probes, in the order of the library.

  \<open>entries\<close> is what a window stands for, the list of its paths behind the offset with their values. A
  frozen overlay is the map of the last values inserted, and the slices by a prefix cut the entries into
  those before, under and after the prefix.
\<close>

subsection \<open>Searching sorted slices\<close>

datatype ordering = Less | Equal | Greater

definition compare :: "'a :: linorder \<Rightarrow> 'a \<Rightarrow> ordering" where
  "compare x y = (if x < y then Less else if x = y then Equal else Greater)"

fun search_loop :: "('a \<Rightarrow> (ordering, 'e) result) \<Rightarrow> 'a list \<Rightarrow> nat \<Rightarrow> nat \<Rightarrow> (nat, 'e) result" where
  "search_loop f xs base n =
     (if 1 < n then
        let half = n div 2; mid = base + half in
        bind_result (f (xs ! mid)) (\<lambda>cmp. search_loop f xs (if cmp = Greater then base else mid) (n - half))
      else Ok base)"

declare search_loop.simps [simp del]

text \<open>The result of \<open>binary_search_by\<close>: the position of a match or the place where one could be inserted.\<close>

datatype search_result = Found nat | Missing nat

definition binary_search_by :: "('a \<Rightarrow> (ordering, 'e) result) \<Rightarrow> 'a list \<Rightarrow> (search_result, 'e) result" where
  "binary_search_by f xs =
     (if xs = [] then Ok (Missing 0)
      else bind_result (search_loop f xs 0 (length xs)) (\<lambda>base.
        bind_result (f (xs ! base)) (\<lambda>cmp.
          Ok (if cmp = Equal then Found base else Missing (base + (if cmp = Less then 1 else 0))))))"

definition unwrap_position :: "search_result \<Rightarrow> nat" where
  "unwrap_position r = (case r of Found i \<Rightarrow> i | Missing i \<Rightarrow> i)"

definition partition_point :: "('a \<Rightarrow> (bool, 'e) result) \<Rightarrow> 'a list \<Rightarrow> (nat, 'e) result" where
  "partition_point P xs =
     bind_result (binary_search_by (\<lambda>x. bind_result (P x) (\<lambda>b. Ok (if b then Less else Greater))) xs) (\<lambda>r. Ok (unwrap_position r))"

subsection \<open>Overlays\<close>

datatype overlay_value = OAccount account | OStorage u256 | OHash bytes

definition trie_value_of_overlay :: "overlay_value \<Rightarrow> (trie_value, unit) result" where
  "trie_value_of_overlay v =
     (case v of OAccount a \<Rightarrow> Ok (TAccount a) | OStorage x \<Rightarrow> Ok (TStorage x) | OHash _ \<Rightarrow> Err ())"

type_synonym overlay_change = "raw_path \<times> overlay_value option"

record overlay_state_mut =
  om_changes :: "overlay_change list"

record overlay_state =
  ov_data :: "overlay_change list"
  ov_start :: nat
  ov_end :: nat
  ov_offset :: nat

definition overlay_mut_new :: overlay_state_mut where
  "overlay_mut_new = \<lparr>om_changes = []\<rparr>"

definition overlay_insert :: "raw_path \<Rightarrow> overlay_value option \<Rightarrow> overlay_state_mut \<Rightarrow> overlay_state_mut" where
  "overlay_insert path value om =
     (if value = Some (OStorage 0) then om\<lparr>om_changes := om_changes om @ [(path, None)]\<rparr>
      else om\<lparr>om_changes := om_changes om @ [(path, value)]\<rparr>)"

definition overlay_mut_len :: "overlay_state_mut \<Rightarrow> nat" where
  "overlay_mut_len om = length (om_changes om)"

definition overlay_mut_is_empty :: "overlay_state_mut \<Rightarrow> bool" where
  "overlay_mut_is_empty om \<longleftrightarrow> om_changes om = []"

fun dedup_loop :: "overlay_change list \<Rightarrow> raw_path option \<Rightarrow> overlay_change list \<Rightarrow> overlay_change list" where
  "dedup_loop deduped last_path [] = deduped"
| "dedup_loop deduped last_path ((path, value) # xs) =
     (if last_path \<noteq> Some path then dedup_loop (deduped @ [(path, value)]) (Some path) xs
      else dedup_loop (if deduped = [] then [] else butlast deduped @ [(fst (last deduped), value)]) last_path xs)"

definition overlay_empty :: overlay_state where
  "overlay_empty = \<lparr>ov_data = [], ov_start = 0, ov_end = 0, ov_offset = 0\<rparr>"

definition freeze :: "overlay_state_mut \<Rightarrow> overlay_state" where
  "freeze om =
     (if om_changes om = [] then \<lparr>ov_data = [], ov_start = 0, ov_end = 0, ov_offset = 0\<rparr>
      else let data = dedup_loop [] None (sort_key fst (om_changes om)) in
        \<lparr>ov_data = data, ov_start = 0, ov_end = length data, ov_offset = 0\<rparr>)"

definition effective_slice :: "overlay_state \<Rightarrow> (overlay_change list, 'e) result" where
  "effective_slice ov = unwrap_option (slice_range (ov_data ov) (ov_start ov) (ov_end ov))"

definition overlay_len :: "overlay_state \<Rightarrow> nat" where
  "overlay_len ov = usize_sub (ov_end ov) (ov_start ov)"

definition overlay_is_empty :: "overlay_state \<Rightarrow> bool" where
  "overlay_is_empty ov \<longleftrightarrow> ov_end ov \<le> ov_start ov"

definition overlay_get :: "nat \<Rightarrow> overlay_state \<Rightarrow> ((raw_path \<times> overlay_value option) option, 'e) result" where
  "overlay_get index ov =
     bind_result (effective_slice ov) (\<lambda>xs.
       if index < length xs
       then bind_result (raw_path_slice_from (fst (xs ! index)) (ov_offset ov)) (\<lambda>p. Ok (Some (p, snd (xs ! index))))
       else Ok None)"

definition overlay_first :: "overlay_state \<Rightarrow> ((raw_path \<times> overlay_value option) option, 'e) result" where
  "overlay_first ov =
     (if overlay_is_empty ov then Ok None
      else if ov_start ov < length (ov_data ov) then
        (case ov_data ov ! ov_start ov of (path, value) \<Rightarrow>
           bind_result (raw_path_slice_from path (ov_offset ov)) (\<lambda>p. Ok (Some (p, value))))
      else Panic)"

definition compare_with_offset :: "overlay_state \<Rightarrow> raw_path \<Rightarrow> raw_path \<Rightarrow> (ordering, 'e) result" where
  "compare_with_offset ov stored_path target_path =
     (if rp_len stored_path < ov_offset ov then Ok Less
      else bind_result (raw_path_slice_from stored_path (ov_offset ov)) (\<lambda>adjusted. Ok (compare adjusted target_path)))"

definition overlay_lookup :: "overlay_state \<Rightarrow> raw_path \<Rightarrow> (overlay_value option option, 'e) result" where
  "overlay_lookup ov path =
     bind_result (effective_slice ov) (\<lambda>xs.
     bind_result (binary_search_by (\<lambda>(p, _). compare_with_offset ov p path) xs) (\<lambda>r.
       Ok (case r of Found index \<Rightarrow> Some (snd (xs ! index)) | Missing _ \<Rightarrow> None)))"

definition with_prefix_offset :: "nat \<Rightarrow> overlay_state \<Rightarrow> (overlay_state, 'e) result" where
  "with_prefix_offset offset ov =
     (let total_offset = ov_offset ov + offset in
      bind_result
        (if 1 < overlay_len ov then
           bind_result (effective_slice ov) (\<lambda>xs.
             if rp_len (fst (xs ! 0)) < total_offset \<or> rp_len (fst (xs ! (length xs - 1))) < total_offset then Panic
             else
               bind_result (raw_path_slice (fst (xs ! 0)) 0 total_offset) (\<lambda>first_prefix.
               bind_result (raw_path_slice (fst (xs ! (length xs - 1))) 0 total_offset) (\<lambda>last_prefix.
                 if first_prefix \<noteq> last_prefix then Panic else Ok ())))
         else Ok ())
        (\<lambda>_. Ok (ov\<lparr>ov_offset := total_offset\<rparr>)))"

definition find_start_index_with_prefix :: "overlay_state \<Rightarrow> overlay_change list \<Rightarrow> raw_path \<Rightarrow> (nat, 'e) result" where
  "find_start_index_with_prefix ov xs pre =
     bind_result (binary_search_by (\<lambda>(p, _). compare_with_offset ov p pre) xs) (\<lambda>r. Ok (unwrap_position r))"

definition find_end_index_with_prefix :: "overlay_state \<Rightarrow> overlay_change list \<Rightarrow> raw_path \<Rightarrow> (nat, 'e) result" where
  "find_end_index_with_prefix ov xs pre =
     partition_point (\<lambda>(stored_path, _).
       if rp_len stored_path < ov_offset ov then Ok True
       else
         bind_result (raw_path_slice_from stored_path (ov_offset ov)) (\<lambda>adjusted.
         bind_result (raw_path_slice adjusted 0 (min (rp_len adjusted) (rp_len pre))) (\<lambda>cut. Ok (cut \<le> pre)))) xs"

definition sub_slice :: "nat \<Rightarrow> nat \<Rightarrow> overlay_state \<Rightarrow> overlay_state" where
  "sub_slice start end1 ov =
     (let current_len = overlay_len ov; end1 = min end1 current_len; start = min start end1 in
      ov\<lparr>ov_start := ov_start ov + start, ov_end := ov_start ov + end1\<rparr>)"

definition sub_slice_by_prefix ::
  "raw_path \<Rightarrow> overlay_state \<Rightarrow> (overlay_state \<times> overlay_state \<times> overlay_state, 'e) result" where
  "sub_slice_by_prefix pre ov =
     bind_result (effective_slice ov) (\<lambda>xs.
     bind_result (find_start_index_with_prefix ov xs pre) (\<lambda>start_index.
     bind_result (find_end_index_with_prefix ov xs pre) (\<lambda>end_index.
       Ok (sub_slice 0 start_index ov, sub_slice start_index end_index ov, sub_slice end_index (length xs) ov))))"

definition sub_slice_for_prefix :: "raw_path \<Rightarrow> overlay_state \<Rightarrow> (overlay_state, 'e) result" where
  "sub_slice_for_prefix pre ov =
     (if overlay_is_empty ov then Ok overlay_empty
      else
        bind_result (effective_slice ov) (\<lambda>xs.
        bind_result (find_start_index_with_prefix ov xs pre) (\<lambda>start_index.
        bind_result (find_end_index_with_prefix ov xs pre) (\<lambda>end_index.
          Ok (sub_slice start_index end_index ov)))))"

text \<open>\<open>iter\<close> collected into a list.\<close>

fun iter_loop :: "nat \<Rightarrow> overlay_change list \<Rightarrow> ((raw_path \<times> overlay_value option) list, 'e) result" where
  "iter_loop off [] = Ok []"
| "iter_loop off ((path, value) # xs) =
     (if off < rp_len path
      then bind_result (raw_path_slice_from path off) (\<lambda>p. bind_result (iter_loop off xs) (\<lambda>ys. Ok ((p, value) # ys)))
      else iter_loop off xs)"

definition overlay_iter :: "overlay_state \<Rightarrow> ((raw_path \<times> overlay_value option) list, 'e) result" where
  "overlay_iter ov = bind_result (effective_slice ov) (iter_loop (ov_offset ov))"

definition contains_prefix_of :: "raw_path \<Rightarrow> overlay_state \<Rightarrow> (bool, 'e) result" where
  "contains_prefix_of path ov =
     bind_result (overlay_iter ov) (\<lambda>ys. Ok (list_ex (\<lambda>(overlay_path, _). raw_path_starts_with path overlay_path) ys))"

subsection \<open>The searches\<close>

primrec rank :: "ordering \<Rightarrow> nat" where
  "rank Less = 0" | "rank Equal = 1" | "rank Greater = 2"

text \<open>The outcomes \<open>c j\<close> of the comparison never decrease along the slice.\<close>

definition ordered_by :: "nat \<Rightarrow> (nat \<Rightarrow> ordering) \<Rightarrow> bool" where
  "ordered_by n c \<longleftrightarrow> (\<forall>j k. j \<le> k \<and> k < n \<longrightarrow> rank (c j) \<le> rank (c k))"

lemma ordered_byD: "ordered_by n c \<Longrightarrow> j \<le> k \<Longrightarrow> k < n \<Longrightarrow> rank (c j) \<le> rank (c k)"
  by (simp add: ordered_by_def)

lemma rank_simps [simp]: "2 \<le> rank x \<longleftrightarrow> x = Greater" "rank x \<le> 0 \<longleftrightarrow> x = Less" "rank x = 0 \<longleftrightarrow> x = Less" "rank x = 2 \<longleftrightarrow> x = Greater"
  by (cases x; simp)+

lemma search_loop_spec:
  assumes f: "\<And>j. j < length xs \<Longrightarrow> f (xs ! j) = Ok (c j)" and mono: "ordered_by (length xs) c"
    and "1 \<le> n" and "base + n \<le> length xs" and "base = 0 \<or> c base \<noteq> Greater" and "\<forall>j. base + n \<le> j \<and> j < length xs \<longrightarrow> c j = Greater"
  shows "\<exists>b. search_loop f xs base n = Ok b \<and> b < length xs \<and> (b = 0 \<or> c b \<noteq> Greater) \<and>
    (\<forall>j. b < j \<and> j < length xs \<longrightarrow> c j = Greater)"
  using assms(3-)
proof (induction n arbitrary: base rule: less_induct)
  case (less n)
  show ?case
  proof (cases "1 < n")
    case False
    then have "n = 1" using less.prems(1) by simp
    then show ?thesis using less.prems by (auto simp: search_loop.simps)
  next
    case True
    define mid where "mid = base + n div 2"
    define base' where "base' = (if c mid = Greater then base else mid)"
    have mid: "mid < length xs" using True less.prems(2) by (simp add: mid_def)
    have n': "n - n div 2 < n" "1 \<le> n - n div 2" "base' + (n - n div 2) \<le> length xs" using True less.prems(2) by (auto simp: base'_def mid_def)
    have gr: "c j = Greater" if "base' + (n - n div 2) \<le> j" "j < length xs" for j
    proof (cases "c mid = Greater")
      case True
      then have "mid \<le> j" using that(1) by (simp add: base'_def mid_def)
      then show ?thesis using ordered_byD [OF mono, of mid j] that(2) True by simp
    next
      case False
      then have "base + n \<le> j" using that(1) by (simp add: base'_def mid_def)
      then show ?thesis using less.prems(4) that(2) by blast
    qed
    have "base' = 0 \<or> c base' \<noteq> Greater" using less.prems(3) by (auto simp: base'_def)
    from less.IH [OF n'(1,2,3) this] gr obtain b where
      "search_loop f xs base' (n - n div 2) = Ok b" "b < length xs" "b = 0 \<or> c b \<noteq> Greater"
      "\<forall>j. b < j \<and> j < length xs \<longrightarrow> c j = Greater" by blast
    moreover have "search_loop f xs base n = search_loop f xs base' (n - n div 2)"
      using True f [OF mid] by (subst search_loop.simps) (simp add: Let_def mid_def [symmetric] base'_def)
    ultimately show ?thesis by auto
  qed
qed

lemma binary_search_by_spec:
  assumes f: "\<And>j. j < length xs \<Longrightarrow> f (xs ! j) = Ok (c j)" and mono: "ordered_by (length xs) c"
  shows "\<exists>r. binary_search_by f xs = Ok r \<and>
    (case r of Found i \<Rightarrow> i < length xs \<and> c i = Equal \<and> (\<forall>j. i < j \<and> j < length xs \<longrightarrow> c j = Greater)
     | Missing i \<Rightarrow> i \<le> length xs \<and> (\<forall>j < i. c j = Less) \<and> (\<forall>j. i \<le> j \<and> j < length xs \<longrightarrow> c j = Greater))"
proof (cases "xs = []")
  case True
  then show ?thesis by (simp add: binary_search_by_def)
next
  case False
  then have "1 \<le> length xs" by (simp add: Suc_le_eq)
  then have "\<exists>b. search_loop f xs 0 (length xs) = Ok b \<and> b < length xs \<and> (b = 0 \<or> c b \<noteq> Greater) \<and>
      (\<forall>j. b < j \<and> j < length xs \<longrightarrow> c j = Greater)"
    by (intro search_loop_spec [OF f mono]) auto
  then obtain b where b: "search_loop f xs 0 (length xs) = Ok b" "b < length xs"
    "b = 0 \<or> c b \<noteq> Greater" "\<forall>j. b < j \<and> j < length xs \<longrightarrow> c j = Greater" by blast
  have less: "c j = Less" if "c b = Less" "j \<le> b" for j using ordered_byD [OF mono that(2) b(2)] that(1) by simp
  show ?thesis
  proof (cases "c b")
    case Less
    then show ?thesis
      using False b f [OF b(2)] less by (auto simp: binary_search_by_def less_Suc_eq_le)
  next
    case Equal
    then show ?thesis using False b f [OF b(2)] by (auto simp: binary_search_by_def)
  next
    case Greater
    then have "c j = Greater" if "j < length xs" for j using b that by (cases "j = 0") auto
    then show ?thesis using False b f [OF b(2)] Greater by (auto simp: binary_search_by_def)
  qed
qed

lemma all_take: "i \<le> length xs \<Longrightarrow> (\<And>j. j < i \<Longrightarrow> P (xs ! j)) \<Longrightarrow> \<forall>x \<in> set (take i xs). P x"
  by (auto simp: in_set_conv_nth)

lemma all_drop: "i \<le> length xs \<Longrightarrow> (\<And>j. i \<le> j \<Longrightarrow> j < length xs \<Longrightarrow> P (xs ! j)) \<Longrightarrow> \<forall>x \<in> set (drop i xs). P x"
  by (auto simp: in_set_conv_nth)

lemma partition_point_spec:
  assumes "\<And>x. x \<in> set xs \<Longrightarrow> P x = Ok (Q x)" and "\<And>j k. j \<le> k \<Longrightarrow> k < length xs \<Longrightarrow> Q (xs ! k) \<Longrightarrow> Q (xs ! j)"
  shows "\<exists>i \<le> length xs. partition_point P xs = Ok i \<and> (\<forall>x \<in> set (take i xs). Q x) \<and> (\<forall>x \<in> set (drop i xs). \<not> Q x)"
proof -
  define c where "c j = (if Q (xs ! j) then Less else Greater)" for j
  have "ordered_by (length xs) c" using assms(2) by (auto simp: ordered_by_def c_def)
  moreover have "bind_result (P (xs ! j)) (\<lambda>b. Ok (if b then Less else Greater)) = Ok (c j)" if "j < length xs" for j
    using assms(1) that by (simp add: c_def)
  ultimately obtain r where r: "binary_search_by (\<lambda>x. bind_result (P x) (\<lambda>b. Ok (if b then Less else Greater))) xs = Ok r"
    "case r of Found i \<Rightarrow> i < length xs \<and> c i = Equal \<and> (\<forall>j. i < j \<and> j < length xs \<longrightarrow> c j = Greater)
     | Missing i \<Rightarrow> i \<le> length xs \<and> (\<forall>j < i. c j = Less) \<and> (\<forall>j. i \<le> j \<and> j < length xs \<longrightarrow> c j = Greater)"
    using binary_search_by_spec [of xs "\<lambda>x. bind_result (P x) (\<lambda>b. Ok (if b then Less else Greater))" c] by blast
  then obtain i where i: "r = Missing i" by (cases r) (auto simp: c_def split: if_splits)
  have i': "i \<le> length xs" "\<And>j. j < i \<Longrightarrow> Q (xs ! j)" "\<And>j. i \<le> j \<Longrightarrow> j < length xs \<Longrightarrow> \<not> Q (xs ! j)"
    using r(2) i by (auto simp: c_def split: if_splits)
  have "\<forall>x \<in> set (take i xs). Q x" "\<forall>x \<in> set (drop i xs). \<not> Q x" by (rule all_take all_drop; use i' in blast)+
  with i'(1) show ?thesis using r(1) i by (auto simp: partition_point_def unwrap_position_def)
qed

subsection \<open>Prefixes in the lexicographic order\<close>

lemma take_le_mono: "(q1 :: 'a :: linorder list) \<le> q2 \<Longrightarrow> take n q1 \<le> take n q2"
proof (induction q1 q2 arbitrary: n rule: list_induct2')
  case (4 x xs y ys)
  then show ?case by (cases n) auto
qed auto

lemma take_le_iff: "take (length p) q \<le> p \<longleftrightarrow> q < p \<or> prefix p (q :: 'a :: linorder list)"
  by (induction p q rule: list_induct2') (auto simp: less_le_not_le)

lemma prefix_not_less: "prefix p q \<Longrightarrow> \<not> q < (p :: 'a :: linorder list)"
  by (induction p q rule: list_induct2') auto

lemma append_less_cancel: "c @ r < c @ s \<longleftrightarrow> r < (s :: 'a :: linorder list)"
  by (induction c) auto

subsection \<open>What an overlay stands for\<close>

definition window :: "overlay_state \<Rightarrow> overlay_change list" where
  "window ov = subl (ov_data ov) (ov_start ov) (ov_end ov - ov_start ov)"

definition entry :: "nat \<Rightarrow> overlay_change \<Rightarrow> nibbles \<times> overlay_value option" where
  "entry off e = (drop off (raw_path_nibbles (fst e)), snd e)"

definition entries :: "overlay_state \<Rightarrow> (nibbles \<times> overlay_value option) list" where
  "entries ov = map (entry (ov_offset ov)) (window ov)"

text \<open>
  The window lies inside the data, the paths share the prefix that the offset hides, and what remains
  of them is strictly increasing.
\<close>

definition same_head :: "nat \<Rightarrow> overlay_change list \<Rightarrow> bool" where
  "same_head off xs \<longleftrightarrow> (\<exists>c. \<forall>e \<in> set xs. take off (raw_path_nibbles (fst e)) = c)"

definition ov_wf :: "overlay_state \<Rightarrow> bool" where
  "ov_wf ov \<longleftrightarrow>
     ov_start ov \<le> ov_end ov \<and> ov_end ov \<le> length (ov_data ov) \<and>
     (\<forall>e \<in> set (window ov). raw_path_wf (fst e) \<and> ov_offset ov \<le> rp_len (fst e)) \<and>
     same_head (ov_offset ov) (window ov) \<and>
     sorted_wrt (<) (map fst (entries ov))"

lemma same_head_subset: "same_head off xs \<Longrightarrow> set ys \<subseteq> set xs \<Longrightarrow> same_head off ys"
  unfolding same_head_def by blast

lemma same_head_Nil [simp]: "same_head off []"
  by (simp add: same_head_def)

lemma same_headD: "same_head off xs \<Longrightarrow> d \<in> set xs \<Longrightarrow> e \<in> set xs \<Longrightarrow>
    take off (raw_path_nibbles (fst d)) = take off (raw_path_nibbles (fst e))"
  unfolding same_head_def by auto

lemma length_window: "ov_wf ov \<Longrightarrow> length (window ov) = ov_end ov - ov_start ov"
  by (simp add: window_def ov_wf_def)

lemma effective_slice_eq: "ov_wf ov \<Longrightarrow> effective_slice ov = Ok (window ov)"
  by (simp add: effective_slice_def window_def ov_wf_def)

lemma overlay_len_eq: "ov_wf ov \<Longrightarrow> overlay_len ov = length (entries ov)"
  using length_window [of ov] by (simp add: overlay_len_def usize_sub_def ov_wf_def entries_def)

lemma overlay_is_empty_eq: "ov_wf ov \<Longrightarrow> overlay_is_empty ov \<longleftrightarrow> entries ov = []"
  using length_window [of ov] by (auto simp: overlay_is_empty_def entries_def ov_wf_def simp flip: length_0_conv)

lemma window_path:
  assumes "ov_wf ov" and "e \<in> set (window ov)"
  obtains ns where "fst e = path_of ns" "nibble_list ns" "nibble_list (drop (ov_offset ov) ns)" "ov_offset ov \<le> length ns"
    "entry (ov_offset ov) e = (drop (ov_offset ov) ns, snd e)"
proof -
  have w: "raw_path_wf (fst e)" "ov_offset ov \<le> rp_len (fst e)" using assms by (auto simp: ov_wf_def)
  obtain ns where "nibble_list ns" "fst e = path_of ns" using raw_path_wf_cases [OF w(1)] by blast
  moreover have "nibble_list (drop k ns)" if "nibble_list ns" for k
    using that by (auto simp: nibble_list_def list_all_iff dest: in_set_dropD)
  ultimately show thesis using that w(2) by (simp add: entry_def)
qed

lemma path_of_less_iff: "nibble_list ns \<Longrightarrow> nibble_list ms \<Longrightarrow> path_of ns < path_of ms \<longleftrightarrow> ns < ms"
  by (metis linorder_not_le path_of_le_iff)

lemma compare_entry:
  assumes "ov_wf ov" and "e \<in> set (window ov)" and "nibble_list t"
  shows "compare_with_offset ov (fst e) (path_of t) = Ok (compare (fst (entry (ov_offset ov) e)) t)"
  using assms(3) by (rule_tac window_path [OF assms(1,2)])
    (auto simp: compare_with_offset_def raw_path_slice_from_eq compare_def path_of_less_iff)

lemma compare_ordered:
  assumes "sorted_wrt (<) ks"
  shows "ordered_by (length ks) (\<lambda>j. compare (ks ! j) t)"
proof -
  have "ks ! j \<le> ks ! k" if "j \<le> k" "k < length ks" for j k
    using assms that by (cases "j = k") (auto simp: sorted_wrt_iff_nth_less intro: less_imp_le)
  then show ?thesis by (fastforce simp: ordered_by_def compare_def)
qed

lemma search_entries:
  assumes "ov_wf ov" and "nibble_list t"
  shows "\<exists>r. binary_search_by (\<lambda>(p, _). compare_with_offset ov p (path_of t)) (window ov) = (Ok r :: (_, 'e) result) \<and>
    (case r of Found i \<Rightarrow> i < length (entries ov) \<and> fst (entries ov ! i) = t
     | Missing i \<Rightarrow> i \<le> length (entries ov) \<and> t \<notin> fst ` set (entries ov)) \<and>
    (\<forall>e \<in> set (take (unwrap_position r) (entries ov)). fst e < t) \<and>
    (\<forall>e \<in> set (drop (unwrap_position r) (entries ov)). \<not> fst e < t)"
proof -
  define ks where "ks = map fst (entries ov)"
  have len: "length ks = length (window ov)" "length (entries ov) = length (window ov)" by (simp_all add: ks_def entries_def)
  have sorted: "sorted_wrt (<) ks" using assms(1) by (simp add: ov_wf_def ks_def)
  have "(\<lambda>(p, _). compare_with_offset ov p (path_of t)) (window ov ! j) = (Ok (compare (ks ! j) t) :: (_, 'e) result)" if "j < length (window ov)" for j
    using compare_entry [OF assms(1) nth_mem [OF that] assms(2)] that by (cases "window ov ! j") (simp add: ks_def entries_def)
  then obtain r where r: "binary_search_by (\<lambda>(p, _). compare_with_offset ov p (path_of t)) (window ov) = (Ok r :: (_, 'e) result)"
    "case r of Found i \<Rightarrow> i < length (window ov) \<and> compare (ks ! i) t = Equal \<and> (\<forall>j. i < j \<and> j < length (window ov) \<longrightarrow> compare (ks ! j) t = Greater)
     | Missing i \<Rightarrow> i \<le> length (window ov) \<and> (\<forall>j < i. compare (ks ! j) t = Less) \<and> (\<forall>j. i \<le> j \<and> j < length (window ov) \<longrightarrow> compare (ks ! j) t = Greater)"
    using binary_search_by_spec [of "window ov" "\<lambda>(p, _). (compare_with_offset ov p (path_of t) :: (_, 'e) result)" "\<lambda>j. compare (ks ! j) t"]
      compare_ordered [OF sorted, of t] len(1) by auto
  define i where "i = unwrap_position r"
  have i: "i \<le> length ks" "\<And>j. j < i \<Longrightarrow> ks ! j < t" "\<And>j. i \<le> j \<Longrightarrow> j < length ks \<Longrightarrow> \<not> ks ! j < t"
  proof -
    show "i \<le> length ks" using r(2) len by (cases r) (auto simp: i_def unwrap_position_def)
    show "ks ! j < t" if "j < i" for j
    proof (cases r)
      case (Found k)
      then have "ks ! j < ks ! k" "ks ! k = t" using sorted r(2) that len
        by (auto simp: i_def unwrap_position_def sorted_wrt_iff_nth_less compare_def split: if_splits)
      then show ?thesis by simp
    qed (use r(2) that in \<open>auto simp: i_def unwrap_position_def compare_def split: if_splits\<close>)
    show "\<not> ks ! j < t" if "i \<le> j" "j < length ks" for j
      using r(2) that len by (cases r; cases "i = j") (auto simp: i_def unwrap_position_def compare_def split: if_splits)
  qed
  have "\<forall>e \<in> set (take i (entries ov)). fst e < t" "\<forall>e \<in> set (drop i (entries ov)). \<not> fst e < t"
    using i len by (intro all_take all_drop; simp add: ks_def)+
  moreover have "case r of Found i \<Rightarrow> i < length (entries ov) \<and> fst (entries ov ! i) = t
     | Missing i \<Rightarrow> i \<le> length (entries ov) \<and> t \<notin> fst ` set (entries ov)"
  proof (cases r)
    case (Found k)
    then show ?thesis using r(2) len by (auto simp: ks_def compare_def split: if_splits)
  next
    case (Missing k)
    have "ks ! j \<noteq> t" if "j < length ks" for j
      using r(2) Missing that len by (cases "j < k") (auto simp: compare_def split: if_splits)
    then have "t \<notin> set ks" by (auto simp: in_set_conv_nth)
    then show ?thesis using r(2) Missing len by (simp add: ks_def)
  qed
  ultimately show ?thesis using r(1) by (auto simp: i_def)
qed

lemma overlay_lookup_eq:
  assumes "ov_wf ov" and "nibble_list t"
  shows "overlay_lookup ov (path_of t) = (Ok (map_of (entries ov) t) :: (_, 'e) result)"
proof -
  obtain r where r: "binary_search_by (\<lambda>(p, _). compare_with_offset ov p (path_of t)) (window ov) = (Ok r :: (_, 'e) result)"
    "case r of Found i \<Rightarrow> i < length (entries ov) \<and> fst (entries ov ! i) = t
     | Missing i \<Rightarrow> i \<le> length (entries ov) \<and> t \<notin> fst ` set (entries ov)"
    using search_entries [OF assms] by blast
  have dist: "distinct (map fst (entries ov))" using assms(1) by (simp add: ov_wf_def strict_sorted_iff)
  show ?thesis
  proof (cases r)
    case (Found i)
    then have "i < length (entries ov)" "entries ov ! i = (t, snd (window ov ! i))" using r(2) by (auto simp: entries_def entry_def)
    then have "(t, snd (window ov ! i)) \<in> set (entries ov)" by (metis nth_mem)
    then have "map_of (entries ov) t = Some (snd (window ov ! i))" using dist by simp
    then show ?thesis using r(1) Found assms(1) by (simp add: overlay_lookup_def effective_slice_eq)
  next
    case (Missing i)
    then have "map_of (entries ov) t = None" using r(2) by (simp add: map_of_eq_None_iff)
    then show ?thesis using r(1) Missing assms(1) by (simp add: overlay_lookup_def effective_slice_eq)
  qed
qed

subsection \<open>Slices\<close>

lemma window_sub_slice:
  assumes "ov_wf ov" and "i \<le> j" and "j \<le> length (window ov)"
  shows "window (sub_slice i j ov) = subl (window ov) i (j - i)" "ov_offset (sub_slice i j ov) = ov_offset ov"
    "entries (sub_slice i j ov) = subl (entries ov) i (j - i)" "ov_wf (sub_slice i j ov)"
proof -
  have w: "ov_start ov \<le> ov_end ov" "ov_end ov \<le> length (ov_data ov)" "length (window ov) = ov_end ov - ov_start ov"
    using assms(1) length_window by (auto simp: ov_wf_def)
  have s: "sub_slice i j ov = ov\<lparr>ov_start := ov_start ov + i, ov_end := ov_start ov + j\<rparr>"
    using assms(2,3) w by (simp add: sub_slice_def overlay_len_def usize_sub_def Let_def)
  show win: "window (sub_slice i j ov) = subl (window ov) i (j - i)"
    using assms(2,3) w by (simp add: s window_def subl_def drop_take min_def add.commute)
  show off: "ov_offset (sub_slice i j ov) = ov_offset ov" by (simp add: s)
  show ent: "entries (sub_slice i j ov) = subl (entries ov) i (j - i)"
    by (simp add: entries_def win off) (simp add: subl_def take_map drop_map)
  have "set (subl (window ov) i (j - i)) \<subseteq> set (window ov)" by (auto simp: subl_def dest: in_set_takeD in_set_dropD)
  moreover have "sorted_wrt (<) (map fst (subl (entries ov) i (j - i)))"
    using assms(1) by (simp add: subl_def take_map [symmetric] drop_map [symmetric] ov_wf_def sorted_wrt_take sorted_wrt_drop)
  ultimately show "ov_wf (sub_slice i j ov)"
    using assms w same_head_subset unfolding ov_wf_def win off ent by (auto simp: s)
qed

lemma find_start_eq:
  assumes "ov_wf ov" and "nibble_list p"
  shows "\<exists>i \<le> length (entries ov). find_start_index_with_prefix ov (window ov) (path_of p) = (Ok i :: (_, 'e) result) \<and>
    (\<forall>e \<in> set (take i (entries ov)). fst e < p) \<and> (\<forall>e \<in> set (drop i (entries ov)). \<not> fst e < p)"
proof -
  obtain r where r: "binary_search_by (\<lambda>(q, _). compare_with_offset ov q (path_of p)) (window ov) = (Ok r :: (_, 'e) result)"
    "case r of Found i \<Rightarrow> i < length (entries ov) \<and> fst (entries ov ! i) = p
     | Missing i \<Rightarrow> i \<le> length (entries ov) \<and> p \<notin> fst ` set (entries ov)"
    "\<forall>e \<in> set (take (unwrap_position r) (entries ov)). fst e < p" "\<forall>e \<in> set (drop (unwrap_position r) (entries ov)). \<not> fst e < p"
    using search_entries [OF assms] by blast
  have "unwrap_position r \<le> length (entries ov)" using r(2) by (cases r) (auto simp: unwrap_position_def)
  then show ?thesis using r by (intro exI [of _ "unwrap_position r"]) (simp add: find_start_index_with_prefix_def)
qed

lemma find_end_eq:
  assumes "ov_wf ov" and "nibble_list p"
  shows "\<exists>i \<le> length (entries ov). find_end_index_with_prefix ov (window ov) (path_of p) = (Ok i :: (_, 'e) result) \<and>
    (\<forall>e \<in> set (take i (entries ov)). fst e < p \<or> prefix p (fst e)) \<and> (\<forall>e \<in> set (drop i (entries ov)). \<not> (fst e < p \<or> prefix p (fst e)))"
proof -
  define Q where "Q e = (take (length p) (fst (entry (ov_offset ov) e)) \<le> p)" for e
  define P :: "overlay_change \<Rightarrow> (bool, 'e) result" where "P = (\<lambda>(stored_path, _).
       if rp_len stored_path < ov_offset ov then Ok True
       else
         bind_result (raw_path_slice_from stored_path (ov_offset ov)) (\<lambda>adjusted.
         bind_result (raw_path_slice adjusted 0 (min (rp_len adjusted) (rp_len (path_of p)))) (\<lambda>cut. Ok (cut \<le> path_of p))))"
  have P: "P e = Ok (Q e)" if e: "e \<in> set (window ov)" for e
  proof -
    obtain ns where ns: "fst e = path_of ns" "nibble_list ns" "nibble_list (drop (ov_offset ov) ns)" "ov_offset ov \<le> length ns"
      "entry (ov_offset ov) e = (drop (ov_offset ov) ns, snd e)" using window_path [OF assms(1) e] by blast
    have cut: "nibble_list (take k (drop (ov_offset ov) ns))" for k using nibble_list_subl [OF ns(2)] by (simp add: subl_def)
    have "take (min (length ns - ov_offset ov) (length p)) (drop (ov_offset ov) ns) = take (length p) (drop (ov_offset ov) ns)"
      by (simp add: min_def)
    then show ?thesis
      using ns assms(2) cut by (cases e) (simp add: P_def Q_def raw_path_slice_from_eq raw_path_slice_eq path_of_le_iff subl_def not_less)
  qed
  have mono: "Q (window ov ! j)" if "j \<le> k" "k < length (window ov)" "Q (window ov ! k)" for j k
  proof -
    have "fst (entries ov ! j) \<le> fst (entries ov ! k)"
      using assms(1) that(1,2) by (cases "j = k") (auto simp: ov_wf_def sorted_wrt_iff_nth_less entries_def intro: less_imp_le)
    from take_le_mono [OF this, of "length p"] show ?thesis using that by (simp add: Q_def entries_def)
  qed
  obtain i where i: "i \<le> length (window ov)" "partition_point P (window ov) = Ok i" "\<forall>x \<in> set (take i (window ov)). Q x"
    "\<forall>x \<in> set (drop i (window ov)). \<not> Q x"
    using partition_point_spec [of "window ov" P Q] P mono by blast
  have "find_end_index_with_prefix ov (window ov) (path_of p) = (Ok i :: (_, 'e) result)"
    using i(2) by (simp add: find_end_index_with_prefix_def P_def)
  then show ?thesis
    using i by (intro exI [of _ i]) (auto simp: entries_def take_map drop_map Q_def take_le_iff)
qed

lemma take_filter: "\<forall>x \<in> set (take i xs). P x \<Longrightarrow> \<forall>x \<in> set (drop i xs). \<not> P x \<Longrightarrow> take i xs = filter P xs \<and> drop i xs = filter (\<lambda>x. \<not> P x) xs"
proof -
  assume *: "\<forall>x \<in> set (take i xs). P x" "\<forall>x \<in> set (drop i xs). \<not> P x"
  have split: "filter R xs = filter R (take i xs) @ filter R (drop i xs)" for R by (metis append_take_drop_id filter_append)
  show ?thesis unfolding split [of P] split [of "\<lambda>x. \<not> P x"] using * by simp
qed

lemma prefix_indices:
  assumes "ov_wf ov" and "nibble_list p"
  obtains i k where "find_start_index_with_prefix ov (window ov) (path_of p) = (Ok i :: (_, 'e) result)"
    "find_end_index_with_prefix ov (window ov) (path_of p) = (Ok k :: (_, 'e) result)" "i \<le> k" "k \<le> length (window ov)"
    "take i (entries ov) = filter (\<lambda>e. fst e < p) (entries ov)"
    "subl (entries ov) i (k - i) = filter (\<lambda>e. prefix p (fst e)) (entries ov)"
    "drop k (entries ov) = filter (\<lambda>e. p < fst e \<and> \<not> prefix p (fst e)) (entries ov)"
proof -
  obtain i where i: "i \<le> length (entries ov)" "find_start_index_with_prefix ov (window ov) (path_of p) = (Ok i :: (_, 'e) result)"
    "\<forall>e \<in> set (take i (entries ov)). fst e < p" "\<forall>e \<in> set (drop i (entries ov)). \<not> fst e < p" using find_start_eq [OF assms] by blast
  obtain k where k: "k \<le> length (entries ov)" "find_end_index_with_prefix ov (window ov) (path_of p) = (Ok k :: (_, 'e) result)"
    "\<forall>e \<in> set (take k (entries ov)). fst e < p \<or> prefix p (fst e)" "\<forall>e \<in> set (drop k (entries ov)). \<not> (fst e < p \<or> prefix p (fst e))"
    using find_end_eq [OF assms] by blast
  have le: "i \<le> k"
  proof (rule ccontr)
    assume "\<not> i \<le> k"
    then have "entries ov ! k \<in> set (take i (entries ov))" "entries ov ! k \<in> set (drop k (entries ov))"
      using i(1) by (auto simp: in_set_conv_nth intro: exI [of _ k] exI [of _ 0])
    then show False using i(3) k(4) by blast
  qed
  have "subl (entries ov) i (k - i) = drop i (take k (entries ov))" by (simp add: subl_def drop_take)
  also have "take k (entries ov) = filter (\<lambda>e. fst e < p \<or> prefix p (fst e)) (entries ov)" using take_filter k(3,4) by blast
  finally have mid: "subl (entries ov) i (k - i) = drop i (filter (\<lambda>e. fst e < p \<or> prefix p (fst e)) (entries ov))" .
  have split: "entries ov = take i (entries ov) @ drop i (entries ov)" by simp
  have f1: "filter (\<lambda>e. fst e < p \<or> prefix p (fst e)) (take i (entries ov)) = take i (entries ov)" using i(3) by (simp add: filter_id_conv)
  have "filter (\<lambda>e. fst e < p \<or> prefix p (fst e)) (entries ov) =
      take i (entries ov) @ filter (\<lambda>e. fst e < p \<or> prefix p (fst e)) (drop i (entries ov))"
    by (subst split, simp only: filter_append f1)
  moreover have "filter (\<lambda>e. fst e < p \<or> prefix p (fst e)) (drop i (entries ov)) = filter (\<lambda>e. prefix p (fst e)) (drop i (entries ov))"
    using i(4) by (intro filter_cong) auto
  moreover have "filter (\<lambda>e. prefix p (fst e)) (entries ov) = filter (\<lambda>e. prefix p (fst e)) (drop i (entries ov))"
    using i(3) prefix_not_less by (subst split, simp only: filter_append) (auto simp: filter_empty_conv)
  ultimately have "subl (entries ov) i (k - i) = filter (\<lambda>e. prefix p (fst e)) (entries ov)" using mid i(1) by simp
  moreover have "drop k (entries ov) = filter (\<lambda>e. \<not> (fst e < p \<or> prefix p (fst e))) (entries ov)" using take_filter k(3,4) by blast
  moreover have "filter (\<lambda>e. \<not> (fst e < p \<or> prefix p (fst e))) (entries ov) = filter (\<lambda>e. p < fst e \<and> \<not> prefix p (fst e)) (entries ov)"
    by (intro filter_cong) (auto simp: not_less order.order_iff_strict)
  ultimately show thesis
    using that [OF i(2) k(2) le] k(1) take_filter [OF i(3,4)] by (simp add: entries_def)
qed

lemma sub_slice_by_prefix_eq:
  assumes "ov_wf ov" and "nibble_list p"
  shows "\<exists>b w a. sub_slice_by_prefix (path_of p) ov = (Ok (b, w, a) :: (_, 'e) result) \<and> ov_wf b \<and> ov_wf w \<and> ov_wf a \<and>
    ov_offset b = ov_offset ov \<and> ov_offset w = ov_offset ov \<and> ov_offset a = ov_offset ov \<and>
    entries b = filter (\<lambda>e. fst e < p) (entries ov) \<and> entries w = filter (\<lambda>e. prefix p (fst e)) (entries ov) \<and>
    entries a = filter (\<lambda>e. p < fst e \<and> \<not> prefix p (fst e)) (entries ov) \<and> entries ov = entries b @ entries w @ entries a"
proof -
  obtain i k where i: "find_start_index_with_prefix ov (window ov) (path_of p) = (Ok i :: (_, 'e) result)"
    "find_end_index_with_prefix ov (window ov) (path_of p) = (Ok k :: (_, 'e) result)" "i \<le> k" "k \<le> length (window ov)"
    "take i (entries ov) = filter (\<lambda>e. fst e < p) (entries ov)"
    "subl (entries ov) i (k - i) = filter (\<lambda>e. prefix p (fst e)) (entries ov)"
    "drop k (entries ov) = filter (\<lambda>e. p < fst e \<and> \<not> prefix p (fst e)) (entries ov)"
    using prefix_indices [OF assms] by metis
  have len: "length (entries ov) = length (window ov)" by (simp add: entries_def)
  have e: "subl (entries ov) 0 i = take i (entries ov)" "subl (entries ov) k (length (window ov) - k) = drop k (entries ov)"
    using len by (simp_all add: subl_def)
  have "entries ov = take i (entries ov) @ subl (entries ov) i (k - i) @ drop k (entries ov)"
    using i(3) by (simp add: subl_def) (metis append_take_drop_id add_diff_inverse_nat drop_drop linorder_not_less add.commute)
  then show ?thesis
    using i window_sub_slice [OF assms(1), of 0 i] window_sub_slice [OF assms(1), of i k] window_sub_slice [OF assms(1), of k "length (window ov)"] assms(1)
    by (auto simp: sub_slice_by_prefix_def effective_slice_eq e simp del: filter_append)
qed

lemma sub_slice_for_prefix_eq:
  assumes "ov_wf ov" and "nibble_list p"
  shows "\<exists>w. sub_slice_for_prefix (path_of p) ov = (Ok w :: (_, 'e) result) \<and> ov_wf w \<and>
    entries w = filter (\<lambda>e. prefix p (fst e)) (entries ov) \<and> (entries ov \<noteq> [] \<longrightarrow> ov_offset w = ov_offset ov)"
proof (cases "entries ov = []")
  case True
  then show ?thesis
    using assms(1) by (simp add: sub_slice_for_prefix_def overlay_is_empty_eq) (simp add: overlay_empty_def ov_wf_def entries_def window_def subl_def)
next
  case False
  obtain i k where i: "find_start_index_with_prefix ov (window ov) (path_of p) = (Ok i :: (_, 'e) result)"
    "find_end_index_with_prefix ov (window ov) (path_of p) = (Ok k :: (_, 'e) result)" "i \<le> k" "k \<le> length (window ov)"
    "subl (entries ov) i (k - i) = filter (\<lambda>e. prefix p (fst e)) (entries ov)"
    using prefix_indices [OF assms] by metis
  then show ?thesis
    using False assms(1) window_sub_slice [OF assms(1) i(3,4)]
    by (simp add: sub_slice_for_prefix_def overlay_is_empty_eq effective_slice_eq)
qed

lemma iter_loop_eq:
  assumes "\<forall>e \<in> set xs. raw_path_wf (fst e)"
  shows "iter_loop off xs = Ok (map (apfst path_of) (filter (\<lambda>e. fst e \<noteq> []) (map (entry off) xs)))"
  using assms
proof (induction xs)
  case (Cons e xs)
  obtain ns where "nibble_list ns" "fst e = path_of ns" using Cons.prems raw_path_wf_cases [of "fst e"] by auto
  then show ?case using Cons by (cases e) (auto simp: entry_def raw_path_slice_from_eq)
qed simp

lemma overlay_iter_eq:
  assumes "ov_wf ov"
  shows "overlay_iter ov = Ok (map (apfst path_of) (filter (\<lambda>e. fst e \<noteq> []) (entries ov)))"
  using assms iter_loop_eq [of "window ov" "ov_offset ov"] by (simp add: overlay_iter_def effective_slice_eq entries_def ov_wf_def)

lemma entries_nibbles: "ov_wf ov \<Longrightarrow> e \<in> set (entries ov) \<Longrightarrow> nibble_list (fst e)"
  unfolding entries_def by (auto elim!: window_path)

lemma contains_prefix_of_eq:
  assumes "ov_wf ov" and "nibble_list p"
  shows "contains_prefix_of (path_of p) ov = Ok (\<exists>e \<in> set (entries ov). fst e \<noteq> [] \<and> prefix (fst e) p)"
  using entries_nibbles [OF assms(1)] assms(2)
  by (force simp: contains_prefix_of_def overlay_iter_eq [OF assms(1)] list_ex_iff raw_path_starts_with_eq)

lemma overlay_first_eq:
  assumes "ov_wf ov"
  shows "overlay_first ov = Ok (case entries ov of [] \<Rightarrow> None | e # _ \<Rightarrow> Some (apfst path_of e))"
proof (cases "window ov")
  case Nil
  then show ?thesis using assms by (simp add: overlay_first_def overlay_is_empty_eq entries_def)
next
  case (Cons e es)
  then have pos: "0 < ov_end ov - ov_start ov" using length_window [OF assms] by simp
  then have n: "ov_start ov < length (ov_data ov)" "ov_data ov ! ov_start ov = e"
    using assms Cons subl_nth [of "ov_start ov" "ov_end ov - ov_start ov" "ov_data ov" 0] by (auto simp: ov_wf_def window_def)
  obtain ns where "fst e = path_of ns" "nibble_list ns" "ov_offset ov \<le> length ns" "entry (ov_offset ov) e = (drop (ov_offset ov) ns, snd e)"
    using window_path [OF assms, of e] Cons by auto
  moreover have "\<not> overlay_is_empty ov" using assms Cons by (simp add: overlay_is_empty_eq entries_def)
  ultimately show ?thesis
    using n by (cases e) (simp add: overlay_first_def entries_def Cons raw_path_slice_from_eq)
qed

text \<open>The offset: the check of the first and the last path covers those between.\<close>

lemma between_prefix:
  fixes a b c :: "'a :: linorder list"
  assumes "a \<le> b" and "b \<le> c" and "take n a = take n c"
  shows "take n b = take n a"
  using take_le_mono [OF assms(1), of n] take_le_mono [OF assms(2), of n] assms(3) by simp

lemma with_prefix_offset_ok:
  assumes "ov_wf ov" and "\<forall>e \<in> set (entries ov). prefix c (fst e)"
  shows "\<exists>ov'. with_prefix_offset (length c) ov = (Ok ov' :: (_, 'e) result) \<and> ov_wf ov' \<and>
    entries ov' = map (apfst (drop (length c))) (entries ov)"
proof -
  define ov' where "ov' = ov\<lparr>ov_offset := ov_offset ov + length c\<rparr>"
  have win: "window ov' = window ov" by (simp add: ov'_def window_def)
  have ent: "entries ov' = map (apfst (drop (length c))) (entries ov)"
    by (simp add: entries_def win) (simp add: ov'_def entry_def add.commute)
  have long: "\<exists>ns. fst e = path_of ns \<and> nibble_list ns \<and> ov_offset ov + length c \<le> length ns \<and> take (length c) (drop (ov_offset ov) ns) = c"
    if e: "e \<in> set (window ov)" for e
  proof -
    obtain ns where ns: "fst e = path_of ns" "nibble_list ns" "entry (ov_offset ov) e = (drop (ov_offset ov) ns, snd e)" "ov_offset ov \<le> length ns"
      using window_path [OF assms(1) e] by blast
    then have "prefix c (drop (ov_offset ov) ns)" using assms(2) e by (force simp: entries_def)
    then obtain r where r: "drop (ov_offset ov) ns = c @ r" by (auto simp: prefix_def)
    then have "length ns - ov_offset ov = length c + length r" by (metis length_append length_drop)
    then show ?thesis using ns r by (intro exI [of _ ns]) auto
  qed
  have pre: "take (ov_offset ov + length c) (raw_path_nibbles (fst d)) = take (ov_offset ov + length c) (raw_path_nibbles (fst e))"
    if de: "d \<in> set (window ov)" "e \<in> set (window ov)" for d e
  proof -
    have "take (ov_offset ov) (raw_path_nibbles (fst d)) = take (ov_offset ov) (raw_path_nibbles (fst e))"
      using assms(1) de same_headD unfolding ov_wf_def by blast
    then show ?thesis using long [OF de(1)] long [OF de(2)] by (auto simp: take_add)
  qed
  have "sorted_wrt (\<lambda>a b. drop (length c) a < drop (length c) b) (map fst (entries ov))"
  proof (rule sorted_wrt_mono_rel)
    show "sorted_wrt (<) (map fst (entries ov))" using assms(1) by (simp add: ov_wf_def)
    fix a b
    assume "a \<in> set (map fst (entries ov))" "b \<in> set (map fst (entries ov))" "a < b"
    then have "prefix c a" "prefix c b" using assms(2) by auto
    then obtain r s where "a = c @ r" "b = c @ s" by (auto simp: prefix_def)
    then show "drop (length c) a < drop (length c) b" using \<open>a < b\<close> by (simp add: append_less_cancel)
  qed
  then have sorted: "sorted_wrt (<) (map fst (entries ov'))" by (simp add: ent sorted_wrt_map comp_def)
  have "same_head (ov_offset ov + length c) (window ov)" unfolding same_head_def using pre by blast
  moreover have "ov_offset ov + length c \<le> rp_len (fst e)" if "e \<in> set (window ov)" for e using long [OF that] by auto
  ultimately have wf': "ov_wf ov'"
    using assms(1) sorted unfolding ov_wf_def win by (auto simp: ov'_def)
  have "with_prefix_offset (length c) ov = (Ok ov' :: (_, 'e) result)"
  proof (cases "1 < overlay_len ov")
    case True
    then have "1 < length (window ov)" using overlay_len_eq [OF assms(1)] by (simp add: entries_def)
    then have m: "window ov ! 0 \<in> set (window ov)" "window ov ! (length (window ov) - 1) \<in> set (window ov)" by (auto intro!: nth_mem)
    obtain ns ms where ns: "fst (window ov ! 0) = path_of ns" "nibble_list ns" "ov_offset ov + length c \<le> length ns"
      "fst (window ov ! (length (window ov) - 1)) = path_of ms" "nibble_list ms" "ov_offset ov + length c \<le> length ms"
      using long [OF m(1)] long [OF m(2)] by blast
    have "take (ov_offset ov + length c) ns = take (ov_offset ov + length c) ms" using pre [OF m] ns by simp
    then show ?thesis
      using True ns assms(1) by (simp add: with_prefix_offset_def Let_def effective_slice_eq raw_path_slice_eq subl_def ov'_def)
  qed (simp add: with_prefix_offset_def Let_def ov'_def)
  then show ?thesis using wf' ent by blast
qed

subsection \<open>Freezing\<close>

lemma map_of_snoc: "k \<notin> fst ` set b \<Longrightarrow> map_of (b @ [(k, u)]) = (map_of b)(k \<mapsto> u)"
  by (induction b) (auto simp: fun_eq_iff)

lemma dedup_loop_spec:
  assumes "sorted (k # map fst xs)" and "sorted_wrt (<) (map fst b @ [k])"
  shows "sorted_wrt (<) (map fst (dedup_loop (b @ [(k, u)]) (Some k) xs)) \<and>
    map_of (dedup_loop (b @ [(k, u)]) (Some k) xs) = (map_of b)(k \<mapsto> u) ++ map_of (rev xs) \<and>
    fst ` set (dedup_loop (b @ [(k, u)]) (Some k) xs) \<subseteq> insert k (fst ` set b \<union> fst ` set xs)"
  using assms
proof (induction xs arbitrary: b k u)
  case Nil
  then have "k \<notin> fst ` set b" by (auto simp: sorted_wrt_append)
  then show ?case using Nil by (simp add: map_of_snoc del: map_of_append)
next
  case (Cons x xs)
  obtain path v where x: "x = (path, v)" by (cases x)
  have add: "m ++ map_of (rev (x # xs)) = m(path \<mapsto> v) ++ map_of (rev xs)" for m by (simp add: x)
  show ?case
  proof (cases "path = k")
    case True
    then show ?thesis using Cons.IH [of k b v] Cons.prems unfolding add by (auto simp: x fun_upd_def cong: if_cong)
  next
    case False
    then have "k < path" using Cons.prems(1) by (auto simp: x order.strict_iff_order)
    then have s: "sorted_wrt (<) (map fst (b @ [(k, u)]) @ [path])" using Cons.prems(2) by (auto simp: sorted_wrt_append)
    have "k \<notin> fst ` set b" using Cons.prems(2) by (auto simp: sorted_wrt_append)
    then show ?thesis
      using Cons.IH [of path "b @ [(k, u)]" v, OF _ s] Cons.prems(1) False unfolding add by (auto simp: x map_of_snoc fun_upd_def simp del: map_of_append)
  qed
qed

lemma dedup_sorted:
  assumes "sorted (map fst xs)"
  shows "sorted_wrt (<) (map fst (dedup_loop [] None xs)) \<and> map_of (dedup_loop [] None xs) = map_of (rev xs) \<and>
    fst ` set (dedup_loop [] None xs) \<subseteq> fst ` set xs"
proof (cases xs)
  case (Cons x ys)
  obtain k u where x: "x = (k, u)" by (cases x)
  have "Map.empty(k \<mapsto> u) ++ map_of (rev ys) = map_of (rev xs)" by (simp add: Cons x)
  then show ?thesis using dedup_loop_spec [of k ys "[]" u] assms by (simp add: Cons x)
qed simp

lemma map_of_filter_key: "map_of xs k = (case filter (\<lambda>x. fst x = k) xs of [] \<Rightarrow> None | x # _ \<Rightarrow> Some (snd x))"
  by (induction xs) auto

text \<open>The sort is stable: the last value of a path stays the last.\<close>

lemma map_of_rev_sort: "map_of (rev (sort_key fst xs)) = map_of (rev xs)"
proof
  fix k
  have "filter (\<lambda>x. fst x = k) (sort_key fst xs) = filter (\<lambda>x. fst x = k) xs" by (rule sort_key_stable)
  then show "map_of (rev (sort_key fst xs)) k = map_of (rev xs) k" by (simp add: map_of_filter_key rev_filter [symmetric])
qed

lemma map_of_path_entries:
  assumes "\<forall>e \<in> set xs. raw_path_wf (fst e)"
  shows "map_of (map (entry 0) xs) t = map_of xs (path_of t)"
  using assms
proof (induction xs)
  case (Cons e xs)
  obtain ns where "fst e = path_of ns" using Cons.prems raw_path_wf_cases [of "fst e"] by auto
  then show ?case using Cons by (cases e) (auto simp: entry_def)
qed simp

lemma freeze_spec:
  assumes "\<forall>e \<in> set (om_changes om). raw_path_wf (fst e)"
  shows "ov_wf (freeze om)" "map_of (entries (freeze om)) t = map_of (rev (om_changes om)) (path_of t)" "ov_offset (freeze om) = 0"
proof -
  define xs where "xs = dedup_loop [] None (sort_key fst (om_changes om))"
  have d: "sorted_wrt (<) (map fst xs)" "map_of xs = map_of (rev (om_changes om))" "fst ` set xs \<subseteq> fst ` set (om_changes om)"
    using dedup_sorted [of "sort_key fst (om_changes om)"] map_of_rev_sort by (auto simp: xs_def)
  have fr: "freeze om = \<lparr>ov_data = xs, ov_start = 0, ov_end = length xs, ov_offset = 0\<rparr>"
    by (simp add: freeze_def xs_def Let_def)
  have win: "window (freeze om) = xs" by (simp add: fr window_def subl_def)
  have wf: "\<forall>e \<in> set xs. raw_path_wf (fst e)" using assms d(3) by (metis image_iff image_subset_iff)
  have "sorted_wrt (\<lambda>p q. raw_path_nibbles p < raw_path_nibbles q) (map fst xs)"
  proof (rule sorted_wrt_mono_rel [OF _ d(1)])
    fix p q
    assume "p \<in> set (map fst xs)" "q \<in> set (map fst xs)" "p < q"
    moreover obtain ns ms where "p = path_of ns" "nibble_list ns" "q = path_of ms" "nibble_list ms"
      using calculation wf raw_path_wf_cases by (metis imageE list.set_map)
    ultimately show "raw_path_nibbles p < raw_path_nibbles q" by (simp add: path_of_less_iff)
  qed
  then have "sorted_wrt (<) (map fst (entries (freeze om)))" by (simp add: entries_def win) (simp add: fr entry_def sorted_wrt_map comp_def)
  then show "ov_wf (freeze om)" using wf by (simp add: ov_wf_def win) (simp add: fr same_head_def)
  show "map_of (entries (freeze om)) t = map_of (rev (om_changes om)) (path_of t)"
    using map_of_path_entries [OF wf] d(2) by (simp add: entries_def win) (simp add: fr)
  show "ov_offset (freeze om) = 0" by (simp add: fr)
qed

text \<open>Inserting.\<close>

definition normal_value :: "overlay_value option \<Rightarrow> overlay_value option" where
  "normal_value v = (if v = Some (OStorage 0) then None else v)"

definition insert_all :: "overlay_change list \<Rightarrow> overlay_state_mut" where
  "insert_all cs = fold (\<lambda>(p, v). overlay_insert p v) cs overlay_mut_new"

lemma insert_all_changes: "om_changes (insert_all cs) = map (apsnd normal_value) cs"
proof -
  have "om_changes (fold (\<lambda>(p, v). overlay_insert p v) cs om) = om_changes om @ map (apsnd normal_value) cs" for om
    by (induction cs arbitrary: om) (auto simp: overlay_insert_def normal_value_def)
  then show ?thesis by (simp add: insert_all_def overlay_mut_new_def)
qed

subsection \<open>Properties\<close>

text \<open>
  C24. A frozen overlay is the map of the last changes. After any sequence of insertions, looking up a
  path gives the value inserted for it last, with a storage value of zero turned into a deletion, and
  nothing if there was none; the binary search never leaves the slice.
\<close>

theorem overlay_freeze_lookup:
  assumes "\<forall>e \<in> set cs. raw_path_wf (fst e)" and "nibble_list t"
  shows "overlay_lookup (freeze (insert_all cs)) (path_of t) =
    (Ok (map_of (rev (map (apsnd normal_value) cs)) (path_of t)) :: (_, 'e) result)"
proof -
  have "\<forall>e \<in> set (om_changes (insert_all cs)). raw_path_wf (fst e)" using assms(1) by (simp add: insert_all_changes)
  from freeze_spec [OF this] show ?thesis using assms(2) by (simp add: overlay_lookup_eq insert_all_changes)
qed

theorem overlay_freeze_lookup_witness:
  "overlay_lookup (freeze (insert_all [(path_of [2], Some (OStorage 7)), (path_of [1], Some (OStorage 5)), (path_of [2], Some (OStorage 0))])) (path_of [2]) =
   (Ok (Some None) :: (_, unit) result)"
proof -
  have n: "nibble_list [1]" "nibble_list [2]" by (simp_all add: nibble_list_def is_nibble_def)
  have "path_of [1] \<noteq> path_of [2]" by simp
  then show ?thesis
    using overlay_freeze_lookup [of "[(path_of [2], Some (OStorage 7)), (path_of [1], Some (OStorage 5)), (path_of [2], Some (OStorage 0))]" "[2]"] n
    by (simp add: normal_value_def)
qed

text \<open>
  C25. Slicing by a prefix. The three windows that \<open>sub_slice_by_prefix\<close> returns are, in order, all changes
  before the prefix, exactly the changes under it, and all changes after it; nothing is lost, and each is
  again a well-formed overlay, so that the slicing can be repeated.
\<close>

theorem overlay_slices:
  assumes "ov_wf ov" and "nibble_list p"
  shows "\<exists>b w a. sub_slice_by_prefix (path_of p) ov = (Ok (b, w, a) :: (_, 'e) result) \<and> ov_wf b \<and> ov_wf w \<and> ov_wf a \<and>
    entries b = filter (\<lambda>e. fst e < p) (entries ov) \<and> entries w = filter (\<lambda>e. prefix p (fst e)) (entries ov) \<and>
    entries a = filter (\<lambda>e. p < fst e \<and> \<not> prefix p (fst e)) (entries ov) \<and> entries ov = entries b @ entries w @ entries a"
  using sub_slice_by_prefix_eq [OF assms] by blast

theorem overlay_slices_witness:
  "\<exists>b w a. sub_slice_by_prefix (path_of [2]) (freeze (insert_all [(path_of [2, 1], Some (OStorage 7)), (path_of [1], None)])) = (Ok (b, w, a) :: (_, unit) result) \<and>
     entries w = [([2, 1], Some (OStorage 7))]"
proof -
  define om where "om = insert_all [(path_of [2, 1], Some (OStorage 7)), (path_of [1], None)]"
  have n: "nibble_list [1]" "nibble_list [2, 1]" "nibble_list [2]" by (simp_all add: nibble_list_def is_nibble_def)
  then have "\<forall>e \<in> set (om_changes om). raw_path_wf (fst e)" by (auto simp: om_def insert_all_changes)
  note wf = freeze_spec(1) [OF this]
  have "path_of [1] < path_of [2, 1]" using n by (simp add: path_of_less_iff)
  then have "entries (freeze om) = [([1], None), ([2, 1], Some (OStorage 7))]"
    by (simp add: freeze_def om_def insert_all_changes normal_value_def entries_def window_def subl_def entry_def Let_def not_less less_imp_le insort_key.simps)
  moreover obtain b w a where "sub_slice_by_prefix (path_of [2]) (freeze om) = (Ok (b, w, a) :: (_, unit) result)"
    "entries w = filter (\<lambda>e. prefix [2] (fst e)) (entries (freeze om))" using overlay_slices [OF wf n(3)] by blast
  ultimately show ?thesis unfolding om_def [symmetric] by simp
qed

end
