(* ===== verification/Overlay_Root.thy ===== *)
theory Overlay_Root
  imports Overlay Engine_Read
begin

text \<open>
  The state root of a snapshot with an overlay (\<open>src/src/storage/overlay_root.rs\<close>). The traversal walks the
  stored trie and the overlay together and feeds leaves and hashed branches to the \<open>HashBuilder\<close> of
  alloy-trie, which computes the root. The builder is a parameter: its state is the sequence of the
  calls made on it, \<open>hb_root\<close> and \<open>hb_updates\<close> are its two results as functions of that sequence, and
  \<open>hb_encode_account\<close> is the derived RLP encoding of an account.

  The library documents that keys have to be added in increasing order. The main property is that the
  traversal does so, and that what it adds is the stored trie with the overlay applied.
\<close>

subsection \<open>The root builder\<close>

datatype builder_item = AddLeaf nibbles bytes | AddBranch nibbles bytes bool

record 'u hash_builder =
  hb_root :: "builder_item list \<Rightarrow> bytes"
  hb_updates :: "builder_item list \<Rightarrow> 'u"
  hb_no_updates :: 'u
  hb_encode_account :: "account \<Rightarrow> bytes"

record 'u root_builder =
  rb_items :: "builder_item list"
  rb_storage :: "bytes \<rightharpoonup> 'u"

record 'u overlayed_root =
  or_root :: bytes
  or_updated_branch_nodes :: 'u
  or_storage_branch_updates :: "bytes \<rightharpoonup> 'u"

definition overlayed_root_new_hash :: "'u hash_builder \<Rightarrow> bytes \<Rightarrow> 'u overlayed_root" where
  "overlayed_root_new_hash H root =
     \<lparr>or_root = root, or_updated_branch_nodes = hb_no_updates H, or_storage_branch_updates = Map.empty\<rparr>"

definition root_builder_new :: "'u root_builder" where
  "root_builder_new = \<lparr>rb_items = [], rb_storage = Map.empty\<rparr>"

definition rb_add_leaf :: "nibbles \<Rightarrow> bytes \<Rightarrow> 'u root_builder \<Rightarrow> 'u root_builder" where
  "rb_add_leaf key value rb = rb\<lparr>rb_items := rb_items rb @ [AddLeaf key value]\<rparr>"

definition rb_add_branch :: "nibbles \<Rightarrow> bytes \<Rightarrow> bool \<Rightarrow> 'u root_builder \<Rightarrow> 'u root_builder" where
  "rb_add_branch key value stored rb = rb\<lparr>rb_items := rb_items rb @ [AddBranch key value stored]\<rparr>"

definition add_storage_branch_updates :: "bytes \<Rightarrow> 'u \<Rightarrow> 'u root_builder \<Rightarrow> 'u root_builder" where
  "add_storage_branch_updates account updates rb = rb\<lparr>rb_storage := (rb_storage rb)(account \<mapsto> updates)\<rparr>"

definition rb_finalize :: "'u hash_builder \<Rightarrow> 'u root_builder \<Rightarrow> 'u overlayed_root" where
  "rb_finalize H rb =
     \<lparr>or_root = hb_root H (rb_items rb), or_updated_branch_nodes = hb_updates H (rb_items rb),
      or_storage_branch_updates = rb_storage rb\<rparr>"

text \<open>\<open>path.try_into().unwrap()\<close>, and the bytes of a 64-nibble path.\<close>

definition to_nibbles :: "raw_path \<Rightarrow> (nibbles, 'e) result" where
  "to_nibbles p = unwrap (nibbles_try_from p)"

definition b256_of_nibbles :: "externals \<Rightarrow> nibbles \<Rightarrow> (bytes, 'e) result" where
  "b256_of_nibbles E ns = (if length (x_pack_to E ns) = 32 then Ok (x_pack_to E ns) else Panic)"

subsection \<open>Adding an overlay\<close>

definition encode_account :: "'u hash_builder \<Rightarrow> account \<Rightarrow> bytes" where
  "encode_account H a =
     hb_encode_account H \<lparr>acc_nonce = acc_nonce a, acc_balance = acc_balance a, acc_storage_root = acc_storage_root a,
       acc_code_hash = acc_code_hash a\<rparr>"

definition encode_account_with_root :: "'u hash_builder \<Rightarrow> account \<Rightarrow> bytes \<Rightarrow> bytes" where
  "encode_account_with_root H a root =
     hb_encode_account H \<lparr>acc_nonce = acc_nonce a, acc_balance = acc_balance a, acc_storage_root = root,
       acc_code_hash = acc_code_hash a\<rparr>"

definition encode_storage :: "externals \<Rightarrow> u256 \<Rightarrow> bytes" where
  "encode_storage E v = x_encode_u256 E v"

type_synonym 'u builder_step = "'u root_builder \<Rightarrow> ('u root_builder, engine_error) result"

text \<open>The argument \<open>add\<close> is \<open>add_overlay_to_root_builder\<close>, which the function calls for the storage of the account.\<close>

definition process_overlayed_account ::
  "(overlay_state \<Rightarrow> 'u builder_step) \<Rightarrow> externals \<Rightarrow> 'u hash_builder \<Rightarrow> nibbles \<Rightarrow> account \<Rightarrow> overlay_state \<Rightarrow> 'u builder_step" where
  "process_overlayed_account add E H path account storage_overlay rb =
     (if overlay_is_empty storage_overlay then Ok (rb_add_leaf path (encode_account H account) rb)
      else
        bind_result (add storage_overlay root_builder_new) (\<lambda>storage_rb.
        bind_result (b256_of_nibbles E path) (\<lambda>key.
          let updates = hb_updates H (rb_items storage_rb); sroot = hb_root H (rb_items storage_rb);
              rb = add_storage_branch_updates key updates rb in
          Ok (rb_add_leaf path (encode_account_with_root H account sroot) rb))))"

fun add_overlay_loop ::
  "(overlay_state \<Rightarrow> 'u builder_step) \<Rightarrow> externals \<Rightarrow> 'u hash_builder \<Rightarrow> overlay_state \<Rightarrow> raw_path option \<Rightarrow>
   (raw_path \<times> overlay_value option) list \<Rightarrow> 'u builder_step" where
  "add_overlay_loop add E H overlay last_processed_path [] rb = Ok rb"
| "add_overlay_loop add E H overlay last_processed_path ((path, value) # xs) rb =
     (if (case last_processed_path of Some p \<Rightarrow> raw_path_starts_with path p | None \<Rightarrow> False)
      then add_overlay_loop add E H overlay last_processed_path xs rb
      else case value of
        Some (OAccount account) \<Rightarrow>
          bind_result (sub_slice_for_prefix path overlay) (\<lambda>sub.
          bind_result (with_prefix_offset 64 sub) (\<lambda>storage_overlay.
          bind_result (to_nibbles path) (\<lambda>key.
          bind_result (unwrap (process_overlayed_account add E H key account storage_overlay rb)) (\<lambda>rb.
            add_overlay_loop add E H overlay (Some path) xs rb))))
      | Some (OStorage storage_value) \<Rightarrow>
          bind_result (to_nibbles path) (\<lambda>key.
            add_overlay_loop add E H overlay last_processed_path xs (rb_add_leaf key (encode_storage E storage_value) rb))
      | Some (OHash hash) \<Rightarrow>
          bind_result (to_nibbles path) (\<lambda>key.
            add_overlay_loop add E H overlay (Some path) xs (rb_add_branch key hash False rb))
      | None \<Rightarrow> add_overlay_loop add E H overlay (Some path) xs rb)"

fun add_overlay_to_root_builder :: "nat \<Rightarrow> externals \<Rightarrow> 'u hash_builder \<Rightarrow> overlay_state \<Rightarrow> 'u builder_step" where
  "add_overlay_to_root_builder 0 E H overlay rb = Diverge"
| "add_overlay_to_root_builder (Suc fuel) E H overlay rb =
     bind_result (overlay_iter overlay) (\<lambda>xs.
       add_overlay_loop (add_overlay_to_root_builder fuel E H) E H overlay None xs rb)"

text \<open>
  Each nesting hides 64 more of the at most 128 nibbles of a path, so that the third level has nothing to
  iterate over.
\<close>

definition OVERLAY_FUEL :: nat where
  "OVERLAY_FUEL = 3"

abbreviation add_overlay :: "externals \<Rightarrow> 'u hash_builder \<Rightarrow> overlay_state \<Rightarrow> 'u builder_step" where
  "add_overlay \<equiv> add_overlay_to_root_builder OVERLAY_FUEL"

subsection \<open>The traversal\<close>

datatype trie_position = AtNode raw_path page_id node | AtPointer raw_path page_id pointer bool | NoPosition

text \<open>The stack, its top first.\<close>

type_synonym traversal_stack = "(trie_position \<times> overlay_state) list"

definition push_node :: "raw_path \<Rightarrow> node \<Rightarrow> page_id \<Rightarrow> overlay_state \<Rightarrow> traversal_stack \<Rightarrow> traversal_stack" where
  "push_node path n page overlay stack = (AtNode path page n, overlay) # stack"

definition push_pointer :: "raw_path \<Rightarrow> pointer \<Rightarrow> page_id \<Rightarrow> bool \<Rightarrow> overlay_state \<Rightarrow> traversal_stack \<Rightarrow> traversal_stack" where
  "push_pointer path ptr page can_add_by_hash overlay stack = (AtPointer path page ptr can_add_by_hash, overlay) # stack"

definition push_overlay :: "overlay_state \<Rightarrow> traversal_stack \<Rightarrow> traversal_stack" where
  "push_overlay overlay stack = (NoPosition, overlay) # stack"

type_synonym child_data = "(raw_path \<times> pointer option \<times> overlay_state) list"

text \<open>The loop over the children of a branch, from index \<open>idx\<close> on: the data of the children and the least number of them that will exist.\<close>

fun branch_child_data ::
  "raw_path \<Rightarrow> nat \<Rightarrow> pointer option list \<Rightarrow> overlay_state \<Rightarrow> (child_data \<times> nat, 'e) result" where
  "branch_child_data path idx [] overlay = Ok ([], 0)"
| "branch_child_data path idx (child_pointer # cs) overlay =
     (if child_pointer = None \<and> overlay_is_empty overlay then branch_child_data path (Suc idx) cs overlay
      else
        bind_result (raw_path_push (of_nat idx) path) (\<lambda>child_path.
        bind_result (sub_slice_by_prefix child_path overlay) (\<lambda>(_, child_overlay, overlay_after_child).
        bind_result (overlay_first child_overlay) (\<lambda>first.
          let one = (if child_pointer \<noteq> None \<and> overlay_is_empty child_overlay then 1
                     else case first of Some (_, Some _) \<Rightarrow> 1 | _ \<Rightarrow> 0) in
          bind_result (branch_child_data path (Suc idx) cs overlay_after_child) (\<lambda>(data, n).
            Ok ((child_path, child_pointer, child_overlay) # data, one + n))))))"

text \<open>Pushing in reverse order leaves the first child on top.\<close>

definition push_children :: "page_id \<Rightarrow> bool \<Rightarrow> child_data \<Rightarrow> traversal_stack \<Rightarrow> traversal_stack" where
  "push_children page can_add_by_hash data stack =
     fold (\<lambda>(child_path, child_pointer, child_overlay) stack.
       case child_pointer of
         Some ptr \<Rightarrow> push_pointer child_path ptr page can_add_by_hash child_overlay stack
       | None \<Rightarrow> if overlay_is_empty child_overlay then stack else push_overlay child_overlay stack) (rev data) stack"

definition process_branch_node_with_overlay ::
  "overlay_state \<Rightarrow> raw_path \<Rightarrow> pointer option list \<Rightarrow> page_id \<Rightarrow> traversal_stack \<Rightarrow> (traversal_stack, 'e) result" where
  "process_branch_node_with_overlay overlay path kids page stack =
     bind_result (branch_child_data path 0 kids overlay) (\<lambda>(data, minimum_possible_child_count).
       Ok (push_children page (1 < minimum_possible_child_count) data stack))"

definition process_overlayed_child ::
  "externals \<Rightarrow> 'u hash_builder \<Rightarrow> overlay_state \<Rightarrow> 'u root_builder \<Rightarrow> raw_path \<Rightarrow> pointer \<Rightarrow> page_id \<Rightarrow> traversal_stack \<Rightarrow>
   (traversal_stack \<times> 'u root_builder) action" where
  "process_overlayed_child E H overlay rb child_path child current_page stack =
     bindE (liftE (overlay_first overlay)) (\<lambda>first.
       if (case first of Some (overlay_path, overlay_value) \<Rightarrow>
             child_path = overlay_path \<and> (case overlay_value of Some (OAccount _) \<Rightarrow> False | _ \<Rightarrow> True) | None \<Rightarrow> False)
       then bindE (liftE (add_overlay E H overlay rb)) (\<lambda>rb. returnE (stack, rb))
       else
         case pointer_cell_index child of
           Some child_cell \<Rightarrow>
             bindE (get_node E current_page child_cell) (\<lambda>child_node.
             bindE (liftE (raw_path_of_nibbles (node_prefix child_node))) (\<lambda>pre.
             bindE (liftE (raw_path_extend child_path pre)) (\<lambda>path.
               returnE (push_node path child_node current_page overlay stack, rb))))
         | None \<Rightarrow>
             bindE (pointer_page_id child) (\<lambda>child_page_id.
             bindE (get_page child_page_id) (\<lambda>child_page.
             bindE (get_node E child_page 0) (\<lambda>child_node.
             bindE (liftE (raw_path_of_nibbles (node_prefix child_node))) (\<lambda>pre.
             bindE (liftE (raw_path_extend child_path pre)) (\<lambda>path.
               returnE (push_node path child_node child_page overlay stack, rb)))))))"

definition add_account_leaf_to_root_builder ::
  "raw_path \<Rightarrow> bytes \<Rightarrow> bytes \<Rightarrow> bytes \<Rightarrow> bytes \<Rightarrow> 'u builder_step" where
  "add_account_leaf_to_root_builder path nonce bal code root rb =
     (let value = encode_account_leaf nonce bal code root in
      if 110 < length value then Panic
      else bind_result (to_nibbles path) (\<lambda>key. Ok (rb_add_leaf key value rb)))"

text \<open>The argument \<open>compute\<close> is \<open>compute_root_with_overlay\<close>, which is called for the storage trie.\<close>

definition process_account_leaf_with_overlay ::
  "(traversal_stack \<Rightarrow> 'u root_builder \<Rightarrow> 'u root_builder action) \<Rightarrow> externals \<Rightarrow> 'u hash_builder \<Rightarrow> overlay_state \<Rightarrow>
   'u root_builder \<Rightarrow> raw_path \<Rightarrow> page_id \<Rightarrow> bytes \<Rightarrow> bytes \<Rightarrow> bytes \<Rightarrow> pointer option \<Rightarrow> 'u root_builder action" where
  "process_account_leaf_with_overlay compute E H overlay rb path current_page nonce bal code sroot =
     bindE (liftE (overlay_lookup overlay path)) (\<lambda>overlayed_account.
       if overlayed_account = Some None then returnE rb
       else
         let (nonce, bal, code) =
           (case overlayed_account of
              Some (Some (OAccount a)) \<Rightarrow> (x_encode_u64 E (acc_nonce a), x_encode_u256 E (acc_balance a), acc_code_hash a)
            | _ \<Rightarrow> (nonce, bal, code)) in
         bindE (liftE (overlay_iter overlay)) (\<lambda>xs.
           if \<not> list_ex (\<lambda>(p, _). 64 < rp_len p) xs then
             let root_hash = (case sroot of None \<Rightarrow> x_empty_root_hash E
                    | Some ptr \<Rightarrow> (case x_as_hash E (ptr_rlp ptr) of Some h \<Rightarrow> h | None \<Rightarrow> x_empty_root_hash E)) in
             liftE (add_account_leaf_to_root_builder path nonce bal code root_hash rb)
           else
             bindE (liftE (with_prefix_offset 64 overlay)) (\<lambda>storage_overlay.
             bindE
               (case sroot of
                  Some ptr \<Rightarrow>
                    (case pointer_cell_index ptr of
                       Some child_cell \<Rightarrow>
                         bindE (get_node E current_page child_cell) (\<lambda>n.
                         bindE (liftE (raw_path_of_nibbles (node_prefix n))) (\<lambda>pre.
                           compute (push_node pre n current_page storage_overlay []) root_builder_new))
                     | None \<Rightarrow>
                         bindE (pointer_page_id ptr) (\<lambda>storage_page_id.
                         bindE (get_page storage_page_id) (\<lambda>storage_page.
                         bindE (get_node E storage_page 0) (\<lambda>n.
                         bindE (liftE (raw_path_of_nibbles (node_prefix n))) (\<lambda>pre.
                           compute (push_node pre n storage_page storage_overlay []) root_builder_new)))))
                | None \<Rightarrow> liftE (add_overlay E H storage_overlay root_builder_new)) (\<lambda>storage_rb.
             bindE (liftE (raw_path_pack 32 path)) (\<lambda>key.
               liftE (add_account_leaf_to_root_builder path nonce bal code (hb_root H (rb_items storage_rb))
                 (add_storage_branch_updates key (hb_updates H (rb_items storage_rb)) rb)))))))"

definition overlay_hits :: "raw_path \<Rightarrow> overlay_state \<Rightarrow> (overlay_value option option, 'e) result" where
  "overlay_hits path overlay =
     bind_result (overlay_first overlay) (\<lambda>first.
       Ok (case first of Some (overlay_path, v) \<Rightarrow> if overlay_path = path then Some v else None | None \<Rightarrow> None))"

text \<open>One round of the loop, for a node: the part that depends on its kind, and the slicing of the overlay around it.\<close>

definition process_node_kind ::
  "(traversal_stack \<Rightarrow> 'u root_builder \<Rightarrow> 'u root_builder action) \<Rightarrow> externals \<Rightarrow> 'u hash_builder \<Rightarrow> raw_path \<Rightarrow> page_id \<Rightarrow> node \<Rightarrow>
   overlay_state \<Rightarrow> traversal_stack \<Rightarrow> 'u root_builder \<Rightarrow> (traversal_stack \<times> 'u root_builder) action" where
  "process_node_kind compute E H path page n matching_overlay stack rb =
     (case node_kind n of
        Branch kids \<Rightarrow>
          bindE (liftE (overlay_hits path matching_overlay)) (\<lambda>hit.
            case hit of
              Some (Some (OHash _)) \<Rightarrow> bindE (liftE (add_overlay E H matching_overlay rb)) (\<lambda>rb. returnE (stack, rb))
            | _ \<Rightarrow>
                bindE (liftE (process_branch_node_with_overlay matching_overlay path kids page stack)) (\<lambda>stack. returnE (stack, rb)))
      | AccountLeaf nonce bal code sroot \<Rightarrow>
          bindE (process_account_leaf_with_overlay compute E H matching_overlay rb path page nonce bal code sroot)
            (\<lambda>rb. returnE (stack, rb))
      | StorageLeaf v \<Rightarrow>
          bindE (liftE (overlay_hits path matching_overlay)) (\<lambda>hit.
            case hit of
              Some _ \<Rightarrow> bindE (liftE (add_overlay E H matching_overlay rb)) (\<lambda>rb. returnE (stack, rb))
            | None \<Rightarrow> bindE (liftE (to_nibbles path)) (\<lambda>key. returnE (stack, rb_add_leaf key v rb))))"

definition process_node ::
  "(traversal_stack \<Rightarrow> 'u root_builder \<Rightarrow> 'u root_builder action) \<Rightarrow> externals \<Rightarrow> 'u hash_builder \<Rightarrow> raw_path \<Rightarrow> page_id \<Rightarrow> node \<Rightarrow>
   overlay_state \<Rightarrow> traversal_stack \<Rightarrow> 'u root_builder \<Rightarrow> (traversal_stack \<times> 'u root_builder) action" where
  "process_node compute E H path page n overlay stack rb =
     bindE (liftE (sub_slice_by_prefix path overlay)) (\<lambda>(pre_overlay, matching_overlay, post_overlay).
     bindE (liftE (contains_prefix_of path pre_overlay)) (\<lambda>invalidated.
       if invalidated then bindE (liftE (add_overlay E H overlay rb)) (\<lambda>rb. returnE (stack, rb))
       else
         bindE (liftE (add_overlay E H pre_overlay rb)) (\<lambda>rb.
           process_node_kind compute E H path page n matching_overlay (push_overlay post_overlay stack) rb)))"

definition process_position ::
  "(traversal_stack \<Rightarrow> 'u root_builder \<Rightarrow> 'u root_builder action) \<Rightarrow> externals \<Rightarrow> 'u hash_builder \<Rightarrow> trie_position \<Rightarrow>
   overlay_state \<Rightarrow> traversal_stack \<Rightarrow> 'u root_builder \<Rightarrow> (traversal_stack \<times> 'u root_builder) action" where
  "process_position compute E H position overlay stack rb =
     (case position of
        NoPosition \<Rightarrow> bindE (liftE (add_overlay E H overlay rb)) (\<lambda>rb. returnE (stack, rb))
      | AtPointer path page ptr can_add_by_hash \<Rightarrow>
          (case (if overlay_is_empty overlay \<and> can_add_by_hash then x_as_hash E (ptr_rlp ptr) else None) of
             Some hash \<Rightarrow> bindE (liftE (to_nibbles path)) (\<lambda>key. returnE (stack, rb_add_branch key hash True rb))
           | None \<Rightarrow> process_overlayed_child E H overlay rb path ptr page stack)
      | AtNode path page n \<Rightarrow> process_node compute E H path page n overlay stack rb)"

fun compute_root_with_overlay ::
  "nat \<Rightarrow> externals \<Rightarrow> 'u hash_builder \<Rightarrow> traversal_stack \<Rightarrow> 'u root_builder \<Rightarrow> 'u root_builder action" where
  "compute_root_with_overlay 0 E H stack rb = liftE Diverge"
| "compute_root_with_overlay (Suc fuel) E H stack rb =
     (case stack of
        [] \<Rightarrow> returnE rb
      | (position, overlay) # stack \<Rightarrow>
          bindE (process_position (compute_root_with_overlay fuel E H) E H position overlay stack rb) (\<lambda>(stack, rb).
            compute_root_with_overlay fuel E H stack rb))"

definition compute_state_root_with_overlay ::
  "nat \<Rightarrow> externals \<Rightarrow> 'u hash_builder \<Rightarrow> overlay_state \<Rightarrow> 'u overlayed_root action" where
  "compute_state_root_with_overlay fuel E H overlay =
     (if overlay_is_empty overlay
      then bindE (asks (\<lambda>w. cx_root_node_hash (w_cx w))) (\<lambda>h. returnE (overlayed_root_new_hash H h))
      else
        bindE (asks (\<lambda>w. cx_root_node_page_id (w_cx w))) (\<lambda>root.
          case root of
            None \<Rightarrow> bindE (liftE (add_overlay E H overlay root_builder_new)) (\<lambda>rb. returnE (rb_finalize H rb))
          | Some root_page_id \<Rightarrow>
              bindE (get_page root_page_id) (\<lambda>root_page.
              bindE (get_node E root_page 0) (\<lambda>root_node.
              bindE (liftE (raw_path_of_nibbles (node_prefix root_node))) (\<lambda>pre.
              bindE (compute_root_with_overlay fuel E H (push_node pre root_node root_page overlay []) root_builder_new) (\<lambda>rb.
                returnE (rb_finalize H rb)))))))"

end
