(* ===== verification/Root_Items.thy ===== *)
theory Root_Items
  imports Overlay_Root
begin

text \<open>
  What a sequence of calls on the hash builder stands for, and the part of the traversal of
  \<open>src/src/storage/overlay_root.rs\<close> that storage tries and the state trie share.

  A \<open>layer\<close> describes one of the two kinds of trie: the values of its keys, the shape of the stored
  trie, the changes that may be laid over it and their effect. \<open>covers R items kv\<close> says that the items
  stand for the content \<open>kv\<close> on the region \<open>R\<close> of keys: a leaf for its own key, a branch added by its
  hash for the stored subtrie that has this hash; and that their keys are increasing. The locale
  \<open>trie_layer\<close> has the laws of a layer and shows that the traversal covers the overlaid content.
\<close>

subsection \<open>Keys\<close>

text \<open>\<open>a\<close> lies before \<open>b\<close> and neither is a prefix of the other.\<close>

definition before :: "nibbles \<Rightarrow> nibbles \<Rightarrow> bool" where
  "before a b \<longleftrightarrow> a < b \<and> \<not> prefix a b"

lemma before_iff: "before a b \<longleftrightarrow> (\<exists>c x y r s. a = c @ x # r \<and> b = c @ y # s \<and> x < y)"
proof
  show "before a b \<Longrightarrow> \<exists>c x y r s. a = c @ x # r \<and> b = c @ y # s \<and> x < y"
  proof (induction a b rule: list_induct2')
    case (4 x xs y ys)
    show ?case
    proof (cases "x = y")
      case True
      then have "before xs ys" using 4(2) by (simp add: before_def)
      from 4(1) [OF this] obtain c u v r s where "xs = c @ u # r" "ys = c @ v # s" "u < v" by blast
      then show ?thesis using True by (intro exI [of _ "x # c"]) auto
    qed (use 4(2) in \<open>auto simp: before_def intro!: exI [of _ "[]"]\<close>)
  qed (auto simp: before_def)
  show "\<exists>c x y r s. a = c @ x # r \<and> b = c @ y # s \<and> x < y \<Longrightarrow> before a b"
    by (auto simp: before_def append_less_cancel)
qed

lemma before_extend: "before a b \<Longrightarrow> prefix a a' \<Longrightarrow> prefix b b' \<Longrightarrow> before a' b'"
  unfolding before_iff by (fastforce simp: prefix_def)

lemma before_take:
  assumes "before a b"
  shows "length b \<le> n \<Longrightarrow> before (take n a) b" "length a \<le> n \<Longrightarrow> before a (take n b)"
proof -
  obtain c x y r s where e: "a = c @ x # r" "b = c @ y # s" "x < y" using assms unfolding before_iff by blast
  have t: "take n (c @ z # q) = c @ z # take (n - length c - 1) q" if "length c < n" for z q
    using that by (cases "n - length c") auto
  show "before (take n a) b" if "length b \<le> n"
    unfolding before_iff using e that t [of x r] by (intro exI [of _ c] exI [of _ x] exI [of _ y] exI [of _ "take (n - length c - 1) r"] exI [of _ s]) simp
  show "before a (take n b)" if "length a \<le> n"
    unfolding before_iff using e that t [of y s] by (intro exI [of _ c] exI [of _ x] exI [of _ y] exI [of _ r] exI [of _ "take (n - length c - 1) s"]) simp
qed

lemma before_children: "x < y \<Longrightarrow> before (q @ x # r) (q @ y # s)"
  unfolding before_iff by blast

lemma before_irrefl: "before a b \<Longrightarrow> \<not> prefix a b \<and> \<not> prefix b a"
  unfolding before_def using prefix_not_less by auto

lemma before_cases: "prefix a b \<or> prefix b a \<or> before a b \<or> before b a"
  unfolding before_def by (metis linorder_less_linear prefix_order.refl)

lemma before_trans:
  assumes "before a b" and "before b c"
  shows "before a c"
proof -
  have "take (length a) b = take (length a) a" if "prefix a c"
    using assms that by (intro between_prefix [of a b c]) (auto simp: before_def prefix_def)
  then show ?thesis using assms by (auto simp: before_def) (metis append_take_drop_id prefixI)
qed

definition key64 :: "nibbles \<Rightarrow> bool" where
  "key64 k \<longleftrightarrow> length k = 64 \<and> nibble_list k"

lemma key64D [simp]: "key64 k \<Longrightarrow> length k = 64"
  by (simp add: key64_def)

lemma key64_ne: "key64 k \<Longrightarrow> k \<noteq> []"
  by (auto dest: key64D)

lemma key64_prefix_eq: "key64 k \<Longrightarrow> key64 k' \<Longrightarrow> prefix k k' \<Longrightarrow> k' = k"
  by (auto simp: prefix_def dest!: key64D)

lemma key64_take: "nibble_list p \<Longrightarrow> 64 \<le> length p \<Longrightarrow> key64 (take 64 p)"
  using nibble_list_subl [of p 0 64] unfolding key64_def by (simp add: subl_def)

lemma key64_nibble: "key64 (q @ b # s) \<Longrightarrow> is_nibble b"
  unfolding key64_def nibble_list_def by simp

subsection \<open>Items\<close>

primrec item_key :: "builder_item \<Rightarrow> nibbles" where
  "item_key (AddLeaf k b) = k"
| "item_key (AddBranch k h s) = k"

text \<open>The content below a path, and the content of a trie hung below a path.\<close>

definition below :: "nibbles \<Rightarrow> (nibbles \<Rightarrow> 'v option) \<Rightarrow> nibbles \<Rightarrow> 'v option" where
  "below c kv = (\<lambda>k. if key64 k \<and> prefix c k then kv k else None)"

definition hung :: "nibbles \<Rightarrow> (nibbles \<Rightarrow> 'v option) \<Rightarrow> nibbles \<Rightarrow> 'v option" where
  "hung c f = (\<lambda>k. if key64 k \<and> prefix c k then f (drop (length c) k) else None)"

type_synonym overlay_entry = "nibbles \<times> overlay_value option"

record 'v layer =
  ly_look :: "trie \<Rightarrow> nibbles \<Rightarrow> 'v option"
  ly_shape :: "nat \<Rightarrow> trie \<Rightarrow> bool"
  ly_repr :: "bytes \<Rightarrow> 'v \<Rightarrow> bool"
  ly_ok :: "overlay_entry \<Rightarrow> bool"
  ly_over :: "overlay_entry list \<Rightarrow> nibbles \<Rightarrow> 'v option \<Rightarrow> 'v option"

text \<open>The pointers in a node, and the pointers that the nodes in a page of \<open>S\<close> have.\<close>

definition node_pointers :: "node \<Rightarrow> pointer set" where
  "node_pointers n =
     (case node_kind n of AccountLeaf _ _ _ root \<Rightarrow> set_option root | Branch kids \<Rightarrow> {ptr. Some ptr \<in> set kids} | _ \<Rightarrow> {})"

definition stored_pointer :: "externals \<Rightarrow> world \<Rightarrow> page_id set \<Rightarrow> page_id \<Rightarrow> pointer \<Rightarrow> bool" where
  "stored_pointer E w S p ptr \<longleftrightarrow> p \<in> S \<and> (\<exists>i n. node_at E w p i = Some n \<and> ptr \<in> node_pointers n)"

text \<open>
  A pointer that is stored in a node carries the hash \<open>h\<close> and leads to \<open>t\<close>. The hash is not free: it is in the
  pages, next to the location of the subtrie.
\<close>

definition stored_by_hash :: "externals \<Rightarrow> world \<Rightarrow> page_id set \<Rightarrow> bytes \<Rightarrow> trie \<Rightarrow> bool" where
  "stored_by_hash E w S h t \<longleftrightarrow>
     (\<exists>p ptr q j. stored_pointer E w S p ptr \<and> x_as_hash E (ptr_rlp ptr) = Some h \<and> child_at w p ptr = Some (q, j) \<and> holds E w S q j t)"

fun item_den :: "externals \<Rightarrow> world \<Rightarrow> page_id set \<Rightarrow> 'v layer \<Rightarrow> builder_item \<Rightarrow> (nibbles \<Rightarrow> 'v option) \<Rightarrow> bool" where
  "item_den E w S L (AddLeaf k b) m \<longleftrightarrow> key64 k \<and> (\<exists>v. m = [k \<mapsto> v] \<and> ly_repr L b v)"
| "item_den E w S L (AddBranch c h stored) m \<longleftrightarrow>
     stored \<and> nibble_list c \<and> length c \<le> 64 \<and> (\<exists>t. stored_by_hash E w S h t \<and> ly_shape L (64 - length c) t \<and> m = hung c (ly_look L t))"

definition covers ::
  "externals \<Rightarrow> world \<Rightarrow> page_id set \<Rightarrow> 'v layer \<Rightarrow> nibbles set \<Rightarrow> builder_item list \<Rightarrow> (nibbles \<Rightarrow> 'v option) \<Rightarrow> bool" where
  "covers E w S L R items kv \<longleftrightarrow>
     (\<forall>i \<in> set items. item_key i \<in> R \<and> item_den E w S L i (below (item_key i) kv)) \<and>
     (\<forall>k \<in> R. key64 k \<and> kv k \<noteq> None \<longrightarrow> (\<exists>i \<in> set items. prefix (item_key i) k)) \<and>
     sorted_wrt before (map item_key items)"

text \<open>A branch that is added by its hash has a sibling, unless its key is one of \<open>X\<close>.\<close>

definition sibling :: "nibbles \<Rightarrow> nibbles \<Rightarrow> bool" where
  "sibling c k \<longleftrightarrow> c \<noteq> [] \<and> (\<exists>x. x \<noteq> last c \<and> prefix (butlast c @ [x]) k)"

definition hashes_paired :: "nibbles set \<Rightarrow> builder_item list \<Rightarrow> bool" where
  "hashes_paired X items \<longleftrightarrow>
     (\<forall>c h s. AddBranch c h s \<in> set items \<longrightarrow> c \<in> X \<or> (\<exists>i \<in> set items. sibling c (item_key i)))"

definition upward :: "nibbles set \<Rightarrow> bool" where
  "upward R \<longleftrightarrow> (\<forall>a b. a \<in> R \<and> prefix a b \<longrightarrow> b \<in> R)"

lemma upward_prefix [simp]: "upward {k. prefix c k}"
  by (auto simp: upward_def intro: prefix_order.trans)

lemma upward_UNIV [simp]: "upward UNIV"
  by (simp add: upward_def)

lemma upward_before [simp]: "upward {k. before k q}" "upward {k. before q k}"
  by (auto simp: upward_def intro: before_extend)

lemma upward_Int [simp]: "upward A \<Longrightarrow> upward B \<Longrightarrow> upward (A \<inter> B)"
  by (auto simp: upward_def)

lemma covers_cong:
  assumes "covers E w S L R items kv" and "upward R" and "\<And>k. k \<in> R \<Longrightarrow> key64 k \<Longrightarrow> kv' k = kv k"
  shows "covers E w S L R items kv'"
proof -
  have "below (item_key i) kv' = below (item_key i) kv" if "i \<in> set items" for i
    using assms that unfolding below_def upward_def covers_def by (intro ext) metis
  then show ?thesis using assms(1,3) unfolding covers_def by force
qed

lemma covers_append:
  assumes "covers E w S L R items kv" and "covers E w S L R' items' kv"
    and "R \<subseteq> R''" and "R' \<subseteq> R''" and "\<And>k. k \<in> R'' \<Longrightarrow> key64 k \<Longrightarrow> k \<in> R \<or> k \<in> R'"
    and "\<And>a b. a \<in> R \<Longrightarrow> b \<in> R' \<Longrightarrow> before a b"
  shows "covers E w S L R'' (items @ items') kv"
  using assms unfolding covers_def by (auto simp: sorted_wrt_append) blast+

lemma covers_nil: "(\<And>k. k \<in> R \<Longrightarrow> key64 k \<Longrightarrow> kv k = None) \<Longrightarrow> covers E w S L R [] kv"
  by (simp add: covers_def)

lemma covers_region:
  assumes "covers E w S L R items kv" and "\<And>i. i \<in> set items \<Longrightarrow> item_key i \<in> R'" and "R' \<inter> {k. key64 k} \<subseteq> R"
  shows "covers E w S L R' items kv"
  using assms unfolding covers_def by blast

lemma hashes_paired_append: "hashes_paired X items \<Longrightarrow> hashes_paired X items' \<Longrightarrow> hashes_paired X (items @ items')"
  unfolding hashes_paired_def by fastforce

lemma hashes_paired_leaves: "(\<And>i. i \<in> set items \<Longrightarrow> \<exists>k b. i = AddLeaf k b) \<Longrightarrow> hashes_paired X items"
  unfolding hashes_paired_def by fastforce

lemma hashes_paired_mono: "hashes_paired X items \<Longrightarrow> X \<subseteq> Y \<Longrightarrow> hashes_paired Y items"
  unfolding hashes_paired_def by blast

lemma branch_pointer: "node_kind n = Branch kids \<Longrightarrow> k < length kids \<Longrightarrow> kids ! k = Some ptr \<Longrightarrow> ptr \<in> node_pointers n"
  by (auto simp: node_pointers_def) (metis nth_mem)

subsection \<open>Running the traversal\<close>

definition add_items :: "builder_item list \<Rightarrow> (bytes \<rightharpoonup> 'u) \<Rightarrow> 'u root_builder \<Rightarrow> 'u root_builder" where
  "add_items items upd rb = rb\<lparr>rb_items := rb_items rb @ items, rb_storage := rb_storage rb ++ upd\<rparr>"

lemma add_items_append [simp]: "add_items items' upd' (add_items items upd rb) = add_items (items @ items') (upd ++ upd') rb"
  by (simp add: add_items_def)

lemma add_items_nil [simp]: "add_items [] Map.empty rb = rb"
  by (simp add: add_items_def)

lemma add_items_leaf: "rb_add_leaf k b rb = add_items [AddLeaf k b] Map.empty rb"
  and add_items_branch: "rb_add_branch k h s rb = add_items [AddBranch k h s] Map.empty rb"
  by (simp_all add: add_items_def rb_add_leaf_def rb_add_branch_def)

text \<open>With enough fuel, processing the elements \<open>es\<close> on top of the stack adds the items and leaves as much fuel as is asked for.\<close>

definition runs ::
  "externals \<Rightarrow> 'u hash_builder \<Rightarrow> world \<Rightarrow> traversal_stack \<Rightarrow> builder_item list \<Rightarrow> bool" where
  "runs E H w es items \<longleftrightarrow>
     (\<exists>n upd. \<forall>fuel \<ge> n. \<exists>fuel'. fuel \<le> fuel' + n \<and> (\<forall>stack rb.
        compute_root_with_overlay fuel E H (es @ stack) rb w =
        compute_root_with_overlay fuel' E H stack (add_items items upd rb) w))"

lemma runsE:
  assumes "runs E H w es items"
  obtains n upd where "\<And>fuel. n \<le> fuel \<Longrightarrow> \<exists>fuel'. fuel \<le> fuel' + n \<and> (\<forall>stack rb.
        compute_root_with_overlay fuel E H (es @ stack) rb w =
        compute_root_with_overlay fuel' E H stack (add_items items upd rb) w)"
  using assms unfolding runs_def by blast

lemma runs_nil [simp]: "runs E H w [] []"
  unfolding runs_def by (rule exI [of _ 0], rule exI [of _ Map.empty]) auto

lemma runs_append:
  assumes "runs E H w es items" and "runs E H w es' items'"
  shows "runs E H w (es @ es') (items @ items')"
proof -
  obtain n upd where 1: "\<And>fuel. n \<le> fuel \<Longrightarrow> \<exists>fuel'. fuel \<le> fuel' + n \<and> (\<forall>stack rb. compute_root_with_overlay fuel E H (es @ stack) rb w =
      compute_root_with_overlay fuel' E H stack (add_items items upd rb) w)" by (rule runsE [OF assms(1)]) blast
  obtain n' upd' where 2: "\<And>fuel. n' \<le> fuel \<Longrightarrow> \<exists>fuel'. fuel \<le> fuel' + n' \<and> (\<forall>stack rb. compute_root_with_overlay fuel E H (es' @ stack) rb w =
      compute_root_with_overlay fuel' E H stack (add_items items' upd' rb) w)" by (rule runsE [OF assms(2)]) blast
  have "\<exists>fuel'. fuel \<le> fuel' + (n + n') \<and> (\<forall>stack rb. compute_root_with_overlay fuel E H ((es @ es') @ stack) rb w =
      compute_root_with_overlay fuel' E H stack (add_items (items @ items') (upd ++ upd') rb) w)" if le: "n + n' \<le> fuel" for fuel
  proof -
    obtain f1 where f1: "fuel \<le> f1 + n" "\<And>stack rb. compute_root_with_overlay fuel E H (es @ stack) rb w =
      compute_root_with_overlay f1 E H stack (add_items items upd rb) w" using 1 [of fuel] le by auto
    then obtain f2 where "f1 \<le> f2 + n'" "\<And>stack rb. compute_root_with_overlay f1 E H (es' @ stack) rb w =
      compute_root_with_overlay f2 E H stack (add_items items' upd' rb) w" using 2 [of f1] le by auto
    then show ?thesis using f1 by (intro exI [of _ f2]) simp
  qed
  then show ?thesis unfolding runs_def by blast
qed

lemma runs_Cons: "runs E H w [e] items \<Longrightarrow> runs E H w es items' \<Longrightarrow> runs E H w (e # es) (items @ items')"
  using runs_append [of E H w "[e]" items es items'] by simp

lemma runs_step:
  assumes "\<And>f stack rb. N \<le> f \<Longrightarrow> process_position (compute_root_with_overlay f E H) E H pos ov stack rb w = (Ok (es @ stack, add_items items upd rb), w)"
    and "runs E H w es items'"
  shows "runs E H w [(pos, ov)] (items @ items')"
proof -
  obtain n upd' where 2: "\<And>fuel. n \<le> fuel \<Longrightarrow> \<exists>fuel'. fuel \<le> fuel' + n \<and> (\<forall>stack rb. compute_root_with_overlay fuel E H (es @ stack) rb w =
      compute_root_with_overlay fuel' E H stack (add_items items' upd' rb) w)" by (rule runsE [OF assms(2)]) blast
  have "\<exists>fuel'. fuel \<le> fuel' + (Suc N + n) \<and> (\<forall>stack rb. compute_root_with_overlay fuel E H ([(pos, ov)] @ stack) rb w =
      compute_root_with_overlay fuel' E H stack (add_items (items @ items') (upd ++ upd') rb) w)" if le: "Suc N + n \<le> fuel" for fuel
  proof -
    obtain f where f: "fuel = Suc f" "N \<le> f" "n \<le> f" using le by (cases fuel) auto
    obtain f2 where "f \<le> f2 + n" "\<And>stack rb. compute_root_with_overlay f E H (es @ stack) rb w =
      compute_root_with_overlay f2 E H stack (add_items items' upd' rb) w" using 2 [OF f(3)] by blast
    then show ?thesis using f assms(1) [OF f(2)] by (intro exI [of _ f2]) (simp add: action_simps)
  qed
  then show ?thesis unfolding runs_def by blast
qed

text \<open>A traversal that starts with the elements and nothing else returns.\<close>

lemma runs_complete:
  assumes "runs E H w es items"
  obtains n upd where "\<And>fuel rb. n \<le> fuel \<Longrightarrow> compute_root_with_overlay fuel E H es rb w = (Ok (add_items items upd rb), w)"
proof -
  obtain n upd where 1: "\<And>fuel. n \<le> fuel \<Longrightarrow> \<exists>fuel'. fuel \<le> fuel' + n \<and> (\<forall>stack rb. compute_root_with_overlay fuel E H (es @ stack) rb w =
      compute_root_with_overlay fuel' E H stack (add_items items upd rb) w)" by (rule runsE [OF assms]) blast
  have "compute_root_with_overlay fuel E H es rb w = (Ok (add_items items upd rb), w)" if le: "Suc n \<le> fuel" for fuel rb
  proof -
    obtain f where f: "fuel \<le> f + n" "\<And>stack rb. compute_root_with_overlay fuel E H (es @ stack) rb w =
      compute_root_with_overlay f E H stack (add_items items upd rb) w" using 1 [of fuel] le by auto
    then obtain g where "f = Suc g" using le by (cases f) auto
    then show ?thesis using f(2) [of "[]" rb] by (simp add: action_simps)
  qed
  then show thesis by (rule that)
qed

subsection \<open>The children of a branch\<close>

definition child_element :: "page_id \<Rightarrow> bool \<Rightarrow> raw_path \<Rightarrow> pointer option \<Rightarrow> overlay_state \<Rightarrow> traversal_stack" where
  "child_element page can path child ov =
     (case child of
        Some ptr \<Rightarrow> [(AtPointer path page ptr can, ov)]
      | None \<Rightarrow> if overlay_is_empty ov then [] else [(NoPosition, ov)])"

lemma push_children_eq:
  "push_children page can data stack = concat (map (\<lambda>(path, child, ov). child_element page can path child ov) data) @ stack"
  unfolding push_children_def foldr_conv_fold [symmetric]
  by (induction data) (auto simp: child_element_def push_pointer_def push_overlay_def split: option.splits)

definition live_child :: "pointer option \<Rightarrow> overlay_entry list \<Rightarrow> bool" where
  "live_child child es \<longleftrightarrow> (child \<noteq> None \<and> es = []) \<or> (\<exists>p v es'. es = (p, Some v) # es')"

abbreviation nib :: "nat \<Rightarrow> byte" where
  "nib j \<equiv> of_nat j"

lemma nib_less: "i < j \<Longrightarrow> j < 16 \<Longrightarrow> nib i < nib j"
  by (simp add: word_less_nat_alt unat_of_nat)

lemma is_nibble_nib: "j < 16 \<Longrightarrow> is_nibble (nib j)"
  by (simp add: is_nibble_def word_le_nat_alt unat_of_nat)

definition entries_at :: "nibbles \<Rightarrow> overlay_entry list \<Rightarrow> overlay_entry list" where
  "entries_at q es = filter (\<lambda>e. prefix q (fst e)) es"

lemma entries_at_after:
  assumes "idx < j" and "j < 16"
  shows "entries_at (q @ [nib j]) (filter (\<lambda>e. q @ [nib idx] < fst e \<and> \<not> prefix (q @ [nib idx]) (fst e)) es) = entries_at (q @ [nib j]) es"
proof -
  have "q @ [nib idx] < p \<and> \<not> prefix (q @ [nib idx]) p" if "prefix (q @ [nib j]) p" for p
    using before_extend [OF before_children [OF nib_less [OF assms], of q "[]" "[]"] _ that] by (simp add: before_def)
  then show ?thesis unfolding entries_at_def by (auto simp: filter_filter intro!: filter_cong)
qed

text \<open>
  What the loop collects for the children from \<open>idx\<close> on: the stack elements of each, with the part of the
  overlay under it, and how many of them are bound to have a descendant.
\<close>

definition child_elements :: "page_id \<Rightarrow> bool \<Rightarrow> child_data \<Rightarrow> traversal_stack" where
  "child_elements page can data = concat (map (\<lambda>(path, child, ov). child_element page can path child ov) data)"

definition child_slices :: "nibbles \<Rightarrow> nat \<Rightarrow> pointer option list \<Rightarrow> overlay_entry list \<Rightarrow> child_data \<Rightarrow> nat \<Rightarrow> bool" where
  "child_slices q idx cs es data n \<longleftrightarrow>
     (\<exists>ovs. (\<forall>j. idx \<le> j \<and> j < idx + length cs \<longrightarrow> ov_wf (ovs j) \<and> entries (ovs j) = entries_at (q @ [nib j]) es) \<and>
       n = length (filter (\<lambda>j. live_child (cs ! (j - idx)) (entries (ovs j))) [idx..<idx + length cs]) \<and>
       (\<forall>page can. child_elements page can data =
          concat (map (\<lambda>j. child_element page can (path_of (q @ [nib j])) (cs ! (j - idx)) (ovs j)) [idx..<idx + length cs])))"

lemma child_slices_Cons:
  assumes "child_slices q (Suc idx) cs es data n" and "ov_wf m" and "entries m = entries_at (q @ [nib idx]) es"
    and "\<And>page can. child_elements page can data' = child_element page can (path_of (q @ [nib idx])) c m @ child_elements page can data"
  shows "child_slices q idx (c # cs) es data' ((if live_child c (entries m) then 1 else 0) + n)"
proof -
  have upt: "[idx..<idx + length (c # cs)] = idx # [Suc idx..<Suc idx + length cs]"
    using upt_conv_Cons [of idx "idx + length (c # cs)"] by (simp del: upt_Suc)
  have nth: "(c # cs) ! (j - idx) = cs ! (j - Suc idx)" if "Suc idx \<le> j" for j
    using that by (metis Suc_diff_Suc Suc_le_eq nth_Cons_Suc)
  obtain ovs where ih: 
      "\<And>j. Suc idx \<le> j \<Longrightarrow> j < Suc idx + length cs \<Longrightarrow> ov_wf (ovs j) \<and> entries (ovs j) = entries_at (q @ [nib j]) es"
      "n = length (filter (\<lambda>j. live_child (cs ! (j - Suc idx)) (entries (ovs j))) [Suc idx..<Suc idx + length cs])"
      "\<And>page can. child_elements page can data =
       concat (map (\<lambda>j. child_element page can (path_of (q @ [nib j])) (cs ! (j - Suc idx)) (ovs j)) [Suc idx..<Suc idx + length cs])"
    using assms(1) unfolding child_slices_def by blast
  define ovs' where "ovs' = ovs(idx := m)"
  have tail: "live_child ((c # cs) ! (j - idx)) (entries (ovs' j)) = live_child (cs ! (j - Suc idx)) (entries (ovs j))"
      "child_element page can (path_of (q @ [nib j])) ((c # cs) ! (j - idx)) (ovs' j) = child_element page can (path_of (q @ [nib j])) (cs ! (j - Suc idx)) (ovs j)"
    if "j \<in> set [Suc idx..<Suc idx + length cs]" for j page can
  proof -
    have "Suc idx \<le> j" using that by auto
    then show "live_child ((c # cs) ! (j - idx)) (entries (ovs' j)) = live_child (cs ! (j - Suc idx)) (entries (ovs j))"
      "child_element page can (path_of (q @ [nib j])) ((c # cs) ! (j - idx)) (ovs' j) = child_element page can (path_of (q @ [nib j])) (cs ! (j - Suc idx)) (ovs j)"
      using nth by (auto simp: ovs'_def)
  qed
  have "ov_wf (ovs' j) \<and> entries (ovs' j) = entries_at (q @ [nib j]) es" if "idx \<le> j" "j < idx + length (c # cs)" for j
    using ih(1) [of j] that assms(2,3) by (cases "j = idx") (auto simp: ovs'_def)
  moreover have "ovs' idx = m" by (simp add: ovs'_def)
  moreover have "filter (\<lambda>j. live_child ((c # cs) ! (j - idx)) (entries (ovs' j))) [Suc idx..<Suc idx + length cs] =
      filter (\<lambda>j. live_child (cs ! (j - Suc idx)) (entries (ovs j))) [Suc idx..<Suc idx + length cs]"
    by (rule filter_cong [OF refl tail(1)])
  moreover have "map (\<lambda>j. child_element page can (path_of (q @ [nib j])) ((c # cs) ! (j - idx)) (ovs' j)) [Suc idx..<Suc idx + length cs] =
      map (\<lambda>j. child_element page can (path_of (q @ [nib j])) (cs ! (j - Suc idx)) (ovs j)) [Suc idx..<Suc idx + length cs]" for page can
    by (rule map_cong [OF refl tail(2)])
  ultimately show ?thesis
    unfolding child_slices_def upt ih(2) list.map filter.simps concat.simps assms(4) ih(3)
    by (intro exI [of _ ovs']) (simp del: upt_Suc map_eq_conv)
qed

text \<open>
  The overlay shrinks along the loop, but what is left of it under the remaining children is what the
  overlay has there at the beginning.
\<close>

lemma child_slices_cong:
  assumes "child_slices q idx cs es data n" and "\<And>j. idx \<le> j \<Longrightarrow> j < idx + length cs \<Longrightarrow> entries_at (q @ [nib j]) es' = entries_at (q @ [nib j]) es"
  shows "child_slices q idx cs es' data n"
proof -
  obtain ovs where "\<forall>j. idx \<le> j \<and> j < idx + length cs \<longrightarrow> ov_wf (ovs j) \<and> entries (ovs j) = entries_at (q @ [nib j]) es"
    "n = length (filter (\<lambda>j. live_child (cs ! (j - idx)) (entries (ovs j))) [idx..<idx + length cs])"
    "\<forall>page can. child_elements page can data =
       concat (map (\<lambda>j. child_element page can (path_of (q @ [nib j])) (cs ! (j - idx)) (ovs j)) [idx..<idx + length cs])"
    using assms(1) unfolding child_slices_def by blast
  then show ?thesis using assms(2) unfolding child_slices_def by (intro exI [of _ ovs]) simp
qed

lemma branch_child_data_eq:
  assumes "ov_wf ov" and "nibble_list q" and "length q < 128" and "idx + length cs \<le> 16"
  shows "\<exists>data n. branch_child_data (path_of q) idx cs ov = (Ok (data, n) :: (_, 'e) result) \<and> child_slices q idx cs (entries ov) data n"
  using assms
proof (induction cs arbitrary: idx ov)
  case Nil
  have "child_slices q idx [] (entries ov) [] 0" unfolding child_slices_def by (rule exI [of _ "\<lambda>_. ov"]) (auto simp: child_elements_def)
  then show ?case by simp
next
  case (Cons c cs)
  have le: "Suc idx + length cs \<le> 16" "idx < 16" using Cons.prems(4) by auto
  have q: "nibble_list (q @ [nib idx])" using Cons.prems(2,3) is_nibble_nib [OF le(2)] by (simp add: nibble_list_def)
  show ?case
  proof (cases "c = None \<and> entries ov = []")
    case True
    then have e: "overlay_is_empty ov" using Cons.prems(1) by (simp add: overlay_is_empty_eq)
    obtain data n where ih: "branch_child_data (path_of q) (Suc idx) cs ov = (Ok (data, n) :: (_, 'e) result)" "child_slices q (Suc idx) cs (entries ov) data n"
      using Cons.IH [OF Cons.prems(1,2,3) le(1)] by blast
    have "child_slices q idx (c # cs) (entries ov) data ((if live_child c (entries ov) then 1 else 0) + n)"
      by (rule child_slices_Cons [OF ih(2) Cons.prems(1)]) (use True e in \<open>simp_all add: entries_at_def child_element_def\<close>)
    then show ?thesis using ih(1) True e by (simp add: live_child_def)
  next
    case False
    obtain b m a where s: "sub_slice_by_prefix (path_of (q @ [nib idx])) ov = (Ok (b, m, a) :: (_, 'e) result)" "ov_wf m" "ov_wf a"
      "entries m = entries_at (q @ [nib idx]) (entries ov)"
      "entries a = filter (\<lambda>e. q @ [nib idx] < fst e \<and> \<not> prefix (q @ [nib idx]) (fst e)) (entries ov)"
      using sub_slice_by_prefix_eq [OF Cons.prems(1) q] unfolding entries_at_def by metis
    obtain data n where ih: "branch_child_data (path_of q) (Suc idx) cs a = (Ok (data, n) :: (_, 'e) result)" "child_slices q (Suc idx) cs (entries a) data n"
      using Cons.IH [OF s(3) Cons.prems(2,3) le(1)] by blast
    have after: "child_slices q (Suc idx) cs (entries ov) data n"
      by (rule child_slices_cong [OF ih(2)], unfold s(5), rule entries_at_after [symmetric]) (use le in auto)
    have push: "raw_path_push (nib idx) (path_of q) = (Ok (path_of (q @ [nib idx])) :: (_, 'e) result)"
      using Cons.prems(2,3) is_nibble_nib [OF le(2)] by (simp add: raw_path_push_eq)
    have "child_slices q idx (c # cs) (entries ov) ((path_of (q @ [nib idx]), c, m) # data) ((if live_child c (entries m) then 1 else 0) + n)"
      by (rule child_slices_Cons [OF after s(2,4)]) (simp add: child_elements_def)
    moreover have "branch_child_data (path_of q) idx (c # cs) ov =
        (Ok ((path_of (q @ [nib idx]), c, m) # data, (if live_child c (entries m) then 1 else 0) + n) :: (_, 'e) result)"
      using False Cons.prems(1) s push ih(1)
      by (simp add: overlay_is_empty_eq overlay_first_eq) (auto simp: live_child_def split: list.splits option.splits)
    ultimately show ?thesis by blast
  qed
qed

subsection \<open>Layers\<close>

primrec trie_prefix :: "trie \<Rightarrow> nibbles" where
  "trie_prefix (SLeaf pre v) = pre"
| "trie_prefix (ALeaf pre a root) = pre"
| "trie_prefix (Br pre cs) = pre"

primrec is_Br :: "trie \<Rightarrow> bool" where
  "is_Br (SLeaf pre v) \<longleftrightarrow> False"
| "is_Br (ALeaf pre a root) \<longleftrightarrow> False"
| "is_Br (Br pre cs) \<longleftrightarrow> True"

text \<open>
  The changes fit the layer, and those behind a 64-nibble key (the storage of an account) belong to a key
  that the overlay or the stored content \<open>m\<close> has.
\<close>

definition valid_entries :: "'v layer \<Rightarrow> overlay_entry list \<Rightarrow> (nibbles \<Rightarrow> 'v option) \<Rightarrow> bool" where
  "valid_entries L es m \<longleftrightarrow>
     (\<forall>e \<in> set es. ly_ok L e \<and> (64 < length (fst e) \<longrightarrow> m (take 64 (fst e)) \<noteq> None \<or> take 64 (fst e) \<in> fst ` set es))"

definition overlaid :: "'v layer \<Rightarrow> overlay_entry list \<Rightarrow> (nibbles \<Rightarrow> 'v option) \<Rightarrow> nibbles \<Rightarrow> 'v option" where
  "overlaid L es m = (\<lambda>k. if key64 k then ly_over L es k (m k) else None)"

lemma valid_restrict:
  assumes "valid_entries L es m" and "set es' \<subseteq> set es"
    and "\<And>e. e \<in> set es' \<Longrightarrow> 64 < length (fst e) \<Longrightarrow> m (take 64 (fst e)) \<noteq> None \<Longrightarrow> m' (take 64 (fst e)) \<noteq> None"
    and "\<And>e d. e \<in> set es' \<Longrightarrow> 64 < length (fst e) \<Longrightarrow> d \<in> set es \<Longrightarrow> fst d = take 64 (fst e) \<Longrightarrow> d \<in> set es'"
  shows "valid_entries L es' m'"
  unfolding valid_entries_def
proof (intro ballI conjI impI)
  fix e
  assume e: "e \<in> set es'"
  then have old: "ly_ok L e" "64 < length (fst e) \<Longrightarrow> m (take 64 (fst e)) \<noteq> None \<or> take 64 (fst e) \<in> fst ` set es"
    using assms(1,2) unfolding valid_entries_def by auto
  then show "ly_ok L e" by simp
  assume l: "64 < length (fst e)"
  show "m' (take 64 (fst e)) \<noteq> None \<or> take 64 (fst e) \<in> fst ` set es'"
    using old(2) [OF l]
  proof
    assume "take 64 (fst e) \<in> fst ` set es"
    then obtain d where d: "d \<in> set es" "fst d = take 64 (fst e)" by (metis imageE)
    then have "d \<in> set es'" by (rule assms(4) [OF e l])
    then show ?thesis unfolding d(2) [symmetric] by blast
  qed (use assms(3) [OF e l] in blast)
qed

lemma take_less_iff: "length q \<le> n \<Longrightarrow> n \<le> length p \<Longrightarrow> take n p < q \<longleftrightarrow> p < (q :: nibbles)"
proof (induction q arbitrary: n p)
  case (Cons x q)
  then show ?case by (cases n; cases p) auto
qed simp

lemma take_prefix_iff: "length q \<le> n \<Longrightarrow> prefix q (take n p) \<longleftrightarrow> prefix q p"
  by (metis prefix_order.trans take_is_prefix prefix_length_prefix length_take min_absorb2 min.cobounded2 nat_le_linear take_all_iff)

lemma entries_at_at: "prefix q k \<Longrightarrow> entries_at k (entries_at q es) = entries_at k es"
  unfolding entries_at_def by (auto simp: filter_filter intro!: filter_cong intro: prefix_order.trans)

lemma entries_at_subset: "set (entries_at q es) \<subseteq> set es"
  by (auto simp: entries_at_def)

locale trie_layer =
  fixes E :: externals and H :: "'u hash_builder" and w :: world and S :: "page_id set" and L :: "'v layer" and env :: bool
  assumes ok_cases: "ly_ok L e \<Longrightarrow> (fst e = [] \<and> (\<exists>a. snd e = Some (OAccount a))) \<or> 64 \<le> length (fst e)"
    and ok_no_hash: "ly_ok L e \<Longrightarrow> snd e \<noteq> Some (OHash h)"
    and over_local: "ly_over L es k x = ly_over L (entries_at k es) k x"
    and over_nil: "ly_over L [] k x = x"
    and over_live: "valid_entries L ((path, Some v) # es) m \<Longrightarrow> sorted_wrt (<) (map fst ((path, Some v) # es)) \<Longrightarrow> path \<noteq> [] \<Longrightarrow>
      ly_over L ((path, Some v) # es) (take 64 path) (m (take 64 path)) \<noteq> None"
    and over_hit: "valid_entries L ((path, val) # es) m \<Longrightarrow> length path = 64 \<Longrightarrow> \<forall>a. val \<noteq> Some (OAccount a) \<Longrightarrow>
      ly_over L ((path, val) # es) path x = ly_over L ((path, val) # es) path y"
    and shape_Br: "ly_shape L n (Br pre cs) \<Longrightarrow> length pre < n \<and> length cs = 16 \<and> (\<exists>t. Some t \<in> set cs) \<and>
      (\<forall>t. Some t \<in> set cs \<longrightarrow> ly_shape L (n - length pre - 1) t)"
    and shape_leaf: "ly_shape L n t \<Longrightarrow> \<not> is_Br t \<Longrightarrow> length (trie_prefix t) = n"
    and look_Br: "ly_look L (Br pre cs) r = (case strip_prefix pre r of
      Some (b # s) \<Rightarrow> (if unat b < length cs then case cs ! unat b of None \<Rightarrow> None | Some t \<Rightarrow> ly_look L t s else None) | _ \<Rightarrow> None)"
    and look_leaf: "ly_shape L n t \<Longrightarrow> \<not> is_Br t \<Longrightarrow> length r = n \<Longrightarrow> ly_look L t r \<noteq> None \<longleftrightarrow> r = trie_prefix t"
    and add_law: "env \<Longrightarrow> ov_wf ov \<Longrightarrow> valid_entries L (entries ov) Map.empty \<Longrightarrow>
      \<exists>items upd. (\<forall>rb. add_overlay E H ov rb = Ok (add_items items upd rb)) \<and>
        (\<forall>i \<in> set items. \<exists>k b. i = AddLeaf k b \<and> (\<exists>e \<in> set (entries ov). fst e \<noteq> [] \<and> k = take 64 (fst e))) \<and>
        covers E w S L UNIV items (overlaid L (entries ov) Map.empty)"
    and leaf_law: "env \<Longrightarrow> ly_shape L (64 - length c) t \<Longrightarrow> \<not> is_Br t \<Longrightarrow> holds E w S p i t \<Longrightarrow> node_at E w p i = Some nd \<Longrightarrow>
      key64 (c @ node_prefix nd) \<Longrightarrow> ov_wf ov \<Longrightarrow> valid_entries L (entries ov) (hung c (ly_look L t)) \<Longrightarrow>
      \<forall>e \<in> set (entries ov). prefix (c @ node_prefix nd) (fst e) \<Longrightarrow>
      \<exists>N items upd. (\<forall>f \<ge> N. \<forall>stack rb. process_node_kind (compute_root_with_overlay f E H) E H (path_of (c @ node_prefix nd)) p nd ov stack rb w =
          (Ok (stack, add_items items upd rb), w)) \<and>
        (\<forall>i \<in> set items. \<exists>k b. i = AddLeaf k b) \<and>
        covers E w S L {k. prefix (c @ node_prefix nd) k} items (overlaid L (entries ov) (hung c (ly_look L t)))"
begin

lemma overlaid_at:
  assumes "prefix q k" and "m' k = m k"
  shows "overlaid L (entries_at q es) m' k = overlaid L es m k"
  unfolding overlaid_def using over_local [of "entries_at q es" k] over_local [of es k] entries_at_at [OF assms(1)] assms(2) by simp

lemma overlaid_cong:
  assumes "entries_at k es' = entries_at k es" and "m' k = m k"
  shows "overlaid L es' m' k = overlaid L es m k"
  unfolding overlaid_def using over_local [of es' k] over_local [of es k] assms by simp

text \<open>An overlay on its own.\<close>

lemma overlay_covered:
  assumes env and "ov_wf ov" and "valid_entries L (entries ov) Map.empty"
    and "\<And>e. e \<in> set (entries ov) \<Longrightarrow> fst e \<noteq> [] \<Longrightarrow> take 64 (fst e) \<in> R"
  obtains items upd where "\<And>rb. add_overlay E H ov rb = Ok (add_items items upd rb)" "runs E H w [(NoPosition, ov)] items"
    "\<And>X. hashes_paired X items" "covers E w S L R items (overlaid L (entries ov) Map.empty)"
proof -
  obtain items upd where i: "\<And>rb. add_overlay E H ov rb = Ok (add_items items upd rb)"
    "\<And>i. i \<in> set items \<Longrightarrow> \<exists>k b. i = AddLeaf k b \<and> (\<exists>e \<in> set (entries ov). fst e \<noteq> [] \<and> k = take 64 (fst e))"
    "covers E w S L UNIV items (overlaid L (entries ov) Map.empty)"
    using add_law [OF assms(1-3)] by blast
  have "item_key i \<in> R" if "i \<in> set items" for i using i(2) [OF that] assms(4) by auto
  then have "covers E w S L R items (overlaid L (entries ov) Map.empty)" by (intro covers_region [OF i(3)]) auto
  moreover have "hashes_paired X items" for X by (rule hashes_paired_leaves) (use i(2) in blast)
  moreover have "runs E H w [(NoPosition, ov)] (items @ [])"
    by (rule runs_step [where es = "[]" and upd = upd and N = 0]) (simp_all add: process_position_def action_simps i(1))
  ultimately show thesis using that [of items upd] i(1) by simp
qed

text \<open>The content of a stored subtrie lies under the path of its root node.\<close>

lemma look_prefix:
  assumes "ly_shape L n t" and "length r = n" and "ly_look L t r \<noteq> None"
  shows "prefix (trie_prefix t) r"
proof (cases t)
  case (Br pre cs)
  have "strip_prefix pre r \<noteq> None" using assms(3) by (auto simp: Br look_Br split: option.splits)
  then show ?thesis by (auto simp: Br strip_prefix_Some prefix_def)
qed (use look_leaf [OF assms(1) _ assms(2)] assms(3) in auto)

lemma under_prefix:
  assumes "ly_shape L (64 - length c) t" and "hung c (ly_look L t) k \<noteq> None"
  shows "prefix (c @ trie_prefix t) k"
proof -
  have k: "key64 k" "prefix c k" "ly_look L t (drop (length c) k) \<noteq> None" using assms(2) by (auto simp: hung_def split: if_splits)
  then have "prefix (trie_prefix t) (drop (length c) k)" by (intro look_prefix [OF assms(1)]) auto
  then show ?thesis using k(2) by (auto simp: prefix_def)
qed

text \<open>
  The changes of a node's overlay that lie before and after the node: they are disjoint from it, they
  are valid on their own, and they and the content below the node make up the whole.
\<close>

lemma entry_aside:
  assumes "ly_ok L e" and "length q \<le> 64" and "fst e \<noteq> []"
  shows "fst e < q \<Longrightarrow> before (take 64 (fst e)) q" "\<not> fst e < q \<Longrightarrow> \<not> prefix q (fst e) \<Longrightarrow> before q (take 64 (fst e))"
proof -
  have l: "64 \<le> length (fst e)" using ok_cases [OF assms(1)] assms(3) by auto
  note iff = take_less_iff [OF assms(2) l] take_prefix_iff [OF assms(2), of "fst e"]
  have "q = take 64 (fst e)" if "prefix (take 64 (fst e)) q"
    using that l assms(2) by (auto simp: prefix_def dest: arg_cong [of _ _ length])
  then show "before (take 64 (fst e)) q" if "fst e < q" using that iff(1) by (auto simp: before_def)
  show "before q (take 64 (fst e))" if "\<not> fst e < q" "\<not> prefix q (fst e)"
    using that iff by (auto simp: before_def not_less le_less)
qed

lemma valid_aside:
  assumes "valid_entries L es m" and "\<And>k. m k \<noteq> None \<Longrightarrow> prefix q k" and "length q \<le> 64"
  shows "valid_entries L (filter (\<lambda>e. fst e < q) es) Map.empty"
    "valid_entries L (filter (\<lambda>e. q < fst e \<and> \<not> prefix q (fst e)) es) Map.empty"
    "valid_entries L (entries_at q es) m"
proof -
  have iff: "take 64 p < q \<longleftrightarrow> p < q" "prefix q (take 64 p) \<longleftrightarrow> prefix q p"
    "q < take 64 p \<and> \<not> prefix q (take 64 p) \<longleftrightarrow> q < p \<and> \<not> prefix q p"
    if "64 < length p" for p
  proof -
    show 1: "take 64 p < q \<longleftrightarrow> p < q" "prefix q (take 64 p) \<longleftrightarrow> prefix q p"
      using take_less_iff [of q 64 p] take_prefix_iff [of q 64 p] assms(3) that by simp_all
    have "q < x \<and> \<not> prefix q x \<longleftrightarrow> \<not> x < q \<and> \<not> prefix q x" for x by (metis linorder_less_linear order_less_asym prefix_order.refl)
    then show "q < take 64 p \<and> \<not> prefix q (take 64 p) \<longleftrightarrow> q < p \<and> \<not> prefix q p" using 1 by metis
  qed
  show "valid_entries L (filter (\<lambda>e. fst e < q) es) Map.empty"
  proof (rule valid_restrict [OF assms(1)])
    fix e
    assume e: "e \<in> set (filter (\<lambda>e. fst e < q) es)" "64 < length (fst e)"
    then show "Map.empty (take 64 (fst e)) \<noteq> None" if "m (take 64 (fst e)) \<noteq> None"
      using assms(2) [OF that] prefix_not_less iff(1) [OF e(2)] by auto
    show "d \<in> set (filter (\<lambda>e. fst e < q) es)" if "d \<in> set es" "fst d = take 64 (fst e)" for d
      using that e iff(1) [OF e(2)] by simp
  qed simp
  show "valid_entries L (filter (\<lambda>e. q < fst e \<and> \<not> prefix q (fst e)) es) Map.empty"
  proof (rule valid_restrict [OF assms(1)])
    fix e
    assume e: "e \<in> set (filter (\<lambda>e. q < fst e \<and> \<not> prefix q (fst e)) es)" "64 < length (fst e)"
    then show "Map.empty (take 64 (fst e)) \<noteq> None" if "m (take 64 (fst e)) \<noteq> None"
      using assms(2) [OF that] iff(2) [OF e(2)] by simp
    show "d \<in> set (filter (\<lambda>e. q < fst e \<and> \<not> prefix q (fst e)) es)" if "d \<in> set es" "fst d = take 64 (fst e)" for d
      using that e iff(3) [OF e(2)] by simp
  qed simp
  show "valid_entries L (entries_at q es) m"
    by (rule valid_restrict [OF assms(1)]) (auto simp: entries_at_def iff(2))
qed

end

subsection \<open>The traversal covers the overlaid content\<close>

context trie_layer
begin

lemma covers_around:
  assumes "length q \<le> 64" and "prefix c q" and "\<And>k. m k \<noteq> None \<Longrightarrow> prefix q k"
    and b: "covers E w S L ({k. prefix c k} \<inter> {k. before k q}) ib (overlaid L (filter (\<lambda>e. fst e < q) es) Map.empty)"
    and i: "covers E w S L {k. prefix q k} im (overlaid L (entries_at q es) m)"
    and a: "covers E w S L ({k. prefix c k} \<inter> {k. before q k}) ia (overlaid L (filter (\<lambda>e. q < fst e \<and> \<not> prefix q (fst e)) es) Map.empty)"
  shows "covers E w S L {k. prefix c k} (ib @ im @ ia) (overlaid L es m)"
proof -
  have part: "key64 k \<Longrightarrow> before k q \<or> prefix q k \<or> before q k" for k
    using before_cases [of k q] assms(1) by (auto simp: prefix_def)
  have "covers E w S L ({k. prefix c k} \<inter> {k. before k q}) ib (overlaid L es m)"
  proof (rule covers_cong [OF b])
    fix k
    assume k: "k \<in> {k. prefix c k} \<inter> {k. before k q}"
    have "p < q" if "prefix k p" for p using before_extend [of k q p q] k that by (simp add: before_def)
    then have "entries_at k es = entries_at k (filter (\<lambda>e. fst e < q) es)"
      unfolding entries_at_def by (auto simp: filter_filter intro!: filter_cong)
    moreover have "m k = None" using assms(3) [of k] before_irrefl [of k q] k by blast
    ultimately show "overlaid L es m k = overlaid L (filter (\<lambda>e. fst e < q) es) Map.empty k" by (intro overlaid_cong) auto
  qed simp
  moreover have "covers E w S L {k. prefix q k} im (overlaid L es m)"
    by (rule covers_cong [OF i]) (auto simp: overlaid_at)
  moreover have "covers E w S L ({k. prefix c k} \<inter> {k. before q k}) ia (overlaid L es m)"
  proof (rule covers_cong [OF a])
    fix k
    assume k: "k \<in> {k. prefix c k} \<inter> {k. before q k}"
    have "q < p \<and> \<not> prefix q p" if "prefix k p" for p using before_extend [of q k q p] k that by (simp add: before_def)
    then have "entries_at k es = entries_at k (filter (\<lambda>e. q < fst e \<and> \<not> prefix q (fst e)) es)"
      unfolding entries_at_def by (auto simp: filter_filter intro!: filter_cong)
    moreover have "m k = None" using assms(3) [of k] before_irrefl [of q k] k by blast
    ultimately show "overlaid L es m k = overlaid L (filter (\<lambda>e. q < fst e \<and> \<not> prefix q (fst e)) es) Map.empty k" by (intro overlaid_cong) auto
  qed simp
  ultimately have A: "covers E w S L ({k. prefix q k} \<union> {k. prefix c k} \<inter> {k. before q k}) (im @ ia) (overlaid L es m)"
    "covers E w S L ({k. prefix c k} \<inter> {k. before k q}) ib (overlaid L es m)"
    by (auto intro!: covers_append intro: before_extend)
  show ?thesis
  proof (rule covers_append [OF A(2,1)])
    show "{k. prefix q k} \<union> {k. prefix c k} \<inter> {k. before q k} \<subseteq> {k. prefix c k}"
      using assms(2) by (auto intro: prefix_order.trans)
    show "before x y" if "x \<in> {k. prefix c k} \<inter> {k. before k q}" "y \<in> {k. prefix q k} \<union> {k. prefix c k} \<inter> {k. before q k}" for x y
      using that before_trans [of x q y] before_extend [of x q x y] by auto
  qed (use part in auto)
qed


text \<open>The overlay around a node: what its kind does with the changes below it decides.\<close>

lemma node_around:
  assumes env and shape: "ly_shape L (64 - length c) t" and q: "q = c @ trie_prefix t" "length q \<le> 64" "nibble_list q"
    and ov: "ov_wf ov" "\<And>e. e \<in> set (entries ov) \<Longrightarrow> prefix c (fst e)" "valid_entries L (entries ov) (hung c (ly_look L t))"
    and kind: "\<And>mid. ov_wf mid \<Longrightarrow> entries mid = entries_at q (entries ov) \<Longrightarrow>
      \<exists>N es i1 u1 i2. (\<forall>f \<ge> N. \<forall>stack rb. process_node_kind (compute_root_with_overlay f E H) E H (path_of q) p nd mid stack rb w =
          (Ok (es @ stack, add_items i1 u1 rb), w)) \<and> runs E H w es i2 \<and>
        covers E w S L {k. prefix q k} (i1 @ i2) (overlaid L (entries mid) (hung c (ly_look L t))) \<and> hashes_paired {} (i1 @ i2)"
  shows "\<exists>items. runs E H w [(AtNode (path_of q) p nd, ov)] items \<and>
    covers E w S L {k. prefix c k} items (overlaid L (entries ov) (hung c (ly_look L t))) \<and> hashes_paired {} items"
proof -
  note m = under_prefix [OF shape, folded q(1)]
  note valid = valid_aside [OF ov(3) m q(2)]
  obtain b mid a where s: "sub_slice_by_prefix (path_of q) ov = (Ok (b, mid, a) :: (_, engine_error) result)" "ov_wf b" "ov_wf mid" "ov_wf a"
    "entries b = filter (\<lambda>e. fst e < q) (entries ov)" "entries mid = entries_at q (entries ov)"
    "entries a = filter (\<lambda>e. q < fst e \<and> \<not> prefix q (fst e)) (entries ov)"
    using sub_slice_by_prefix_eq [OF ov(1) q(3)] unfolding entries_at_def by metis
  have ok: "ly_ok L e" "prefix c (fst e)" if "e \<in> set (entries ov)" for e using ov(2,3) that by (auto simp: valid_entries_def)
  have reg: "prefix c (take 64 (fst e))" if "e \<in> set (entries ov)" for e
    using ok(2) [OF that] q(1,2) take_prefix_iff [of c 64 "fst e"] by simp
  have "take 64 (fst e) \<in> {k. prefix c k} \<inter> {k. before k q}" if "e \<in> set (entries b)" "fst e \<noteq> []" for e
    using that entry_aside(1) [OF ok(1) q(2), of e] reg [of e] s(5) by auto
  from overlay_covered [OF assms(1) s(2) _ this] valid(1) s(5)
  obtain ib ub where b: "\<And>rb. add_overlay E H b rb = Ok (add_items ib ub rb)" "\<And>X. hashes_paired X ib"
    "covers E w S L ({k. prefix c k} \<inter> {k. before k q}) ib (overlaid L (filter (\<lambda>e. fst e < q) (entries ov)) Map.empty)" by metis
  have "take 64 (fst e) \<in> {k. prefix c k} \<inter> {k. before q k}" if "e \<in> set (entries a)" "fst e \<noteq> []" for e
    using that entry_aside(2) [OF ok(1) q(2), of e] reg [of e] s(7) by auto
  from overlay_covered [OF assms(1) s(4) _ this] valid(2) s(7)
  obtain ia where a: "runs E H w [(NoPosition, a)] ia" "\<And>X. hashes_paired X ia"
    "covers E w S L ({k. prefix c k} \<inter> {k. before q k}) ia (overlaid L (filter (\<lambda>e. q < fst e \<and> \<not> prefix q (fst e)) (entries ov)) Map.empty)" by metis
  obtain N es i1 u1 i2 where k: "\<And>f stack rb. N \<le> f \<Longrightarrow> process_node_kind (compute_root_with_overlay f E H) E H (path_of q) p nd mid stack rb w =
      (Ok (es @ stack, add_items i1 u1 rb), w)" "runs E H w es i2"
    "covers E w S L {k. prefix q k} (i1 @ i2) (overlaid L (entries_at q (entries ov)) (hung c (ly_look L t)))" "hashes_paired {} (i1 @ i2)"
    using kind [OF s(3,6)] s(6) by metis
  have "\<not> prefix (fst e) q" if "e \<in> set (entries b)" "fst e \<noteq> []" for e
    using that s(5) before_irrefl [OF entry_aside(1) [OF ok(1) q(2)], of e] take_is_prefix prefix_order.trans by auto blast
  then have "(\<exists>e \<in> set (entries b). fst e \<noteq> [] \<and> prefix (fst e) q) = False" by blast
  then have "contains_prefix_of (path_of q) b = (Ok False :: (_, engine_error) result)"
    unfolding contains_prefix_of_eq [OF s(2) q(3)] by (rule arg_cong)
  then have "process_position (compute_root_with_overlay f E H) E H (AtNode (path_of q) p nd) ov stack rb w =
      (Ok ((es @ [(NoPosition, a)]) @ stack, add_items (ib @ i1) (ub ++ u1) rb), w)" if "N \<le> f" for f stack rb
    by (simp add: process_position_def process_node_def action_simps s(1) b(1) k(1) [OF that] push_overlay_def)
  then have "runs E H w [(AtNode (path_of q) p nd, ov)] ((ib @ i1) @ (i2 @ ia))"
    by (rule runs_step [where N = N]) (auto intro: runs_append [OF k(2) a(1)])
  moreover have "covers E w S L {k. prefix c k} (ib @ (i1 @ i2) @ ia) (overlaid L (entries ov) (hung c (ly_look L t)))"
    by (rule covers_around [OF q(2) _ m b(3) k(3) a(3)]) (simp_all add: q(1))
  moreover have "hashes_paired {} (ib @ (i1 @ i2) @ ia)" by (intro hashes_paired_append b(2) a(2) k(4))
  ultimately show ?thesis by auto
qed

end

lemma holds_node: "holds E w S p i t \<Longrightarrow> \<exists>nd. node_at E w p i = Some nd \<and> node_prefix nd = trie_prefix t"
  by (erule holds.cases) auto

context trie_layer
begin

text \<open>A pointer: it is added by its hash, replaced by the overlay, or followed.\<close>

lemma hashed_pointer:
  assumes "stored_pointer E w S p ptr" and "child_at w p ptr = Some (q, j)" and "holds E w S q j t" and "ly_shape L (64 - length c) t"
    and "length c \<le> 64" and "nibble_list c" and "x_as_hash E (ptr_rlp ptr) = Some h" and "ov_wf ov" and "entries ov = []"
  shows "runs E H w [(AtPointer (path_of c) p ptr True, ov)] [AddBranch c h True]"
    "covers E w S L {k. prefix c k} [AddBranch c h True] (overlaid L (entries ov) (hung c (ly_look L t)))"
proof -
  have "to_nibbles (path_of c) = (Ok c :: (_, engine_error) result)" using assms(5) by (simp add: to_nibbles_def nibbles_try_from_def)
  then have "runs E H w [(AtPointer (path_of c) p ptr True, ov)] ([AddBranch c h True] @ [])"
    using assms(7-9)
    by (intro runs_step [where es = "[]" and N = 0 and upd = Map.empty]) (simp_all add: process_position_def overlay_is_empty_eq action_simps add_items_branch)
  then show "runs E H w [(AtPointer (path_of c) p ptr True, ov)] [AddBranch c h True]" by simp
  have "stored_by_hash E w S h t" using assms(1-3,7) unfolding stored_by_hash_def by blast
  moreover have "below c (overlaid L [] (hung c (ly_look L t))) = hung c (ly_look L t)"
    by (auto simp: below_def overlaid_def over_nil hung_def)
  ultimately show "covers E w S L {k. prefix c k} [AddBranch c h True] (overlaid L (entries ov) (hung c (ly_look L t)))"
    using assms(4-6,9) by (auto simp: covers_def)
qed

lemma replaced_pointer:
  assumes env and "c \<noteq> []" and "length c \<le> 64" and "nibble_list c" and "ov_wf ov" and "\<And>e. e \<in> set (entries ov) \<Longrightarrow> prefix c (fst e)"
    and "valid_entries L (entries ov) m" and first: "entries ov = (c, val) # es" and val: "\<forall>a. val \<noteq> Some (OAccount a)"
  shows "\<exists>items upd. (\<forall>rb. add_overlay E H ov rb = Ok (add_items items upd rb)) \<and>
    covers E w S L {k. prefix c k} items (overlaid L (entries ov) m) \<and> (\<forall>X. hashes_paired X items)"
proof -
  have "ly_ok L (c, val)" using assms(7) first by (simp add: valid_entries_def)
  then have c: "length c = 64" using ok_cases [of "(c, val)"] assms(2,3) by auto
  have under_c: "take 64 (fst e) = c" if "e \<in> set (entries ov)" for e using assms(6) [OF that] c by (auto simp: prefix_def)
  have "valid_entries L (entries ov) Map.empty"
    using assms(7) under_c unfolding valid_entries_def first by auto
  from overlay_covered [OF assms(1,5) this, of "{k. prefix c k}"] under_c
  obtain items upd where i: "\<And>rb. add_overlay E H ov rb = Ok (add_items items upd rb)" "\<And>X. hashes_paired X items"
    "covers E w S L {k. prefix c k} items (overlaid L (entries ov) Map.empty)" by (metis mem_Collect_eq prefix_order.refl)
  have "covers E w S L {k. prefix c k} items (overlaid L (entries ov) m)"
  proof (rule covers_cong [OF i(3)])
    fix k
    assume "k \<in> {k. prefix c k}" "key64 k"
    then have "k = c" using c by (auto simp: prefix_def key64_def)
    then show "overlaid L (entries ov) m k = overlaid L (entries ov) Map.empty k"
      using over_hit [of c val es m "m c" None] assms(7) c val first by (simp add: overlaid_def)
  qed simp
  then show ?thesis using i by blast
qed

lemma pointer_run:
  assumes env and "stored_pointer E w S p ptr" and child: "child_at w p ptr = Some (q, j)" and holds: "holds E w S q j t" and shape: "ly_shape L (64 - length c) t"
    and c: "c \<noteq> []" "length (c @ trie_prefix t) \<le> 64" "nibble_list c"
    and ov: "ov_wf ov" "\<And>e. e \<in> set (entries ov) \<Longrightarrow> prefix c (fst e)" "valid_entries L (entries ov) (hung c (ly_look L t))"
    and node: "\<And>nd. node_at E w q j = Some nd \<Longrightarrow>
      \<exists>items. runs E H w [(AtNode (path_of (c @ trie_prefix t)) q nd, ov)] items \<and>
        covers E w S L {k. prefix c k} items (overlaid L (entries ov) (hung c (ly_look L t))) \<and> hashes_paired {} items"
  shows "\<exists>items. runs E H w [(AtPointer (path_of c) p ptr can, ov)] items \<and>
    covers E w S L {k. prefix c k} items (overlaid L (entries ov) (hung c (ly_look L t))) \<and> hashes_paired (if can then {c} else {}) items"
proof (cases "entries ov = [] \<and> can \<and> x_as_hash E (ptr_rlp ptr) \<noteq> None")
  case True
  then obtain h where h: "x_as_hash E (ptr_rlp ptr) = Some h" by blast
  then show ?thesis
    using hashed_pointer [OF assms(2) child holds shape _ c(3) h ov(1)] c(2) True
    by (intro exI [of _ "[AddBranch c h True]"]) (simp add: hashes_paired_def)
next
  case False
  then have pos: "process_position f E H (AtPointer (path_of c) p ptr can) ov stack rb w =
      process_overlayed_child E H ov rb (path_of c) ptr p stack w" for f stack rb
    using ov(1) by (auto simp: process_position_def overlay_is_empty_eq split: option.splits)
  show ?thesis
  proof (cases "\<exists>val es. entries ov = (c, val) # es \<and> (\<forall>a. val \<noteq> Some (OAccount a))")
    case True
    then obtain val es where first: "entries ov = (c, val) # es" "\<forall>a. val \<noteq> Some (OAccount a)" by blast
    obtain items upd where i: "\<And>rb. add_overlay E H ov rb = Ok (add_items items upd rb)"
      "covers E w S L {k. prefix c k} items (overlaid L (entries ov) (hung c (ly_look L t)))" "\<And>X. hashes_paired X items"
      using replaced_pointer [OF assms(1) c(1) _ c(3) ov first] c(2) by auto
    have "runs E H w [(AtPointer (path_of c) p ptr can, ov)] (items @ [])"
      using first
      by (intro runs_step [where es = "[]" and N = 0 and upd = upd])
        (auto simp: pos process_overlayed_child_def action_simps overlay_first_eq [OF ov(1)] i(1) split: option.splits overlay_value.splits)
    then show ?thesis using i by (intro exI [of _ items]) simp
  next
    case no: False
    obtain nd where nd: "node_at E w q j = Some nd" "node_prefix nd = trie_prefix t" using holds_node [OF holds] by blast
    obtain items where i: "runs E H w [(AtNode (path_of (c @ trie_prefix t)) q nd, ov)] items"
      "covers E w S L {k. prefix c k} items (overlaid L (entries ov) (hung c (ly_look L t)))" "hashes_paired {} items" using node [OF nd(1)] by blast
    have first: "\<not> (case case entries ov of [] \<Rightarrow> None | e # _ \<Rightarrow> Some (apfst path_of e) of
        Some (overlay_path, overlay_value) \<Rightarrow> path_of c = overlay_path \<and> (case overlay_value of Some (OAccount _) \<Rightarrow> False | _ \<Rightarrow> True) | None \<Rightarrow> False)"
      using no by (auto split: list.splits option.splits overlay_value.splits)
    have "process_overlayed_child E H ov rb (path_of c) ptr p stack w = (Ok ([(AtNode (path_of (c @ trie_prefix t)) q nd, ov)] @ stack, add_items [] Map.empty rb), w)" for rb stack
    proof -
      define f where "f pg ci = bindE (get_node E pg ci) (\<lambda>child_node. bindE (liftE (raw_path_of_nibbles (node_prefix child_node))) (\<lambda>pre.
        bindE (liftE (raw_path_extend (path_of c) pre)) (\<lambda>path. returnE (push_node path child_node pg ov stack, rb))))" for pg ci
      have "process_overlayed_child E H ov rb (path_of c) ptr p stack w =
          (case pointer_cell_index ptr of Some ci \<Rightarrow> f p ci | None \<Rightarrow> bindE (pointer_page_id ptr) (\<lambda>c. bindE (get_page c) (\<lambda>c. f c 0))) w"
        unfolding process_overlayed_child_def bindE_apply [of "liftE _"] liftE_apply overlay_first_eq [OF ov(1)] bind_state_simps if_not_P [OF first] f_def ..
      also have "\<dots> = f q j w" by (rule follow_child [OF child])
      finally show ?thesis
        using node_at_apply [OF nd(1)] nd(2) c(2,3) by (simp add: f_def action_simps raw_path_ops push_node_def nibble_list_def)
    qed
    then have "runs E H w [(AtPointer (path_of c) p ptr can, ov)] ([] @ items)"
      by (intro runs_step [where N = 0 and upd = Map.empty, OF _ i(1)]) (simp add: pos)
    then show ?thesis using i hashes_paired_mono [OF i(3)] by (intro exI [of _ items]) auto
  qed
qed

end

subsection \<open>Branches\<close>

lemma runs_concat: "(\<And>j. j \<in> set js \<Longrightarrow> runs E H w (g j) (f j)) \<Longrightarrow> runs E H w (concat (map g js)) (concat (map f js))"
  by (induction js) (auto intro: runs_append)

lemma covers_concat:
  assumes "sorted_wrt (<) js" and "\<And>j. j \<in> set js \<Longrightarrow> j < 16 \<and> covers E w S L {k. prefix (q @ [nib j]) k} (f j) kv"
  shows "covers E w S L (\<Union>j \<in> set js. {k. prefix (q @ [nib j]) k}) (concat (map f js)) kv"
  using assms
proof (induction js)
  case Nil
  then show ?case by (simp add: covers_def)
next
  case (Cons j js)
  have "covers E w S L (\<Union>j \<in> set js. {k. prefix (q @ [nib j]) k}) (concat (map f js)) kv" using Cons by auto
  moreover have "before a b" if "prefix (q @ [nib j]) a" "j' \<in> set js" "prefix (q @ [nib j']) b" for a b j'
  proof -
    have "nib j < nib j'" using Cons.prems that(2) by (intro nib_less) auto
    then show ?thesis using before_extend [OF before_children [of "nib j" "nib j'" q "[]" "[]"]] that by simp
  qed
  ultimately show ?case
    unfolding list.map concat.simps using Cons.prems(2) [of j]
    by (intro covers_append [of _ _ _ _ "{k. prefix (q @ [nib j]) k}" _ _ "\<Union>j \<in> set js. {k. prefix (q @ [nib j]) k}"]) auto
qed

lemma covers_branch:
  assumes "\<And>j. j < 16 \<Longrightarrow> covers E w S L {k. prefix (q @ [nib j]) k} (f j) kv" and "length q < 64"
  shows "covers E w S L {k. prefix q k} (concat (map f [0..<16])) kv"
proof (rule covers_region)
  show "covers E w S L (\<Union>j \<in> set [0..<16]. {k. prefix (q @ [nib j]) k}) (concat (map f [0..<16])) kv"
    using assms(1) by (intro covers_concat) (auto simp: sorted_wrt_upt)
  show "item_key i \<in> {k. prefix q k}" if i: "i \<in> set (concat (map f [0..<16]))" for i
  proof -
    obtain j where "j < 16" "i \<in> set (f j)" using i by (auto simp del: upt.simps)
    then have "prefix (q @ [nib j]) (item_key i)" using assms(1) unfolding covers_def by blast
    then show ?thesis by (auto simp: prefix_def)
  qed
  show "{k. prefix q k} \<inter> {k. key64 k} \<subseteq> (\<Union>j \<in> set [0..<16]. {k. prefix (q @ [nib j]) k})"
  proof
    fix k
    assume "k \<in> {k. prefix q k} \<inter> {k. key64 k}"
    then obtain r where r: "k = q @ r" "key64 k" by (auto simp: prefix_def)
    then obtain b s where b: "r = b # s" using assms(2) by (cases r) auto
    then have "is_nibble b" using r key64_nibble by blast
    then have "unat b < 16" "nib (unat b) = b" by (simp_all add: is_nibble_less)
    then show "k \<in> (\<Union>j \<in> set [0..<16]. {k. prefix (q @ [nib j]) k})" using r b by (auto intro!: bexI [of _ "unat b"])
  qed
qed

lemma two_in_filter:
  assumes "1 < length (filter P xs)" and "distinct xs"
  obtains y where "y \<in> set xs" "P y" "y \<noteq> x"
proof -
  obtain a b ys where ys: "filter P xs = a # b # ys" using assms(1) by (cases "filter P xs"; cases "tl (filter P xs)") auto
  then have "distinct (a # b # ys)" using assms(2) by (metis distinct_filter)
  moreover have "a \<in> set (filter P xs)" "b \<in> set (filter P xs)" using ys by auto
  ultimately show thesis using that [of a] that [of b] by auto
qed

lemma hashes_paired_branch:
  assumes "\<And>j. j < 16 \<Longrightarrow> covers E w S L {k. prefix (q @ [nib j]) k} (f j) kv"
    and "\<And>j. j < 16 \<Longrightarrow> hashes_paired (if can then {q @ [nib j]} else {}) (f j)"
    and "can \<Longrightarrow> 1 < length (filter live [0..<16])" and "\<And>j. j < 16 \<Longrightarrow> live j \<Longrightarrow> f j \<noteq> []"
  shows "hashes_paired {} (concat (map f [0..<16]))"
  unfolding hashes_paired_def
proof (intro allI impI)
  fix c h s
  assume "AddBranch c h s \<in> set (concat (map f [0..<16]))"
  then obtain j where j: "j < 16" "AddBranch c h s \<in> set (f j)" by (auto simp del: upt.simps)
  have sub: "set (f i) \<subseteq> set (concat (map f [0..<16]))" if "i < 16" for i using that by (auto simp del: upt.simps)
  show "c \<in> {} \<or> (\<exists>i \<in> set (concat (map f [0..<16])). sibling c (item_key i))"
  proof (cases "\<exists>i \<in> set (f j). sibling c (item_key i)")
    case True
    then show ?thesis using sub [OF j(1)] by blast
  next
    case False
    then have can: can "c = q @ [nib j]" using assms(2) [OF j(1)] j(2) unfolding hashes_paired_def by (auto split: if_splits)
    obtain j' where j': "j' \<in> set [0..<16]" "live j'" "j' \<noteq> j" using two_in_filter [OF assms(3) [OF can(1)]] by (metis distinct_upt)
    then have j'': "j' < 16" by simp
    obtain i where i: "i \<in> set (f j')" using assms(4) [OF j'' j'(2)] by (meson last_in_set)
    then have "prefix (q @ [nib j']) (item_key i)" using assms(1) [OF j''] unfolding covers_def by blast
    moreover have "nib j' \<noteq> nib j" using nib_less [of j j'] nib_less [of j' j] j(1) j'' j'(3) by (metis less_irrefl nat_neq_iff)
    ultimately have "sibling c (item_key i)" unfolding sibling_def can(2) by auto
    then show ?thesis using i sub [OF j''] by blast
  qed
qed

context trie_layer
begin

lemma look_live:
  assumes "holds E w S p i t" and "ly_shape L n t" and "n \<le> 64"
  shows "\<exists>r. length r = n \<and> nibble_list r \<and> ly_look L t r \<noteq> None"
  using assms
proof (induction t arbitrary: p i n rule: measure_induct_rule [of size])
  case (less t)
  obtain nd where nd: "node_at E w p i = Some nd" "node_prefix nd = trie_prefix t" using holds_node [OF less.prems(1)] by blast
  then have pre: "nibble_list (trie_prefix t)" using node_at_apply [OF nd(1)] by simp
  show ?case
  proof (cases "is_Br t")
    case False
    then show ?thesis using shape_leaf [OF less.prems(2)] look_leaf [OF less.prems(2)] pre by blast
  next
    case True
    then obtain q cs where t: "t = Br q cs" by (cases t) auto
    obtain u where u: "length q < n" "length cs = 16" "Some u \<in> set cs" "ly_shape L (n - length q - 1) u" using shape_Br less.prems(2) unfolding t by blast
    obtain k where k: "k < 16" "cs ! k = Some u" using u(2,3) by (metis in_set_conv_nth)
    obtain p' j where h: "holds E w S p' j u" using less.prems(1) k u(2) unfolding t by (auto elim!: holds_BrE)
    have "size u < size t" using size_child [of k cs u] k u(2) by (simp add: t)
    moreover have "n - length q - 1 \<le> 64" using less.prems(3) by simp
    ultimately obtain r where r: "length r = n - length q - 1" "nibble_list r" "ly_look L u r \<noteq> None" using less.IH [OF _ h u(4)] by blast
    have "strip_prefix q (q @ nib k # r) = Some (nib k # r)" by (simp add: strip_prefix_Some)
    moreover have "unat (nib k) = k" using k(1) by (simp add: unat_of_nat)
    ultimately have "ly_look L t (q @ nib k # r) \<noteq> None" using k u(2) r(3) by (simp add: t look_Br)
    moreover have "nibble_list (q @ nib k # r)" "length (q @ nib k # r) = n"
      using pre r(1,2) u(1) less.prems(3) is_nibble_nib [OF k(1)] by (auto simp: t nibble_list_def)
    ultimately show ?thesis by blast
  qed
qed

lemma under_branch:
  assumes "length cs = 16" and "j < 16" and "key64 k" and "prefix ((c @ pre) @ [nib j]) k"
  shows "hung c (ly_look L (Br pre cs)) k = (case cs ! j of None \<Rightarrow> None | Some t \<Rightarrow> hung ((c @ pre) @ [nib j]) (ly_look L t) k)"
proof -
  obtain r where r: "k = c @ pre @ nib j # r" using assms(4) by (auto simp: prefix_def)
  have "strip_prefix pre (drop (length c) k) = Some (nib j # r)" by (simp add: r strip_prefix_Some)
  moreover have "unat (nib j) = j" using assms(2) by (simp add: unat_of_nat)
  moreover have "prefix c k" by (simp add: r)
  moreover have "drop (length ((c @ pre) @ [nib j])) k = r" by (simp add: r)
  ultimately show ?thesis unfolding hung_def look_Br using assms by (simp split: option.splits)
qed

text \<open>A child that is counted has something in it.\<close>

lemma live_covered:
  assumes "covers E w S L {k. prefix c k} items (overlaid L es m)" and "valid_entries L es m" and "c \<noteq> []" and "length c \<le> 64"
    and "\<And>e. e \<in> set es \<Longrightarrow> prefix c (fst e) \<and> nibble_list (fst e)" and "sorted_wrt (<) (map fst es)"
    and "(es = [] \<and> (\<exists>k. key64 k \<and> prefix c k \<and> m k \<noteq> None)) \<or> (\<exists>p v es'. es = (p, Some v) # es')"
  shows "items \<noteq> []"
proof -
  have "\<exists>k. key64 k \<and> prefix c k \<and> overlaid L es m k \<noteq> None"
    using assms(7)
  proof
    assume "es = [] \<and> (\<exists>k. key64 k \<and> prefix c k \<and> m k \<noteq> None)"
    then show ?thesis by (auto simp: overlaid_def over_nil)
  next
    assume "\<exists>p v es'. es = (p, Some v) # es'"
    then obtain p v es' where es: "es = (p, Some v) # es'" by blast
    have p: "prefix c p" "nibble_list p" "ly_ok L (p, Some v)" 
      using assms(2) assms(5) [of "(p, Some v)"] es by (simp_all add: valid_entries_def)
    then have "p \<noteq> []" using assms(3) by auto
    then have "key64 (take 64 p)" using ok_cases [OF p(3)] p(2) by (auto intro: key64_take)
    moreover have "prefix c (take 64 p)" using p(1) take_prefix_iff [OF assms(4)] by blast
    moreover have "ly_over L es (take 64 p) (m (take 64 p)) \<noteq> None"
      using over_live [of p v es' m] assms(2,6) \<open>p \<noteq> []\<close> es by simp
    ultimately show ?thesis by (auto simp: overlaid_def)
  qed
  then show ?thesis using assms(1) unfolding covers_def by auto
qed

lemma child_run:
  assumes env and q: "q = c @ pre" "length q < 64" "nibble_list q" and cs: "length cs = 16" and j: "j < 16"
    and ov: "valid_entries L es (hung c (ly_look L (Br pre cs)))" "ov_wf o1" "entries o1 = entries_at (q @ [nib j]) es"
    and none: "\<And>can. cs ! j = None \<Longrightarrow> child = None"
    and some: "\<And>t can. cs ! j = Some t \<Longrightarrow> valid_entries L (entries o1) (hung (q @ [nib j]) (ly_look L t)) \<Longrightarrow> \<exists>ptr. child = Some ptr \<and>
      (\<exists>k. key64 k \<and> prefix (q @ [nib j]) k \<and> hung (q @ [nib j]) (ly_look L t) k \<noteq> None) \<and>
      (\<exists>items. runs E H w [(AtPointer (path_of (q @ [nib j])) p ptr can, o1)] items \<and>
        covers E w S L {k. prefix (q @ [nib j]) k} items (overlaid L (entries o1) (hung (q @ [nib j]) (ly_look L t))) \<and>
        hashes_paired (if can then {q @ [nib j]} else {}) items)"
  shows "\<exists>items. runs E H w (child_element p can (path_of (q @ [nib j])) child o1) items \<and>
    covers E w S L {k. prefix (q @ [nib j]) k} items (overlaid L es (hung c (ly_look L (Br pre cs)))) \<and>
    hashes_paired (if can then {q @ [nib j]} else {}) items \<and> (live_child child (entries o1) \<longrightarrow> items \<noteq> [])"
proof -
  define q' where "q' = q @ [nib j]"
  define m where "m = hung c (ly_look L (Br pre cs))"
  define m' where "m' = (case cs ! j of None \<Rightarrow> Map.empty | Some t \<Rightarrow> hung q' (ly_look L t))"
  have mm: "m' k = m k" if "prefix q' k" "key64 k" for k
    using under_branch [OF cs j that(2), of c pre] that(1) q(1) by (auto simp: m_def m'_def q'_def split: option.splits)
  have e: "prefix q' (fst e) \<and> nibble_list (fst e) \<and> prefix q' (take 64 (fst e))" if "e \<in> set (entries o1)" for e
    using that ov(3) entries_nibbles [OF ov(2) that] q(2) take_prefix_iff [of q' 64 "fst e"] by (simp add: q'_def entries_at_def)
  have valid: "valid_entries L (entries o1) m'"
  proof (rule valid_restrict [OF ov(1)])
    fix e
    assume e': "e \<in> set (entries o1)" "64 < length (fst e)"
    then have "key64 (take 64 (fst e))" using e [OF e'(1)] by (intro key64_take) auto
    then show "m' (take 64 (fst e)) \<noteq> None" if "hung c (ly_look L (Br pre cs)) (take 64 (fst e)) \<noteq> None" using mm e [OF e'(1)] that by (simp add: m_def)
    show "d \<in> set (entries o1)" if "d \<in> set es" "fst d = take 64 (fst e)" for d
      using that e [OF e'(1)] by (simp add: ov(3) entries_at_def q'_def)
  qed (simp add: ov(3) entries_at_subset)
  have same: "covers E w S L {k. prefix q' k} items (overlaid L (entries o1) m') \<Longrightarrow> covers E w S L {k. prefix q' k} items (overlaid L es m)" for items
    by (erule covers_cong) (auto simp: ov(3) q'_def [symmetric] mm overlaid_at)
  have "\<exists>items. runs E H w (child_element p can (path_of q') child o1) items \<and>
    covers E w S L {k. prefix q' k} items (overlaid L (entries o1) m') \<and>
    hashes_paired (if can then {q'} else {}) items \<and> (child = None \<or> (\<exists>k. key64 k \<and> prefix q' k \<and> m' k \<noteq> None))"
  proof (cases "cs ! j")
    case None
    then have m': "m' = Map.empty" "child = None" using none by (simp_all add: m'_def)
    show ?thesis
    proof (cases "entries o1 = []")
      case True
      then have "overlay_is_empty o1" using ov(2) by (simp add: overlay_is_empty_eq)
      then show ?thesis using m' True by (intro exI [of _ "[]"]) (simp add: child_element_def covers_nil overlaid_def over_nil hashes_paired_def)
    next
      case False
      then have "\<not> overlay_is_empty o1" using ov(2) by (simp add: overlay_is_empty_eq)
      moreover obtain items where "runs E H w [(NoPosition, o1)] items" "\<And>X. hashes_paired X items"
        "covers E w S L {k. prefix q' k} items (overlaid L (entries o1) Map.empty)"
        using overlay_covered [OF assms(1) ov(2) valid [unfolded m'(1)], of "{k. prefix q' k}"] e by (metis mem_Collect_eq)
      ultimately show ?thesis using m' by (intro exI [of _ items]) (simp add: child_element_def)
    qed
  next
    case (Some t)
    then show ?thesis using some [OF Some, of can] valid by (fastforce simp: m'_def q'_def child_element_def)
  qed
  then obtain items where i: "runs E H w (child_element p can (path_of q') child o1) items"
    "covers E w S L {k. prefix q' k} items (overlaid L (entries o1) m')"
    "hashes_paired (if can then {q'} else {}) items" "child = None \<or> (\<exists>k. key64 k \<and> prefix q' k \<and> m' k \<noteq> None)" by blast
  moreover have "items \<noteq> []" if "live_child child (entries o1)"
  proof (rule live_covered [OF i(2) valid])
    show "sorted_wrt (<) (map fst (entries o1))" using ov(2) by (simp add: ov_wf_def)
  qed (use that e i(4) q(2) in \<open>auto simp: q'_def live_child_def\<close>)
  ultimately show ?thesis using same unfolding q'_def m_def by blast
qed

end

context trie_layer
begin

lemma branch_kind:
  assumes env and q: "q = c @ pre" "length q < 64" "nibble_list q" and cs: "length cs = 16" "length ps = 16" and kind: "node_kind nd = Branch ps"
    and mid: "valid_entries L (entries mid) (hung c (ly_look L (Br pre cs)))" "ov_wf mid"
    and none: "\<And>j. j < 16 \<Longrightarrow> cs ! j = None \<Longrightarrow> ps ! j = None"
    and some: "\<And>j t can o1. j < 16 \<Longrightarrow> cs ! j = Some t \<Longrightarrow> ov_wf o1 \<Longrightarrow> \<forall>e \<in> set (entries o1). prefix (q @ [nib j]) (fst e) \<Longrightarrow>
      valid_entries L (entries o1) (hung (q @ [nib j]) (ly_look L t)) \<Longrightarrow> \<exists>ptr. ps ! j = Some ptr \<and>
      (\<exists>k. key64 k \<and> prefix (q @ [nib j]) k \<and> hung (q @ [nib j]) (ly_look L t) k \<noteq> None) \<and>
      (\<exists>items. runs E H w [(AtPointer (path_of (q @ [nib j])) p ptr can, o1)] items \<and>
        covers E w S L {k. prefix (q @ [nib j]) k} items (overlaid L (entries o1) (hung (q @ [nib j]) (ly_look L t))) \<and>
        hashes_paired (if can then {q @ [nib j]} else {}) items)"
  shows "\<exists>N es i1 u1 i2. (\<forall>f \<ge> N. \<forall>stack rb. process_node_kind (compute_root_with_overlay f E H) E H (path_of q) p nd mid stack rb w =
        (Ok (es @ stack, add_items i1 u1 rb), w)) \<and> runs E H w es i2 \<and>
      covers E w S L {k. prefix q k} (i1 @ i2) (overlaid L (entries mid) (hung c (ly_look L (Br pre cs)))) \<and> hashes_paired {} (i1 @ i2)"
proof -
  define m where "m = hung c (ly_look L (Br pre cs))"
  obtain data n where data: "branch_child_data (path_of q) 0 ps mid = (Ok (data, n) :: (_, engine_error) result)" "child_slices q 0 ps (entries mid) data n"
    using branch_child_data_eq [OF mid(2) q(3), of 0 ps] q(2) cs(2) by auto
  define can where "can = (1 < n)"
  obtain ovs where ovs: "\<And>j. j < 16 \<Longrightarrow> ov_wf (ovs j) \<and> entries (ovs j) = entries_at (q @ [nib j]) (entries mid)"
    "n = length (filter (\<lambda>j. live_child (ps ! j) (entries (ovs j))) [0..<16])"
    "child_elements p can data = concat (map (\<lambda>j. child_element p can (path_of (q @ [nib j])) (ps ! j) (ovs j)) [0..<16])"
    using data(2) cs(2) unfolding child_slices_def by auto
  have "\<exists>items. runs E H w (child_element p can (path_of (q @ [nib j])) (ps ! j) (ovs j)) items \<and>
      covers E w S L {k. prefix (q @ [nib j]) k} items (overlaid L (entries mid) m) \<and>
      hashes_paired (if can then {q @ [nib j]} else {}) items \<and> (live_child (ps ! j) (entries (ovs j)) \<longrightarrow> items \<noteq> [])" if j: "j < 16" for j
    unfolding m_def
  proof (rule child_run [OF assms(1) q cs(1) j mid(1)])
    show "ov_wf (ovs j)" "entries (ovs j) = entries_at (q @ [nib j]) (entries mid)" using ovs(1) [OF j] by auto
    then have "\<forall>e \<in> set (entries (ovs j)). prefix (q @ [nib j]) (fst e)" by (simp add: entries_at_def)
    from some [OF j _ \<open>ov_wf (ovs j)\<close> this]
    show "\<exists>ptr. ps ! j = Some ptr \<and> (\<exists>k. key64 k \<and> prefix (q @ [nib j]) k \<and> hung (q @ [nib j]) (ly_look L t) k \<noteq> None) \<and>
      (\<exists>items. runs E H w [(AtPointer (path_of (q @ [nib j])) p ptr can, ovs j)] items \<and>
        covers E w S L {k. prefix (q @ [nib j]) k} items (overlaid L (entries (ovs j)) (hung (q @ [nib j]) (ly_look L t))) \<and>
        hashes_paired (if can then {q @ [nib j]} else {}) items)"
      if "cs ! j = Some t" "valid_entries L (entries (ovs j)) (hung (q @ [nib j]) (ly_look L t))" for t can using that .
  qed (use none [OF j] in simp)
  then obtain f where f: "\<And>j. j < 16 \<Longrightarrow> runs E H w (child_element p can (path_of (q @ [nib j])) (ps ! j) (ovs j)) (f j)"
    "\<And>j. j < 16 \<Longrightarrow> covers E w S L {k. prefix (q @ [nib j]) k} (f j) (overlaid L (entries mid) m)"
    "\<And>j. j < 16 \<Longrightarrow> hashes_paired (if can then {q @ [nib j]} else {}) (f j)"
    "\<And>j. j < 16 \<Longrightarrow> live_child (ps ! j) (entries (ovs j)) \<Longrightarrow> f j \<noteq> []" by metis
  have "runs E H w (child_elements p can data) (concat (map f [0..<16]))" unfolding ovs(3) by (rule runs_concat) (use f(1) in auto)
  moreover have "covers E w S L {k. prefix q k} (concat (map f [0..<16])) (overlaid L (entries mid) m)" by (rule covers_branch [OF f(2) q(2)])
  moreover have "hashes_paired {} (concat (map f [0..<16]))"
    by (rule hashes_paired_branch [OF f(2,3) _ f(4)]) (simp_all add: can_def ovs(2))
  moreover have "process_node_kind g E H (path_of q) p nd mid stack rb w = (Ok (child_elements p can data @ stack, add_items [] Map.empty rb), w)" for g stack rb
  proof -
    have "overlay_hits (path_of q) mid \<noteq> (Ok (Some (Some (OHash h))) :: (_, engine_error) result)" "\<exists>r. overlay_hits (path_of q) mid = (Ok r :: (_, engine_error) result)" for h
      using ok_no_hash [of "(q, Some (OHash h))" h] mid(1) by (auto simp: overlay_hits_def overlay_first_eq [OF mid(2)] valid_entries_def split: list.splits if_splits)
    moreover have "process_branch_node_with_overlay mid (path_of q) ps p stack = (Ok (child_elements p can data @ stack) :: (_, engine_error) result)"
      by (simp add: process_branch_node_with_overlay_def data(1) push_children_eq child_elements_def can_def)
    ultimately show ?thesis
      using kind unfolding process_node_kind_def by (auto simp: action_simps split: option.splits overlay_value.splits)
  qed
  ultimately show ?thesis unfolding m_def
    by (intro exI [of _ 0] exI [of _ "child_elements p can data"] exI [of _ "[]"] exI [of _ Map.empty] exI [of _ "concat (map f [0..<16])"]) auto
qed

text \<open>A stored trie with an overlay.\<close>

lemma path_lengths:
  assumes "ly_shape L (64 - length c) t" and "length c \<le> 64"
  shows "length (c @ trie_prefix t) \<le> 64" "\<not> is_Br t \<Longrightarrow> length (c @ trie_prefix t) = 64" "is_Br t \<Longrightarrow> length (c @ trie_prefix t) < 64"
  using shape_Br [of "64 - length c"] shape_leaf [OF assms(1)] assms by (cases t; force)+

lemma hung_live:
  assumes "holds E w S p i t" and "ly_shape L (64 - length c) t" and "length c \<le> 64" and "nibble_list c"
  shows "\<exists>k. key64 k \<and> prefix c k \<and> hung c (ly_look L t) k \<noteq> None"
proof -
  obtain r where r: "length r = 64 - length c" "nibble_list r" "ly_look L t r \<noteq> None" using look_live [OF assms(1,2)] by auto
  then have "key64 (c @ r)" unfolding key64_def using assms(3,4) by (simp add: nibble_list_def)
  then show ?thesis using r(3) by (intro exI [of _ "c @ r"]) (simp add: hung_def)
qed

lemma node_run:
  assumes env and "ly_shape L (64 - length c) t" and "holds E w S p i t" and "node_at E w p i = Some nd" and "length c \<le> 64" and "nibble_list c"
    and "ov_wf ov" and "\<forall>e \<in> set (entries ov). prefix c (fst e)" and "valid_entries L (entries ov) (hung c (ly_look L t))"
  shows "\<exists>items. runs E H w [(AtNode (path_of (c @ trie_prefix t)) p nd, ov)] items \<and>
    covers E w S L {k. prefix c k} items (overlaid L (entries ov) (hung c (ly_look L t))) \<and> hashes_paired {} items"
  using assms(2-)
proof (induction t arbitrary: c p i nd ov rule: measure_induct_rule [of size])
  case (less t)
  note len = path_lengths [OF less.prems(1,4)]
  obtain nd' where "node_at E w p i = Some nd'" "node_prefix nd' = trie_prefix t" using holds_node [OF less.prems(2)] by blast
  then have nd: "node_prefix nd = trie_prefix t" "nibble_list (trie_prefix t)" using less.prems(3) node_at_apply [OF less.prems(3)] by auto
  then have nib: "nibble_list (c @ trie_prefix t)" using less.prems(5) len(1) by (simp add: nibble_list_def)
  note valid = valid_aside(3) [OF less.prems(8) under_prefix [OF less.prems(1)] len(1)]
  show ?case
  proof (rule node_around [OF assms(1) less.prems(1) refl len(1) nib less.prems(6) _ less.prems(8)])
    show "prefix c (fst e)" if "e \<in> set (entries ov)" for e using less.prems(7) that by blast
    fix mid
    assume mid: "ov_wf mid" "entries mid = entries_at (c @ trie_prefix t) (entries ov)"
    then have v: "valid_entries L (entries mid) (hung c (ly_look L t))" using valid by simp
    show "\<exists>N es i1 u1 i2. (\<forall>f \<ge> N. \<forall>stack rb. process_node_kind (compute_root_with_overlay f E H) E H (path_of (c @ trie_prefix t)) p nd mid stack rb w =
          (Ok (es @ stack, add_items i1 u1 rb), w)) \<and> runs E H w es i2 \<and>
        covers E w S L {k. prefix (c @ trie_prefix t) k} (i1 @ i2) (overlaid L (entries mid) (hung c (ly_look L t))) \<and> hashes_paired {} (i1 @ i2)"
    proof (cases "is_Br t")
      case False
      have key: "key64 (c @ node_prefix nd)" unfolding key64_def nd(1) using len(2) [OF False] nib by blast
      have "\<forall>e \<in> set (entries mid). prefix (c @ node_prefix nd) (fst e)" by (simp add: mid(2) entries_at_def nd(1))
      from leaf_law [OF assms(1) less.prems(1) False less.prems(2,3) key mid(1) v this]
      obtain N items upd where "\<forall>f \<ge> N. \<forall>stack rb. process_node_kind (compute_root_with_overlay f E H) E H (path_of (c @ trie_prefix t)) p nd mid stack rb w =
          (Ok (stack, add_items items upd rb), w)" "\<And>i. i \<in> set items \<Longrightarrow> \<exists>k b. i = AddLeaf k b"
        "covers E w S L {k. prefix (c @ trie_prefix t) k} items (overlaid L (entries mid) (hung c (ly_look L t)))" unfolding nd(1) by blast
      then show ?thesis using hashes_paired_leaves [of items "{}"]
        by (intro exI [of _ N] exI [of _ "[]"] exI [of _ items] exI [of _ upd] exI [of _ "[]"]) simp
    next
      case True
      then obtain pre cs where t: "t = Br pre cs" by (cases t) auto
      have sh: "length cs = 16" "\<And>u. Some u \<in> set cs \<Longrightarrow> ly_shape L (64 - length ((c @ pre) @ [nib j])) u" for j
      proof -
        have "64 - length ((c @ pre) @ [nib j]) = 64 - length c - length pre - 1" by simp
        then show "length cs = 16" "\<And>u. Some u \<in> set cs \<Longrightarrow> ly_shape L (64 - length ((c @ pre) @ [nib j])) u"
          using shape_Br less.prems(1) unfolding t by metis+
      qed
      obtain ps where ps: "p \<in> S" "node_kind nd = Branch ps" "length ps = 16"
        "\<And>k. k < 16 \<Longrightarrow> (ps ! k = None \<and> cs ! k = None) \<or>
          (\<exists>ptr t q j. ps ! k = Some ptr \<and> cs ! k = Some t \<and> child_at w p ptr = Some (q, j) \<and> holds E w S q j t)"
        using less.prems(2,3) sh(1) unfolding t by (auto elim!: holds_BrE)
      show ?thesis unfolding t trie_prefix.simps
      proof (rule branch_kind [OF assms(1) refl _ _ sh(1) ps(3,2) _ mid(1)])
        show "length (c @ pre) < 64" "nibble_list (c @ pre)" using len(3) [OF True] nib by (simp_all add: t)
        show "valid_entries L (entries mid) (hung c (ly_look L (Br pre cs)))" using v by (simp add: t)
        show "ps ! j = None" if "j < 16" "cs ! j = None" for j using ps(4) [OF that(1)] that(2) by auto
        fix j u can o1
        assume j: "j < 16" "cs ! j = Some u" "ov_wf o1" "\<forall>e \<in> set (entries o1). prefix ((c @ pre) @ [nib j]) (fst e)"
          "valid_entries L (entries o1) (hung ((c @ pre) @ [nib j]) (ly_look L u))"
        show "\<exists>ptr. ps ! j = Some ptr \<and> (\<exists>k. key64 k \<and> prefix ((c @ pre) @ [nib j]) k \<and> hung ((c @ pre) @ [nib j]) (ly_look L u) k \<noteq> None) \<and>
          (\<exists>items. runs E H w [(AtPointer (path_of ((c @ pre) @ [nib j])) p ptr can, o1)] items \<and>
            covers E w S L {k. prefix ((c @ pre) @ [nib j]) k} items (overlaid L (entries o1) (hung ((c @ pre) @ [nib j]) (ly_look L u))) \<and>
            hashes_paired (if can then {(c @ pre) @ [nib j]} else {}) items)"
        proof -
          obtain ptr q' j' where ptr: "ps ! j = Some ptr" "child_at w p ptr = Some (q', j')" "holds E w S q' j' u" using ps(4) [OF j(1)] j(2) by auto
          have "ptr \<in> node_pointers nd" using branch_pointer [OF ps(2) _ ptr(1)] j(1) ps(3) by simp
          then have stored: "stored_pointer E w S p ptr" using ps(1) less.prems(3) unfolding stored_pointer_def by blast
          have u: "Some u \<in> set cs" "size u < size t" using j(1,2) sh(1) size_child [of j cs u] nth_mem [of j cs] by (auto simp: t)
          have c': "length ((c @ pre) @ [nib j]) \<le> 64" "nibble_list ((c @ pre) @ [nib j])"
            using len(3) [OF True] nib is_nibble_nib [OF j(1)] by (auto simp: t nibble_list_def)
          note node = less.IH [OF u(2) sh(2) [OF u(1)] ptr(3) _ c' j(3,4,5)]
          have "\<exists>items. runs E H w [(AtPointer (path_of ((c @ pre) @ [nib j])) p ptr can, o1)] items \<and>
            covers E w S L {k. prefix ((c @ pre) @ [nib j]) k} items (overlaid L (entries o1) (hung ((c @ pre) @ [nib j]) (ly_look L u))) \<and>
            hashes_paired (if can then {(c @ pre) @ [nib j]} else {}) items"
            by (rule pointer_run [OF assms(1) stored ptr(2,3) sh(2) [OF u(1)] _ path_lengths(1) [OF sh(2) [OF u(1)] c'(1)] c'(2) j(3) _ j(5) node])
              (use j(4) in auto)
          moreover have "\<exists>k. key64 k \<and> prefix ((c @ pre) @ [nib j]) k \<and> hung ((c @ pre) @ [nib j]) (ly_look L u) k \<noteq> None"
            by (rule hung_live [OF ptr(3) sh(2) [OF u(1)] c'])
          ultimately show ?thesis using ptr(1) by blast
        qed
      qed
    qed
  qed
qed

end

end
