(* ===== verification/Storage_Root.thy ===== *)
theory Storage_Root
  imports Root_Items
begin

text \<open>
  The storage tries as a layer of the overlaid root computation: the values are numbers, a change is a
  new value or a deletion, and the overlay of an account may also hold the account itself, which a
  storage trie ignores.
\<close>

subsection \<open>The layer\<close>

text \<open>Every branch has a child.\<close>

fun branching :: "trie \<Rightarrow> bool" where
  "branching (SLeaf pre v) \<longleftrightarrow> True"
| "branching (ALeaf pre a root) \<longleftrightarrow> (case root of None \<Rightarrow> True | Some t \<Rightarrow> branching t)"
| "branching (Br pre cs) \<longleftrightarrow> list_ex (\<lambda>c. c \<noteq> None) cs \<and> list_all (\<lambda>c. case c of None \<Rightarrow> True | Some t \<Rightarrow> branching t) cs"

definition storage_look :: "trie \<Rightarrow> nibbles \<Rightarrow> u256 option" where
  "storage_look t k = (case trie_lookup t k of Some (TStorage v) \<Rightarrow> Some v | _ \<Rightarrow> None)"

definition storage_entry_ok :: "overlay_entry \<Rightarrow> bool" where
  "storage_entry_ok e \<longleftrightarrow>
     (case snd e of
        Some (OAccount _) \<Rightarrow> fst e = []
      | Some (OHash _) \<Rightarrow> False
      | _ \<Rightarrow> length (fst e) = 64)"

definition storage_over :: "overlay_entry list \<Rightarrow> nibbles \<Rightarrow> u256 option \<Rightarrow> u256 option" where
  "storage_over es k x =
     (case map_of es k of
        None \<Rightarrow> x
      | Some (Some (OStorage v)) \<Rightarrow> Some v
      | Some _ \<Rightarrow> None)"

definition storage_layer :: "externals \<Rightarrow> u256 layer" where
  "storage_layer E =
     \<lparr>ly_look = storage_look,
      ly_shape = (\<lambda>n t. storage_trie n t \<and> branching t),
      ly_repr = (\<lambda>b v. b = x_encode_u256 E v \<or> x_decode_u256 E b = Some v),
      ly_ok = storage_entry_ok,
      ly_over = storage_over\<rparr>"

lemma storage_layer_simps [simp]:
  "ly_look (storage_layer E) = storage_look" "ly_shape (storage_layer E) n t \<longleftrightarrow> storage_trie n t \<and> branching t"
  "ly_repr (storage_layer E) b v \<longleftrightarrow> b = x_encode_u256 E v \<or> x_decode_u256 E b = Some v"
  "ly_ok (storage_layer E) = storage_entry_ok" "ly_over (storage_layer E) = storage_over"
  by (simp_all add: storage_layer_def)

lemma storage_entry_ok_cases:
  assumes "storage_entry_ok e"
  obtains a where "fst e = []" "snd e = Some (OAccount a)" | "length (fst e) = 64" "snd e = None" | v where "length (fst e) = 64" "snd e = Some (OStorage v)"
  using assms by (auto simp: storage_entry_ok_def split: option.splits overlay_value.splits)

lemma storage_entry_ok_length: "storage_entry_ok e \<Longrightarrow> fst e \<noteq> [] \<Longrightarrow> length (fst e) = 64"
  by (erule storage_entry_ok_cases) auto

lemma map_of_entries_at: "map_of (entries_at k es) k = map_of es k"
  by (induction es) (auto simp: entries_at_def)

lemma storage_over_local: "storage_over es k x = storage_over (entries_at k es) k x"
  by (simp add: storage_over_def map_of_entries_at)

lemma storage_valid: "valid_entries (storage_layer E) es m \<longleftrightarrow> (\<forall>e \<in> set es. storage_entry_ok e)"
proof -
  have "length (fst e) \<le> 64" if "storage_entry_ok e" for e using that by (rule storage_entry_ok_cases) auto
  then show ?thesis unfolding valid_entries_def by (auto simp: not_less [symmetric])
qed

subsection \<open>Adding an overlay\<close>

definition storage_items :: "externals \<Rightarrow> overlay_entry list \<Rightarrow> builder_item list" where
  "storage_items E es =
     concat (map (\<lambda>(k, v). case v of Some (OStorage x) \<Rightarrow> [AddLeaf k (x_encode_u256 E x)] | _ \<Rightarrow> []) es)"

lemma storage_loop:
  assumes "\<forall>e \<in> set es. storage_entry_ok e \<and> nibble_list (fst e) \<and> fst e \<noteq> []" and "distinct (map fst es)"
    and "\<And>l. lp = Some l \<Longrightarrow> \<exists>ns. l = path_of ns \<and> nibble_list ns \<and> length ns = 64 \<and> ns \<notin> fst ` set es"
  shows "add_overlay_loop add E H ov lp (map (apfst path_of) es) rb = (Ok (add_items (storage_items E es) Map.empty rb))"
  using assms
proof (induction es arbitrary: lp rb)
  case Nil
  then show ?case by (simp add: storage_items_def)
next
  case (Cons e es)
  obtain k v where e: "e = (k, v)" by (cases e)
  have k: "nibble_list k" "length k = 64" "storage_entry_ok e" using Cons.prems(1) by (auto simp: e elim: storage_entry_ok_cases)
  have skip: "\<not> (case lp of Some p \<Rightarrow> raw_path_starts_with (path_of k) p | None \<Rightarrow> False)"
  proof (cases lp)
    case (Some l)
    obtain ns where "l = path_of ns" "nibble_list ns" "length ns = 64" "ns \<notin> fst ` set (e # es)" using Cons.prems(3) [OF Some] by blast
    then show ?thesis using k Some by (auto simp: raw_path_starts_with_eq prefix_def e)
  qed simp
  have rest: "\<forall>e \<in> set es. storage_entry_ok e \<and> nibble_list (fst e) \<and> fst e \<noteq> []" "distinct (map fst es)" "k \<notin> fst ` set es" using Cons.prems(1,2) e by auto
  have to: "to_nibbles (path_of k) = (Ok k :: (_, engine_error) result)" using k by (simp add: to_nibbles_def nibbles_try_from_def)
  have tail: "\<exists>ns. l = path_of ns \<and> nibble_list ns \<and> length ns = 64 \<and> ns \<notin> fst ` set es" if "lp = Some l \<or> l = path_of k" for l
    using that Cons.prems(3) k rest(3) by auto
  from k(3) show ?case
  proof (cases rule: storage_entry_ok_cases)
    case (1 a)
    then show ?thesis using k by (simp add: e)
  next
    case 2
    then show ?thesis using skip Cons.IH [OF rest(1,2), of "Some (path_of k)"] tail by (simp add: e storage_items_def)
  next
    case (3 x)
    then show ?thesis using skip Cons.IH [OF rest(1,2), of lp] tail to by (simp add: e storage_items_def encode_storage_def add_items_leaf)
  qed
qed

lemma storage_items_mem:
  "i \<in> set (storage_items E es) \<longleftrightarrow> (\<exists>k x. (k, Some (OStorage x)) \<in> set es \<and> i = AddLeaf k (x_encode_u256 E x))"
  by (force simp: storage_items_def split: option.splits overlay_value.splits)

lemma storage_items_sorted:
  assumes "sorted_wrt (<) (map fst es)" and "\<forall>e \<in> set es. length (fst e) = 64"
  shows "sorted_wrt before (map item_key (storage_items E es))"
  using assms
proof (induction es)
  case (Cons e es)
  obtain k v where e: "e = (k, v)" by (cases e)
  have "before k (item_key i)" if i': "i \<in> set (storage_items E es)" for i
  proof -
    obtain k' x where i: "(k', Some (OStorage x)) \<in> set es" "i = AddLeaf k' (x_encode_u256 E x)" using i' by (auto simp: storage_items_mem)
    then have "k < k'" "length k' = 64" "length k = 64" using Cons.prems by (auto simp: e)
    then show ?thesis using i(2) by (auto simp: before_def prefix_def)
  qed
  then show ?case using Cons by (auto simp: e storage_items_def [of _ "(k, v) # es"] storage_items_def [of _ es, symmetric] split: option.splits overlay_value.splits)
qed (simp add: storage_items_def)

definition behind :: "overlay_entry list \<Rightarrow> overlay_entry list" where
  "behind es = filter (\<lambda>e. fst e \<noteq> []) es"

lemma behind_props:
  assumes "ov_wf ov" and "\<forall>e \<in> set (entries ov). storage_entry_ok e"
  shows "sorted_wrt (<) (map fst (behind (entries ov)))" "\<forall>e \<in> set (behind (entries ov)). storage_entry_ok e \<and> nibble_list (fst e) \<and> fst e \<noteq> [] \<and> length (fst e) = 64"
    "k \<noteq> [] \<Longrightarrow> map_of (behind (entries ov)) k = map_of (entries ov) k"
proof -
  show "sorted_wrt (<) (map fst (behind (entries ov)))"
    using assms(1) unfolding ov_wf_def behind_def by (auto simp: sorted_wrt_map intro: sorted_wrt_filter)
  show "\<forall>e \<in> set (behind (entries ov)). storage_entry_ok e \<and> nibble_list (fst e) \<and> fst e \<noteq> [] \<and> length (fst e) = 64"
    using assms(2) entries_nibbles [OF assms(1)] storage_entry_ok_length unfolding behind_def by auto
  show "k \<noteq> [] \<Longrightarrow> map_of (behind (entries ov)) k = map_of (entries ov) k"
    unfolding behind_def by (induction "entries ov") (auto simp: map_of_filter_key filter_filter intro!: arg_cong [of _ _ "case_list _ _"] filter_cong)
qed

lemma add_overlay_storage:
  assumes "ov_wf ov" and "\<forall>e \<in> set (entries ov). storage_entry_ok e"
  shows "add_overlay_to_root_builder (Suc fuel) E H ov rb = Ok (add_items (storage_items E (behind (entries ov))) Map.empty rb)"
proof -
  note b = behind_props [OF assms]
  have "distinct (map fst (behind (entries ov)))" using b(1) by (simp add: strict_sorted_iff)
  then show ?thesis
    unfolding add_overlay_to_root_builder.simps overlay_iter_eq [OF assms(1)] bind_result.simps behind_def [symmetric]
    using b(2) by (intro storage_loop) auto
qed

lemma storage_items_cover:
  assumes "ov_wf ov" and "\<forall>e \<in> set (entries ov). storage_entry_ok e"
  shows "covers E w S (storage_layer E) UNIV (storage_items E (behind (entries ov))) (overlaid (storage_layer E) (entries ov) Map.empty)"
proof -
  note b = behind_props [OF assms]
  have dist: "distinct (map fst (behind (entries ov)))" using b(1) by (simp add: strict_sorted_iff)
  have m: "overlaid (storage_layer E) (entries ov) Map.empty k = storage_over (behind (entries ov)) k None" if "key64 k" for k
    using b(3) [of k] key64_ne [OF that] that by (simp add: overlaid_def storage_over_def)
  have "item_den E w S (storage_layer E) i (below (item_key i) (overlaid (storage_layer E) (entries ov) Map.empty))"
    if i': "i \<in> set (storage_items E (behind (entries ov)))" for i
  proof -
    obtain k x where i: "(k, Some (OStorage x)) \<in> set (behind (entries ov))" "i = AddLeaf k (x_encode_u256 E x)" using i' by (auto simp: storage_items_mem)
    then have k: "key64 k" unfolding key64_def using b(2) by auto
    have "map_of (behind (entries ov)) k = Some (Some (OStorage x))" using i(1) dist by simp
    then have v: "overlaid (storage_layer E) (entries ov) Map.empty k = Some x" using m [OF k] by (simp add: storage_over_def)
    have "k' = k" if "key64 k'" "prefix k k'" for k' by (rule key64_prefix_eq [OF k that])
    then have "below k (overlaid (storage_layer E) (entries ov) Map.empty) = [k \<mapsto> x]" using v k by (auto simp: below_def fun_eq_iff)
    then show ?thesis using i(2) k by (auto intro!: exI [of _ x])
  qed
  moreover have "\<exists>i \<in> set (storage_items E (behind (entries ov))). prefix (item_key i) k"
    if k: "key64 k" "overlaid (storage_layer E) (entries ov) Map.empty k \<noteq> None" for k
  proof -
    obtain x where "map_of (behind (entries ov)) k = Some (Some (OStorage x))"
      using k m [OF k(1)] by (auto simp: storage_over_def split: option.splits overlay_value.splits)
    then have "AddLeaf k (x_encode_u256 E x) \<in> set (storage_items E (behind (entries ov)))" by (auto simp: storage_items_mem dest: map_of_SomeD)
    then show ?thesis by force
  qed
  ultimately show ?thesis unfolding covers_def using storage_items_sorted [OF b(1)] b(2) by blast
qed

lemma storage_add:
  assumes "ov_wf ov" and "valid_entries (storage_layer E) (entries ov) Map.empty"
  shows "\<exists>items upd. (\<forall>rb. add_overlay E H ov rb = Ok (add_items items upd rb)) \<and>
    (\<forall>i \<in> set items. \<exists>k b. i = AddLeaf k b \<and> (\<exists>e \<in> set (entries ov). fst e \<noteq> [] \<and> k = take 64 (fst e))) \<and>
    covers E w S (storage_layer E) UNIV items (overlaid (storage_layer E) (entries ov) Map.empty)"
proof -
  have ok: "\<forall>e \<in> set (entries ov). storage_entry_ok e" using assms(2) by (simp add: storage_valid)
  have "add_overlay E H ov rb = Ok (add_items (storage_items E (behind (entries ov))) Map.empty rb)" for rb
    using add_overlay_storage [OF assms(1) ok, of 2] by (simp add: OVERLAY_FUEL_def numeral_3_eq_3 numeral_2_eq_2)
  moreover have "\<exists>k b. i = AddLeaf k b \<and> (\<exists>e \<in> set (entries ov). fst e \<noteq> [] \<and> k = take 64 (fst e))"
    if i: "i \<in> set (storage_items E (behind (entries ov)))" for i
  proof -
    obtain k x where k: "(k, Some (OStorage x)) \<in> set (behind (entries ov))" "i = AddLeaf k (x_encode_u256 E x)" using i by (auto simp: storage_items_mem)
    then have "length k = 64" using behind_props(2) [OF assms(1) ok] by auto
    then show ?thesis using k by (force simp: behind_def)
  qed
  ultimately show ?thesis using storage_items_cover [OF assms(1) ok] by blast
qed

subsection \<open>Leaves\<close>

lemma storage_leaf:
  assumes "storage_trie (64 - length c) t" and "\<not> is_Br t" and "holds E w S p i t" and "node_at E w p i = Some nd" and q: "key64 (c @ node_prefix nd)"
    and ov: "ov_wf ov" and valid: "valid_entries (storage_layer E) (entries ov) (hung c (storage_look t))"
    and pre: "\<forall>e \<in> set (entries ov). prefix (c @ node_prefix nd) (fst e)"
  shows "\<exists>items upd. (\<forall>g stack rb. process_node_kind g E H (path_of (c @ node_prefix nd)) p nd ov stack rb w = (Ok (stack, add_items items upd rb), w)) \<and>
    (\<forall>i \<in> set items. \<exists>k b. i = AddLeaf k b) \<and>
    covers E w S (storage_layer E) {k. prefix (c @ node_prefix nd) k} items (overlaid (storage_layer E) (entries ov) (hung c (storage_look t)))"
proof -
  define k where "k = c @ node_prefix nd"
  obtain v r where t: "t = SLeaf (node_prefix nd) v" "node_kind nd = StorageLeaf r" "x_decode_u256 E r = Some v"
    using assms(1-4) by (cases t) (auto elim!: holds_SLeafE)
  have look: "hung c (storage_look t) k = Some v" using q by (simp add: t(1) hung_def k_def storage_look_def strip_prefix_Some)
  have only: "k' = k" if "key64 k'" "prefix k k'" for k' by (rule key64_prefix_eq [OF _ that]) (use q in \<open>simp add: k_def\<close>)
  have ent: "fst e = k" if "e \<in> set (entries ov)" for e
  proof -
    have "prefix k (fst e)" "storage_entry_ok e" using pre that valid by (auto simp: k_def storage_valid)
    moreover have "fst e \<noteq> []" using calculation(1) key64_ne [OF q] by (auto simp: k_def)
    ultimately have "key64 (fst e)" unfolding key64_def using storage_entry_ok_length [of e] entries_nibbles [OF ov that] by blast
    then show ?thesis using key64_prefix_eq [OF q] \<open>prefix k (fst e)\<close> by (simp add: k_def)
  qed
  show ?thesis
  proof (cases "entries ov")
    case Nil
    have "overlay_hits (path_of k) ov = (Ok None :: (_, engine_error) result)" by (simp add: overlay_hits_def overlay_first_eq [OF ov] Nil)
    moreover have "to_nibbles (path_of k) = (Ok k :: (_, engine_error) result)" using key64D [OF q] by (simp add: to_nibbles_def nibbles_try_from_def k_def)
    ultimately have "process_node_kind g E H (path_of k) p nd ov stack rb w = (Ok (stack, add_items [AddLeaf k r] Map.empty rb), w)" for g stack rb
      by (simp add: process_node_kind_def t(2) action_simps add_items_leaf)
    moreover have "below k (overlaid (storage_layer E) [] (hung c (storage_look t))) = [k \<mapsto> v]"
      using look only q by (auto simp: below_def overlaid_def storage_over_def fun_eq_iff k_def)
    then have "covers E w S (storage_layer E) {k'. prefix k k'} [AddLeaf k r] (overlaid (storage_layer E) (entries ov) (hung c (storage_look t)))"
      using q t(3) by (auto simp: covers_def Nil k_def)
    ultimately show ?thesis unfolding k_def [symmetric] by (intro exI [of _ "[AddLeaf k r]"] exI [of _ Map.empty]) simp
  next
    case (Cons e es)
    have hit: "overlay_hits (path_of k) ov = (Ok (Some (snd e)) :: (_, engine_error) result)"
      using ent [of e] by (simp add: overlay_hits_def overlay_first_eq [OF ov] Cons apfst_def map_prod_def split_def)
    have m: "map_of (entries ov) k = Some (snd e)" using ent [of e] by (simp add: Cons)
    obtain items upd where i: "\<And>rb. add_overlay E H ov rb = Ok (add_items items upd rb)"
      "\<And>i. i \<in> set items \<Longrightarrow> \<exists>k b. i = AddLeaf k b \<and> (\<exists>e \<in> set (entries ov). fst e \<noteq> [] \<and> k = take 64 (fst e))"
      "covers E w S (storage_layer E) UNIV items (overlaid (storage_layer E) (entries ov) Map.empty)"
      using storage_add [OF ov, of E H w S] valid by (auto simp: storage_valid)
    have "item_key i \<in> {k'. prefix k k'}" if "i \<in> set items" for i using i(2) [OF that] ent q by (force simp: k_def)
    then have "covers E w S (storage_layer E) {k'. prefix k k'} items (overlaid (storage_layer E) (entries ov) Map.empty)"
      by (intro covers_region [OF i(3)]) auto
    then have "covers E w S (storage_layer E) {k'. prefix k k'} items (overlaid (storage_layer E) (entries ov) (hung c (storage_look t)))"
    proof (rule covers_cong)
      fix k'
      assume "k' \<in> {k'. prefix k k'}" "key64 k'"
      then have "k' = k" using only by blast
      then show "overlaid (storage_layer E) (entries ov) (hung c (storage_look t)) k' = overlaid (storage_layer E) (entries ov) Map.empty k'"
        using m by (simp add: overlaid_def storage_over_def)
    qed simp
    moreover have "process_node_kind g E H (path_of k) p nd ov stack rb w = (Ok (stack, add_items items upd rb), w)" for g stack rb
      using hit i(1) by (simp add: process_node_kind_def t(2) action_simps)
    ultimately show ?thesis unfolding k_def [symmetric] using i(2) by blast
  qed
qed

subsection \<open>The laws of the layer\<close>

lemma storage_look_Br:
  "storage_look (Br pre cs) r = (case strip_prefix pre r of
     Some (b # s) \<Rightarrow> (if unat b < length cs then case cs ! unat b of None \<Rightarrow> None | Some t \<Rightarrow> storage_look t s else None) | _ \<Rightarrow> None)"
  by (auto simp: storage_look_def split: option.splits list.splits)

interpretation storage: trie_layer E H w S "storage_layer E" True for E :: externals and H :: "'u hash_builder" and w :: world and S :: "page_id set"
proof unfold_locales
  show "ly_ok (storage_layer E) e \<Longrightarrow> (fst e = [] \<and> (\<exists>a. snd e = Some (OAccount a))) \<or> 64 \<le> length (fst e)" for e
    by (auto elim: storage_entry_ok_cases)
  show "ly_ok (storage_layer E) e \<Longrightarrow> snd e \<noteq> Some (OHash h)" for e h by (auto simp: storage_entry_ok_def)
  show "ly_over (storage_layer E) es k x = ly_over (storage_layer E) (entries_at k es) k x" for es k x
    using storage_over_local by simp
  show "ly_over (storage_layer E) [] k x = x" for k x by (simp add: storage_over_def)
  show "ly_over (storage_layer E) ((path, Some v) # es) (take 64 path) (m (take 64 path)) \<noteq> None"
    if "valid_entries (storage_layer E) ((path, Some v) # es) m" "path \<noteq> []" for path v es m
    using that by (auto simp: storage_valid storage_over_def elim: storage_entry_ok_cases)
  show "ly_over (storage_layer E) ((path, val) # es) path x = ly_over (storage_layer E) ((path, val) # es) path y" for path val es x y
    by (simp add: storage_over_def split: option.splits overlay_value.splits)
  show "length pre < n \<and> length cs = 16 \<and> (\<exists>t. Some t \<in> set cs) \<and> (\<forall>t. Some t \<in> set cs \<longrightarrow> ly_shape (storage_layer E) (n - length pre - 1) t)"
    if "ly_shape (storage_layer E) n (Br pre cs)" for n pre cs
    using that by (auto simp: list_all_iff list_ex_iff split: option.splits)
  show "ly_shape (storage_layer E) n t \<Longrightarrow> \<not> is_Br t \<Longrightarrow> length (trie_prefix t) = n" for n t by (cases t) auto
  show "ly_look (storage_layer E) (Br pre cs) r = (case strip_prefix pre r of
     Some (b # s) \<Rightarrow> (if unat b < length cs then case cs ! unat b of None \<Rightarrow> None | Some t \<Rightarrow> ly_look (storage_layer E) t s else None) | _ \<Rightarrow> None)" for pre cs r
    unfolding storage_layer_simps by (rule storage_look_Br)
  show "ly_shape (storage_layer E) n t \<Longrightarrow> \<not> is_Br t \<Longrightarrow> length r = n \<Longrightarrow> (ly_look (storage_layer E) t r \<noteq> None) = (r = trie_prefix t)" for n t r
    by (cases t) (auto simp: storage_look_def strip_prefix_Some)
  show "\<exists>N items upd. (\<forall>f \<ge> N. \<forall>stack rb. process_node_kind (compute_root_with_overlay f E H) E H (path_of (c @ node_prefix nd)) p nd ov stack rb w =
        (Ok (stack, add_items items upd rb), w)) \<and> (\<forall>i \<in> set items. \<exists>k b. i = AddLeaf k b) \<and>
      covers E w S (storage_layer E) {k. prefix (c @ node_prefix nd) k} items (overlaid (storage_layer E) (entries ov) (hung c (ly_look (storage_layer E) t)))"
    if "ly_shape (storage_layer E) (64 - length c) t" "\<not> is_Br t" "holds E w S p i t" "node_at E w p i = Some nd" "key64 (c @ node_prefix nd)" "ov_wf ov"
      "valid_entries (storage_layer E) (entries ov) (hung c (ly_look (storage_layer E) t))" "\<forall>e \<in> set (entries ov). prefix (c @ node_prefix nd) (fst e)"
    for c t p i nd ov
    using storage_leaf [OF _ that(2-6) _ that(8), of H] that(1,7) unfolding storage_layer_simps by blast
qed (rule storage_add)

end
