(* ===== verification/State_Root.thy ===== *)
theory State_Root
  imports Storage_Root
begin

text \<open>
  The state trie as a layer of the overlaid root computation, and the root of a snapshot with an
  overlay. The values of this layer are accounts together with the content of their storage. Where a
  leaf of the state trie is added to the hash builder, the storage root in it is the one computed from
  items that cover the overlaid storage, or the stored hash of an untouched storage trie.
\<close>

subsection \<open>The layer\<close>

record account_view =
  av_nonce :: u64
  av_balance :: u256
  av_code :: bytes
  av_slots :: "nibbles \<Rightarrow> u256 option"

definition slots_of :: "trie option \<Rightarrow> nibbles \<Rightarrow> u256 option" where
  "slots_of root = (case root of None \<Rightarrow> Map.empty | Some t \<Rightarrow> hung [] (storage_look t))"

definition account_view_of :: "account \<Rightarrow> (nibbles \<Rightarrow> u256 option) \<Rightarrow> account_view" where
  "account_view_of a m = \<lparr>av_nonce = acc_nonce a, av_balance = acc_balance a, av_code = acc_code_hash a, av_slots = m\<rparr>"

fun account_look :: "trie \<Rightarrow> nibbles \<Rightarrow> account_view option" where
  "account_look (SLeaf pre v) k = None"
| "account_look (ALeaf pre a root) k = (if k = pre then Some (account_view_of a (slots_of root)) else None)"
| "account_look (Br pre cs) k =
     (case strip_prefix pre k of
        Some (b # s) \<Rightarrow> (if unat b < length cs then case cs ! unat b of None \<Rightarrow> None | Some t \<Rightarrow> account_look t s else None)
      | _ \<Rightarrow> None)"

text \<open>An account or its deletion lies at 64 nibbles, a slot or its deletion at 128.\<close>

definition account_entry_ok :: "overlay_entry \<Rightarrow> bool" where
  "account_entry_ok e \<longleftrightarrow>
     (case snd e of
        Some (OAccount a) \<Rightarrow> length (fst e) = 64 \<and> length (acc_code_hash a) = 32
      | Some (OStorage _) \<Rightarrow> length (fst e) = 128
      | Some (OHash _) \<Rightarrow> False
      | None \<Rightarrow> length (fst e) = 64 \<or> length (fst e) = 128)"

definition slot_entries :: "nibbles \<Rightarrow> overlay_entry list \<Rightarrow> overlay_entry list" where
  "slot_entries k es = map (apfst (drop 64)) (filter (\<lambda>e. 64 < length (fst e)) (entries_at k es))"

definition slots_over :: "overlay_entry list \<Rightarrow> (nibbles \<Rightarrow> u256 option) \<Rightarrow> nibbles \<Rightarrow> u256 option" where
  "slots_over es m = (\<lambda>k. storage_over es k (m k))"

definition account_over :: "overlay_entry list \<Rightarrow> nibbles \<Rightarrow> account_view option \<Rightarrow> account_view option" where
  "account_over es k x =
     (case map_of es k of
        None \<Rightarrow> map_option (\<lambda>v. v\<lparr>av_slots := slots_over (slot_entries k es) (av_slots v)\<rparr>) x
      | Some (Some (OAccount a)) \<Rightarrow>
          Some (account_view_of a (slots_over (slot_entries k es) (case x of None \<Rightarrow> Map.empty | Some v \<Rightarrow> av_slots v)))
      | Some _ \<Rightarrow> None)"

text \<open>A hash that stands for the content of a storage trie, and the bytes of an account leaf.\<close>

definition root_repr :: "externals \<Rightarrow> 'u hash_builder \<Rightarrow> world \<Rightarrow> page_id set \<Rightarrow> bytes \<Rightarrow> (nibbles \<Rightarrow> u256 option) \<Rightarrow> bool" where
  "root_repr E H w S h m \<longleftrightarrow>
     (\<exists>items. h = hb_root H items \<and> covers E w S (storage_layer E) UNIV items m \<and> hashes_paired {} items) \<or>
     (\<exists>t. stored_by_hash E w S h t \<and> storage_trie 64 t \<and> m = slots_of (Some t)) \<or>
     (h = x_empty_root_hash E \<and> m = Map.empty)"

definition account_repr :: "externals \<Rightarrow> 'u hash_builder \<Rightarrow> world \<Rightarrow> page_id set \<Rightarrow> bytes \<Rightarrow> account_view \<Rightarrow> bool" where
  "account_repr E H w S b v \<longleftrightarrow>
     (\<exists>h. root_repr E H w S h (av_slots v) \<and>
        (b = hb_encode_account H \<lparr>acc_nonce = av_nonce v, acc_balance = av_balance v, acc_storage_root = h, acc_code_hash = av_code v\<rparr> \<or>
         (\<exists>nonce bal. b = encode_account_leaf nonce bal (av_code v) h \<and>
            x_decode_u64 E nonce = Some (av_nonce v) \<and> x_decode_u256 E bal = Some (av_balance v))))"

definition account_layer :: "externals \<Rightarrow> 'u hash_builder \<Rightarrow> world \<Rightarrow> page_id set \<Rightarrow> account_view layer" where
  "account_layer E H w S =
     \<lparr>ly_look = account_look,
      ly_shape = (\<lambda>n t. account_trie n t \<and> branching t),
      ly_repr = account_repr E H w S,
      ly_ok = account_entry_ok,
      ly_over = account_over\<rparr>"

lemma account_layer_simps [simp]:
  "ly_look (account_layer E H w S) = account_look" "ly_shape (account_layer E H w S) n t \<longleftrightarrow> account_trie n t \<and> branching t"
  "ly_repr (account_layer E H w S) = account_repr E H w S"
  "ly_ok (account_layer E H w S) = account_entry_ok" "ly_over (account_layer E H w S) = account_over"
  by (simp_all add: account_layer_def)

text \<open>What is assumed of the libraries and of the stored pointers: hashes have 32 bytes, and the root of a storage trie is referenced by its hash.\<close>

definition hashed_roots :: "externals \<Rightarrow> world \<Rightarrow> page_id set \<Rightarrow> bool" where
  "hashed_roots E w S \<longleftrightarrow>
     (\<forall>p \<in> S. \<forall>i nd nonce bal code ptr. node_at E w p i = Some nd \<and> node_kind nd = AccountLeaf nonce bal code (Some ptr) \<longrightarrow>
        x_as_hash E (ptr_rlp ptr) \<noteq> None)"

definition hash_laws :: "externals \<Rightarrow> 'u hash_builder \<Rightarrow> bool" where
  "hash_laws E H \<longleftrightarrow>
     rlp_node_laws E \<and> nibble_pack_laws E \<and> rlp_int_laws E \<and> length (x_empty_root_hash E) = 32 \<and> length (x_keccak_empty E) = 32 \<and>
     (\<forall>items. length (hb_root H items) = 32)"

definition account_env :: "externals \<Rightarrow> 'u hash_builder \<Rightarrow> world \<Rightarrow> page_id set \<Rightarrow> bool" where
  "account_env E H w S \<longleftrightarrow> hash_laws E H \<and> hashed_roots E w S"

subsection \<open>Entries\<close>

lemma account_entry_cases:
  assumes "account_entry_ok e"
  obtains (account) a where "length (fst e) = 64" "snd e = Some (OAccount a)" "length (acc_code_hash a) = 32"
  | (gone) "length (fst e) = 64" "snd e = None"
  | (slot) "length (fst e) = 128" "snd e = None \<or> (\<exists>v. snd e = Some (OStorage v))"
  using assms by (auto simp: account_entry_ok_def split: option.splits overlay_value.splits)

lemma account_over_local: "account_over es k x = account_over (entries_at k es) k x"
  unfolding account_over_def map_of_entries_at slot_entries_def entries_at_at [OF prefix_order.refl] ..

lemma slots_over_nil [simp]: "slots_over [] m = m"
  by (simp add: slots_over_def storage_over_def)

lemma account_over_nil [simp]: "account_over [] k x = x"
  by (cases x) (simp_all add: account_over_def slot_entries_def entries_at_def)

text \<open>The changes of an account's storage, as the storage layer sees them.\<close>

definition behind_key :: "overlay_entry list \<Rightarrow> overlay_entry list" where
  "behind_key es = map (apfst (drop 64)) es"

lemma slots_over_behind:
  assumes "\<forall>e \<in> set es. prefix q (fst e)" and "length q = 64" and "key64 k"
  shows "slots_over (slot_entries q es) m k = overlaid (storage_layer E) (behind_key es) m k"
proof -
  have "map_of (behind_key es) k = map_of (slot_entries q es) k"
    using assms(1)
  proof (induction es)
    case (Cons e es)
    have "drop 64 (fst e) \<noteq> k" if "\<not> 64 < length (fst e)" using that key64_ne [OF assms(3)] by auto
    then show ?case using Cons by (cases e) (auto simp: slot_entries_def entries_at_def behind_key_def)
  qed (simp add: slot_entries_def entries_at_def behind_key_def)
  then show ?thesis using assms(3) by (simp add: slots_over_def overlaid_def storage_over_def)
qed

lemma behind_key_ok:
  assumes "\<forall>e \<in> set es. account_entry_ok e \<and> prefix q (fst e)" and "length q = 64" and "map_of es q \<noteq> Some None" and "distinct (map fst es)"
  shows "\<forall>e \<in> set (behind_key es). storage_entry_ok e"
proof
  fix d
  assume "d \<in> set (behind_key es)"
  then obtain e where e: "e \<in> set es" "d = (drop 64 (fst e), snd e)" by (auto simp: behind_key_def)
  then have ok: "account_entry_ok e" "prefix q (fst e)" using assms(1) by auto
  from ok(1) show "storage_entry_ok d"
  proof (cases rule: account_entry_cases)
    case gone
    then have "fst e = q" using ok(2) assms(2) by (auto simp: prefix_def)
    then have "map_of es q = Some None" using e(1) assms(4) gone(2) by (metis map_of_is_SomeI prod.collapse)
    then show ?thesis using assms(3) by simp
  qed (auto simp: e(2) storage_entry_ok_def split: option.splits overlay_value.splits)
qed

subsection \<open>Adding an overlay\<close>

definition new_view :: "overlay_state \<Rightarrow> nibbles \<Rightarrow> account \<Rightarrow> account_view" where
  "new_view ov k a = account_view_of a (slots_over (slot_entries k (entries ov)) Map.empty)"

lemma entries_distinct: "ov_wf ov \<Longrightarrow> distinct (map fst (entries ov))"
  by (simp add: ov_wf_def strict_sorted_iff)

lemma to_nibbles_key: "length k \<le> 64 \<Longrightarrow> to_nibbles (path_of k) = Ok k"
  by (simp add: to_nibbles_def nibbles_try_from_def)

text \<open>The storage of an account, cut out of the overlay.\<close>

lemma account_storage_overlay:
  assumes "ov_wf ov" and "\<forall>e \<in> set (entries ov). account_entry_ok e" and "nibble_list k" and "length k = 64" and "map_of (entries ov) k = Some (Some (OAccount a))"
  shows "\<exists>sub so. sub_slice_for_prefix (path_of k) ov = (Ok sub :: (_, 'e) result) \<and> with_prefix_offset 64 sub = (Ok so :: (_, 'e) result) \<and> ov_wf so \<and>
    entries so = behind_key (entries_at k (entries ov)) \<and> entries so \<noteq> [] \<and> (\<forall>e \<in> set (entries so). storage_entry_ok e)"
proof -
  obtain sub where sub: "sub_slice_for_prefix (path_of k) ov = (Ok sub :: (_, 'e) result)" "ov_wf sub" "entries sub = entries_at k (entries ov)"
    using sub_slice_for_prefix_eq [OF assms(1,3)] unfolding entries_at_def by blast
  have "\<forall>e \<in> set (entries sub). prefix k (fst e)" by (simp add: sub(3) entries_at_def)
  from with_prefix_offset_ok [OF sub(2) this] assms(4)
  obtain so where so: "with_prefix_offset 64 sub = (Ok so :: (_, 'e) result)" "ov_wf so" "entries so = behind_key (entries_at k (entries ov))"
    by (auto simp: sub(3) behind_key_def)
  have "(k, Some (OAccount a)) \<in> set (entries_at k (entries ov))" using assms(5) by (auto simp: entries_at_def dest: map_of_SomeD)
  then have "entries so \<noteq> []" by (auto simp: so(3) behind_key_def)
  moreover have "\<forall>e \<in> set (entries so). storage_entry_ok e"
    unfolding so(3)
  proof (rule behind_key_ok)
    show "\<forall>e \<in> set (entries_at k (entries ov)). account_entry_ok e \<and> prefix k (fst e)" using assms(2) by (simp add: entries_at_def)
    show "map_of (entries_at k (entries ov)) k \<noteq> Some None" using assms(5) by (simp add: map_of_entries_at)
    show "distinct (map fst (entries_at k (entries ov)))" using entries_distinct [OF sub(2)] by (simp add: sub(3))
  qed (rule assms(4))
  ultimately show ?thesis using sub so by blast
qed

lemma covered_slots:
  assumes "covers E w S (storage_layer E) UNIV items (overlaid (storage_layer E) (behind_key (entries_at k es)) m)" and "length k = 64" 
  shows "covers E w S (storage_layer E) UNIV items (slots_over (slot_entries k es) m)"
proof (rule covers_cong [OF assms(1)])
  fix s
  assume "key64 s"
  moreover have "slot_entries k es = slot_entries k (entries_at k es)" by (simp add: slot_entries_def entries_at_at)
  ultimately show "slots_over (slot_entries k es) m s = overlaid (storage_layer E) (behind_key (entries_at k es)) m s"
    using slots_over_behind [of "entries_at k es" k s m E] assms(2) by (simp add: entries_at_def)
qed simp

lemma overlayed_account_step:
  fixes H :: "'u hash_builder"
  assumes "ov_wf ov" and "\<forall>e \<in> set (entries ov). account_entry_ok e" and "nibble_list k" and "length k = 64" and "map_of (entries ov) k = Some (Some (OAccount a))"
    and "hash_laws E H"
  shows "\<exists>b upd. account_repr E H w S b (new_view ov k a) \<and> (\<forall>rb g.
    bind_result (sub_slice_for_prefix (path_of k) ov) (\<lambda>sub.
    bind_result (with_prefix_offset 64 sub) (\<lambda>storage_overlay.
    bind_result (to_nibbles (path_of k)) (\<lambda>key.
    bind_result (unwrap (process_overlayed_account (add_overlay_to_root_builder (Suc f) E H) E H key a storage_overlay rb)) g))) =
    (g (add_items [AddLeaf k b] upd rb) :: ('u root_builder, engine_error) result))"
proof -
  obtain sub so where so: "sub_slice_for_prefix (path_of k) ov = (Ok sub :: (_, engine_error) result)" "with_prefix_offset 64 sub = (Ok so :: (_, engine_error) result)" "ov_wf so"
    "entries so = behind_key (entries_at k (entries ov))" "entries so \<noteq> []" "\<forall>e \<in> set (entries so). storage_entry_ok e"
    using account_storage_overlay [OF assms(1-5)] by blast
  define items where "items = storage_items E (behind (entries so))"
  define key where "key = x_pack_to E k"
  have key: "b256_of_nibbles E k = (Ok key :: (_, engine_error) result)"
    using assms(4,6) nibble_pack_lawsD(1) [of E k] by (simp add: b256_of_nibbles_def key_def hash_laws_def)
  have "process_overlayed_account (add_overlay_to_root_builder (Suc f) E H) E H k a so rb =
      Ok (add_items [AddLeaf k (encode_account_with_root H a (hb_root H items))] [key \<mapsto> hb_updates H items] rb)" for rb
    unfolding process_overlayed_account_def add_overlay_storage [OF so(3,6)] using so(5) key
    by (simp add: overlay_is_empty_eq [OF so(3)] Let_def add_storage_branch_updates_def rb_add_leaf_def add_items_def root_builder_new_def items_def)
  moreover have "covers E w S (storage_layer E) UNIV items (slots_over (slot_entries k (entries ov)) Map.empty)"
    using storage_items_cover [OF so(3,6), of E w S] covered_slots assms(4) unfolding so(4) items_def by blast
  then have "root_repr E H w S (hb_root H items) (slots_over (slot_entries k (entries ov)) Map.empty)"
    unfolding root_repr_def using hashes_paired_leaves [of items "{}"] by (auto simp: items_def storage_items_mem)
  then have "account_repr E H w S (encode_account_with_root H a (hb_root H items)) (new_view ov k a)"
    unfolding account_repr_def by (auto simp: new_view_def account_view_of_def encode_account_with_root_def)
  ultimately show ?thesis using so(1,2) assms(4) by (auto simp: to_nibbles_key)
qed

text \<open>
  The loop over the changes. A slot is always behind its account, which has been processed or deleted
  just before, so that the loop skips it.
\<close>

definition loop_ready :: "raw_path option \<Rightarrow> overlay_entry list \<Rightarrow> bool" where
  "loop_ready lp xs \<longleftrightarrow>
     sorted_wrt (<) (map fst xs) \<and>
     (\<forall>e \<in> set xs. account_entry_ok e \<and> nibble_list (fst e) \<and>
        (64 < length (fst e) \<longrightarrow> take 64 (fst e) \<in> fst ` set xs \<or> lp = Some (path_of (take 64 (fst e))))) \<and>
     (\<forall>l. lp = Some l \<longrightarrow> (\<exists>ns. l = path_of ns \<and> nibble_list ns \<and> length ns = 64 \<and> (\<forall>e \<in> set xs. ns < fst e)))"

lemma loop_ready_skip:
  assumes "loop_ready lp (e # xs)" and "64 < length (fst e)"
  shows "lp = Some (path_of (take 64 (fst e)))" "loop_ready lp xs"
proof -
  have "take 64 (fst e) \<notin> fst ` set (e # xs)"
  proof -
    have "take 64 (fst e) \<noteq> fst e" using assms(2) by (metis length_take less_irrefl min.absorb4)
    then have "take 64 (fst e) < fst e" using take_is_prefix prefix_not_less linorder_neqE by blast
    then show ?thesis using assms(1) by (auto simp: loop_ready_def)
  qed
  then show lp: "lp = Some (path_of (take 64 (fst e)))" using assms by (auto simp: loop_ready_def)
  have "take 64 (fst d) \<noteq> fst e" for d using assms(2) by (metis length_take min.cobounded2 not_le)
  then show "loop_ready lp xs" using assms(1) by (auto simp: loop_ready_def)
qed

lemma loop_ready_take:
  assumes "loop_ready lp (e # xs)" and "length (fst e) = 64"
  shows "\<not> (case lp of Some p \<Rightarrow> raw_path_starts_with (path_of (fst e)) p | None \<Rightarrow> False)" "loop_ready (Some (path_of (fst e))) xs"
proof -
  have e: "nibble_list (fst e)" using assms(1) by (simp add: loop_ready_def)
  show "\<not> (case lp of Some p \<Rightarrow> raw_path_starts_with (path_of (fst e)) p | None \<Rightarrow> False)"
  proof (cases lp)
    case (Some l)
    then obtain ns where "l = path_of ns" "nibble_list ns" "length ns = 64" "ns < fst e" using assms(1) by (auto simp: loop_ready_def)
    then show ?thesis using Some e assms(2) by (auto simp: raw_path_starts_with_eq prefix_def)
  qed simp
  have "take 64 (fst d) \<in> fst ` set xs \<or> take 64 (fst d) = fst e" if "d \<in> set xs" "64 < length (fst d)" for d
  proof (cases "lp = Some (path_of (take 64 (fst d)))")
    case True
    then have "take 64 (fst d) < fst e" "length (take 64 (fst d)) = 64" using assms(1) by (auto simp: loop_ready_def)
    moreover have "fst e < fst d" using assms(1) that(1) by (auto simp: loop_ready_def)
    then have "take 64 (fst e) \<le> take 64 (fst d)" by (intro take_le_mono) simp
    ultimately show ?thesis using assms(2) by simp
  qed (use assms(1) that in \<open>auto simp: loop_ready_def\<close>)
  then show "loop_ready (Some (path_of (fst e))) xs" using assms e unfolding loop_ready_def by fastforce
qed

lemma account_loop:
  fixes H :: "'u hash_builder"
  assumes "ov_wf ov" and "\<forall>e \<in> set (entries ov). account_entry_ok e" and "hash_laws E H" and "loop_ready lp xs" and "set xs \<subseteq> set (entries ov)"
  shows "\<exists>items upd. (\<forall>rb. add_overlay_loop (add_overlay_to_root_builder (Suc f) E H) E H ov lp (map (apfst path_of) xs) rb = Ok (add_items items upd rb)) \<and>
    (\<forall>i \<in> set items. \<exists>k a b. i = AddLeaf k b \<and> (k, Some (OAccount a)) \<in> set xs \<and> account_repr E H w S b (new_view ov k a)) \<and>
    (\<forall>k a. (k, Some (OAccount a)) \<in> set xs \<longrightarrow> k \<in> item_key ` set items) \<and> sorted_wrt before (map item_key items)"
  using assms(4,5)
proof (induction xs arbitrary: lp)
  case Nil
  then show ?case by (intro exI [of _ "[]"] exI [of _ Map.empty]) simp
next
  case (Cons e xs)
  obtain k v where e: "e = (k, v)" by (cases e)
  have ok: "account_entry_ok (k, v)" "nibble_list k" using Cons.prems(1) by (auto simp: loop_ready_def e)
  from ok(1) show ?case
  proof (cases rule: account_entry_cases)
    case slot
    note skip = loop_ready_skip [OF Cons.prems(1)]
    have "raw_path_starts_with (path_of k) (path_of (take 64 k))"
      using slot(1) ok(2) nibble_list_subl [OF ok(2), of 0 64] by (simp add: raw_path_starts_with_eq take_is_prefix subl_def)
    then have "add_overlay_loop add E H ov lp (map (apfst path_of) (e # xs)) rb = add_overlay_loop add E H ov lp (map (apfst path_of) xs) rb" for add rb
      using skip(1) slot(1) by (simp add: e)
    moreover have "(l, Some (OAccount a)) \<in> set (e # xs) \<longleftrightarrow> (l, Some (OAccount a)) \<in> set xs" for l a using slot(2) by (auto simp: e)
    moreover have "loop_ready lp xs" using skip(2) slot(1) by (simp add: e)
    ultimately show ?thesis using Cons.IH Cons.prems(2) by simp
  next
    case gone
    note take = loop_ready_take [OF Cons.prems(1), unfolded e fst_conv]
    then have "add_overlay_loop add E H ov lp (map (apfst path_of) (e # xs)) rb = add_overlay_loop add E H ov (Some (path_of k)) (map (apfst path_of) xs) rb" for add rb
      using gone by (simp add: e)
    moreover have "(l, Some (OAccount a)) \<in> set (e # xs) \<longleftrightarrow> (l, Some (OAccount a)) \<in> set xs" for l a using gone(2) by (auto simp: e)
    moreover have "loop_ready (Some (path_of k)) xs" using take(2) gone(1) by (simp add: e)
    ultimately show ?thesis using Cons.IH Cons.prems(2) by simp
  next
    case (account a)
    note take = loop_ready_take [OF Cons.prems(1), unfolded e fst_conv]
    have m: "map_of (entries ov) k = Some (Some (OAccount a))"
      using Cons.prems(2) account entries_distinct [OF assms(1)] by (auto simp: e)
    have len: "length k = 64" using account(1) by simp
    obtain b u where b: "account_repr E H w S b (new_view ov k a)" "\<And>rb g.
        bind_result (sub_slice_for_prefix (path_of k) ov) (\<lambda>sub. bind_result (with_prefix_offset 64 sub) (\<lambda>storage_overlay.
        bind_result (to_nibbles (path_of k)) (\<lambda>key.
        bind_result (unwrap (process_overlayed_account (add_overlay_to_root_builder (Suc f) E H) E H key a storage_overlay rb)) g))) =
        (g (add_items [AddLeaf k b] u rb) :: ('u root_builder, engine_error) result)"
      using overlayed_account_step [OF assms(1,2) ok(2) len m assms(3), of w S f] by (elim exE conjE) blast
    obtain items upd where i: "\<And>rb. add_overlay_loop (add_overlay_to_root_builder (Suc f) E H) E H ov (Some (path_of k)) (map (apfst path_of) xs) rb = Ok (add_items items upd rb)"
      "\<And>i. i \<in> set items \<Longrightarrow> \<exists>k a b. i = AddLeaf k b \<and> (k, Some (OAccount a)) \<in> set xs \<and> account_repr E H w S b (new_view ov k a)"
      "\<And>k a. (k, Some (OAccount a)) \<in> set xs \<Longrightarrow> k \<in> item_key ` set items" "sorted_wrt before (map item_key items)"
      using Cons.IH [OF take(2) [OF len]] Cons.prems(2) by (meson set_subset_Cons subset_trans)
    have first: "before k (item_key i)" if "i \<in> set items" for i
    proof -
      obtain k' a' b' where k': "i = AddLeaf k' b'" "(k', Some (OAccount a')) \<in> set xs" using i(2) \<open>i \<in> set items\<close> by blast
      then have "k < k'" "length k' = 64" using Cons.prems(1) by (auto simp: loop_ready_def e account_entry_ok_def)
      then show ?thesis using k'(1) account(1) by (auto simp: before_def prefix_def)
    qed
    have "add_overlay_loop (add_overlay_to_root_builder (Suc f) E H) E H ov lp (map (apfst path_of) (e # xs)) rb = Ok (add_items (AddLeaf k b # items) (u ++ upd) rb)" for rb
      using take(1) [OF len] account(2) b(2) [of rb "add_overlay_loop (add_overlay_to_root_builder (Suc f) E H) E H ov (Some (path_of k)) (map (apfst path_of) xs)"] i(1)
      by (simp add: e del: add_overlay_to_root_builder.simps)
    moreover have "\<forall>i \<in> set (AddLeaf k b # items). \<exists>k a b. i = AddLeaf k b \<and> (k, Some (OAccount a)) \<in> set (e # xs) \<and> account_repr E H w S b (new_view ov k a)"
    proof
      fix i
      assume "i \<in> set (AddLeaf k b # items)"
      then consider "i = AddLeaf k b" | "i \<in> set items" by auto
      then show "\<exists>k a b. i = AddLeaf k b \<and> (k, Some (OAccount a)) \<in> set (e # xs) \<and> account_repr E H w S b (new_view ov k a)"
        by cases (use b(1) account(2) i(2) in \<open>auto simp: e\<close>, use i(2) in blast)
    qed
    moreover have "\<forall>l a. (l, Some (OAccount a)) \<in> set (e # xs) \<longrightarrow> l \<in> item_key ` set (AddLeaf k b # items)" using i(3) by (auto simp: e)
    moreover have "sorted_wrt before (map item_key (AddLeaf k b # items))" using i(4) first by simp
    ultimately show ?thesis by blast
  qed
qed

lemma account_valid_ok: "valid_entries (account_layer E H w S) es m \<Longrightarrow> e \<in> set es \<Longrightarrow> account_entry_ok e"
  by (simp add: valid_entries_def)

lemma account_entry_length: "account_entry_ok e \<Longrightarrow> 64 \<le> length (fst e)"
  by (erule account_entry_cases) auto

lemma account_add:
  fixes H :: "'u hash_builder"
  assumes "hash_laws E H" and "ov_wf ov" and "valid_entries (account_layer E H w S) (entries ov) Map.empty"
  shows "\<exists>items upd. (\<forall>rb. add_overlay E H ov rb = Ok (add_items items upd rb)) \<and>
    (\<forall>i \<in> set items. \<exists>k b. i = AddLeaf k b \<and> (\<exists>e \<in> set (entries ov). fst e \<noteq> [] \<and> k = take 64 (fst e))) \<and>
    covers E w S (account_layer E H w S) UNIV items (overlaid (account_layer E H w S) (entries ov) Map.empty)"
proof -
  have ok: "\<forall>e \<in> set (entries ov). account_entry_ok e" using assms(3) by (simp add: valid_entries_def)
  have "fst e \<noteq> []" if "e \<in> set (entries ov)" for e using ok that account_entry_length by fastforce
  then have "filter (\<lambda>e. fst e \<noteq> []) (entries ov) = entries ov" by (simp add: filter_id_conv)
  then have iter: "overlay_iter ov = (Ok (map (apfst path_of) (entries ov)) :: (_, engine_error) result)" using overlay_iter_eq [OF assms(2)] by simp
  have ready: "loop_ready None (entries ov)"
    using assms(2,3) entries_nibbles [OF assms(2)] unfolding loop_ready_def valid_entries_def ov_wf_def by auto
  obtain items upd where i: "\<And>rb. add_overlay_loop (add_overlay_to_root_builder 2 E H) E H ov None (map (apfst path_of) (entries ov)) rb = Ok (add_items items upd rb)"
    "\<And>i. i \<in> set items \<Longrightarrow> \<exists>k a b. i = AddLeaf k b \<and> (k, Some (OAccount a)) \<in> set (entries ov) \<and> account_repr E H w S b (new_view ov k a)"
    "\<And>k a. (k, Some (OAccount a)) \<in> set (entries ov) \<Longrightarrow> k \<in> item_key ` set items" "sorted_wrt before (map item_key items)"
    using account_loop [OF assms(2) ok assms(1) ready subset_refl, of 1 w S] unfolding Suc_1 [symmetric] by (elim exE conjE) blast
  have view: "overlaid (account_layer E H w S) (entries ov) Map.empty k = (case map_of (entries ov) k of Some (Some (OAccount a)) \<Rightarrow> Some (new_view ov k a) | _ \<Rightarrow> None)"
    if "key64 k" for k
    using that by (simp add: overlaid_def account_over_def new_view_def split: option.splits overlay_value.splits)
  have den: "item_den E w S (account_layer E H w S) i (below (item_key i) (overlaid (account_layer E H w S) (entries ov) Map.empty)) \<and>
      (\<exists>k b. i = AddLeaf k b \<and> (\<exists>e \<in> set (entries ov). fst e \<noteq> [] \<and> k = take 64 (fst e)))" if mem: "i \<in> set items" for i
  proof -
    obtain k a b where k: "i = AddLeaf k b" "(k, Some (OAccount a)) \<in> set (entries ov)" "account_repr E H w S b (new_view ov k a)" using i(2) [OF mem] by blast
    have len: "length k = 64" using ok k(2) by (fastforce simp: account_entry_ok_def)
    then have key: "key64 k" unfolding key64_def using entries_nibbles [OF assms(2) k(2)] by simp
    have "map_of (entries ov) k = Some (Some (OAccount a))" using k(2) entries_distinct [OF assms(2)] by simp
    then have "overlaid (account_layer E H w S) (entries ov) Map.empty k = Some (new_view ov k a)" using view [OF key] by simp
    then have "below k (overlaid (account_layer E H w S) (entries ov) Map.empty) = [k \<mapsto> new_view ov k a]"
      using key64_prefix_eq [OF key] key by (auto simp: below_def fun_eq_iff)
    moreover have "\<exists>e \<in> set (entries ov). fst e \<noteq> [] \<and> k = take 64 (fst e)" using k(2) len by (intro bexI [of _ "(k, Some (OAccount a))"]) auto
    ultimately show ?thesis using k(1,3) key by auto
  qed
  have "\<exists>i \<in> set items. prefix (item_key i) k" if "key64 k" "overlaid (account_layer E H w S) (entries ov) Map.empty k \<noteq> None" for k
  proof -
    have "\<exists>a. map_of (entries ov) k = Some (Some (OAccount a))" using that(2) view [OF that(1)] by (auto split: option.splits overlay_value.splits)
    then show ?thesis using i(3) by (force dest: map_of_SomeD)
  qed
  then have "covers E w S (account_layer E H w S) UNIV items (overlaid (account_layer E H w S) (entries ov) Map.empty)"
    unfolding covers_def using den i(4) by blast
  moreover have "add_overlay E H ov rb = Ok (add_items items upd rb)" for rb
  proof -
    have "(3 :: nat) = Suc 2" by simp
    then show ?thesis unfolding OVERLAY_FUEL_def by (simp only: add_overlay_to_root_builder.simps iter bind_result.simps i(1))
  qed
  ultimately show ?thesis using den by blast
qed

subsection \<open>Account leaves\<close>

text \<open>The sizes of the fields of a decoded account leaf.\<close>

lemma read_rlp_int_length: "read_rlp_int cap bs off = Ok (v, n) \<Longrightarrow> 1 \<le> cap \<Longrightarrow> length v \<le> cap"
  by (auto simp: read_rlp_int_def bind_result_eq_Ok Let_def split: if_splits)

lemma read_account_leaf_sizes:
  assumes "node_from_bytes E bs = Ok nd" and "node_kind nd = AccountLeaf nonce bal code root"
  shows "length nonce \<le> 9" "length bal \<le> 33" "length code = 32 \<or> code = x_keccak_empty E"
proof -
  have "\<exists>flags. read_account_leaf E flags bs = Ok nd"
    using assms by (auto simp: node_from_bytes_def bind_result_eq_Ok read_storage_leaf_def read_branch_def node_new_def split: if_splits)
  then obtain flags where "read_account_leaf E flags bs = Ok nd" by blast
  then have "length nonce \<le> 9 \<and> length bal \<le> 33 \<and> (length code = 32 \<or> code = x_keccak_empty E)"
    using assms(2) unfolding read_account_leaf_def Let_def
    by (auto simp: bind_result_eq_Ok node_new_def subl_def dest!: read_rlp_int_length split: if_splits)
  then show "length nonce \<le> 9" "length bal \<le> 33" "length code = 32 \<or> code = x_keccak_empty E" by auto
qed

lemma node_at_from_bytes:
  assumes "node_at E w p i = Some nd"
  obtains bs where "node_from_bytes E bs = Ok nd"
proof -
  have "get_value (node_ops E) (pg_data (page_at p w)) i = Ok nd" using assms by (auto simp: node_at_def split: result.splits if_splits)
  then show thesis
    using that by (auto simp: get_value_def bind_result_eq_Ok Let_def node_ops_def unwrap_def split: if_splits option.splits result.splits)
qed

lemma account_leaf_added:
  assumes "length nonce \<le> 9" and "length bal \<le> 33" and "length code = 32" and "length h = 32" and "length k = 64"
  shows "add_account_leaf_to_root_builder (path_of k) nonce bal code h rb = Ok (add_items [AddLeaf k (encode_account_leaf nonce bal code h)] Map.empty rb)"
  using assms by (simp add: add_account_leaf_to_root_builder_def encode_account_leaf_def Let_def to_nibbles_key add_items_leaf)

lemma rlp_int_lengths:
  assumes "rlp_int_laws E"
  shows "length (x_encode_u64 E x) \<le> 9" "length (x_encode_u256 E y) \<le> 33"
proof -
  have "length bs \<le> n" if "rlp_int_string n bs" "1 \<le> n" for n bs using that by (auto simp: rlp_int_string_def split: if_splits)
  then show "length (x_encode_u64 E x) \<le> 9" "length (x_encode_u256 E y) \<le> 33" using assms by (auto simp: rlp_int_laws_def)
qed

text \<open>The storage root of an account leaf with an overlay on its storage.\<close>

lemma storage_computed:
  fixes H :: "'u hash_builder"
  assumes "ov_wf so" and ok: "\<forall>e \<in> set (entries so). storage_entry_ok e"
    and ch: "(rt = None \<and> root = None) \<or> (\<exists>ptr t q j. rt = Some ptr \<and> root = Some t \<and> child_at w p ptr = Some (q, j) \<and> holds E w S q j t)"
    and shape: "\<forall>t. root = Some t \<longrightarrow> storage_trie 64 t \<and> branching t"
  shows "\<exists>N items upd. covers E w S (storage_layer E) UNIV items (overlaid (storage_layer E) (entries so) (slots_of root)) \<and> hashes_paired {} items \<and>
    (\<forall>f \<ge> N. (case rt of
        Some ptr \<Rightarrow>
          (case pointer_cell_index ptr of
             Some child_cell \<Rightarrow>
               bindE (get_node E p child_cell) (\<lambda>n. bindE (liftE (raw_path_of_nibbles (node_prefix n))) (\<lambda>pre.
                 compute_root_with_overlay f E H (push_node pre n p so []) root_builder_new))
           | None \<Rightarrow>
               bindE (pointer_page_id ptr) (\<lambda>storage_page_id. bindE (get_page storage_page_id) (\<lambda>storage_page.
               bindE (get_node E storage_page 0) (\<lambda>n. bindE (liftE (raw_path_of_nibbles (node_prefix n))) (\<lambda>pre.
                 compute_root_with_overlay f E H (push_node pre n storage_page so []) root_builder_new)))))
      | None \<Rightarrow> liftE (add_overlay E H so root_builder_new)) w = (Ok (add_items items upd root_builder_new), w))"
proof (cases root)
  case None
  then have "rt = None" using ch by auto
  moreover have "add_overlay E H so rb = Ok (add_items (storage_items E (behind (entries so))) Map.empty rb)" for rb
    using add_overlay_storage [OF assms(1) ok, of 2] by (simp add: OVERLAY_FUEL_def numeral_3_eq_3 numeral_2_eq_2)
  ultimately show ?thesis
    using storage_items_cover [OF assms(1) ok, of E w S] hashes_paired_leaves [of "storage_items E (behind (entries so))" "{}"] None
    by (intro exI [of _ 0] exI [of _ "storage_items E (behind (entries so))"] exI [of _ Map.empty]) (auto simp: slots_of_def storage_items_mem action_simps)
next
  case (Some t)
  then obtain ptr q j where q: "rt = Some ptr" "child_at w p ptr = Some (q, j)" "holds E w S q j t" using ch by auto
  obtain nd where nd: "node_at E w q j = Some nd" "node_prefix nd = trie_prefix t" using holds_node [OF q(3)] by blast
  have "ly_shape (storage_layer E) (64 - length ([] :: nibbles)) t" using shape Some by simp
  from storage.node_run [OF TrueI this q(3) nd(1) _ _ assms(1)]
  obtain items where i: "runs E H w [(AtNode (path_of (trie_prefix t)) q nd, so)] items"
    "covers E w S (storage_layer E) UNIV items (overlaid (storage_layer E) (entries so) (slots_of root))" "hashes_paired {} items"
    using ok by (auto simp: storage_valid nibble_list_def slots_of_def Some)
  obtain N upd where N: "\<And>fuel rb. N \<le> fuel \<Longrightarrow> compute_root_with_overlay fuel E H [(AtNode (path_of (trie_prefix t)) q nd, so)] rb w = (Ok (add_items items upd rb), w)"
    by (rule runs_complete [OF i(1)]) blast
  have "(case pointer_cell_index ptr of
         Some child_cell \<Rightarrow>
           bindE (get_node E p child_cell) (\<lambda>n. bindE (liftE (raw_path_of_nibbles (node_prefix n))) (\<lambda>pre.
             compute_root_with_overlay f E H (push_node pre n p so []) root_builder_new))
       | None \<Rightarrow>
           bindE (pointer_page_id ptr) (\<lambda>storage_page_id. bindE (get_page storage_page_id) (\<lambda>storage_page.
           bindE (get_node E storage_page 0) (\<lambda>n. bindE (liftE (raw_path_of_nibbles (node_prefix n))) (\<lambda>pre.
             compute_root_with_overlay f E H (push_node pre n storage_page so []) root_builder_new))))) w = (Ok (add_items items upd root_builder_new), w)" if "N \<le> f" for f
    using follow_child [OF q(2), of "\<lambda>pg ci. bindE (get_node E pg ci) (\<lambda>n. bindE (liftE (raw_path_of_nibbles (node_prefix n))) (\<lambda>pre.
             compute_root_with_overlay f E H (push_node pre n pg so []) root_builder_new))"] node_at_apply [OF nd(1)] nd(2) N [OF that]
    by (simp add: action_simps raw_path_ops push_node_def nibble_list_def)
  then show ?thesis using i(2,3) unfolding q(1) option.case by blast
qed

text \<open>What the overlay makes of an account leaf.\<close>

lemma account_over_leaf:
  "account_over es k (Some v) =
     (case map_of es k of
        Some None \<Rightarrow> None
      | Some (Some (OAccount a)) \<Rightarrow> Some (account_view_of a (slots_over (slot_entries k es) (av_slots v)))
      | Some (Some _) \<Rightarrow> None
      | None \<Rightarrow> Some (v\<lparr>av_slots := slots_over (slot_entries k es) (av_slots v)\<rparr>))"
  by (simp add: account_over_def split: option.splits overlay_value.splits)

definition merged_fields ::
  "externals \<Rightarrow> overlay_value option option \<Rightarrow> bytes \<Rightarrow> bytes \<Rightarrow> bytes \<Rightarrow> bytes \<times> bytes \<times> bytes" where
  "merged_fields E change nonce bal code =
     (case change of
        Some (Some (OAccount a)) \<Rightarrow> (x_encode_u64 E (acc_nonce a), x_encode_u256 E (acc_balance a), acc_code_hash a)
      | _ \<Rightarrow> (nonce, bal, code))"

lemma merged_fields_repr:
  assumes "merged_fields E (map_of es k) nonce bal code = (nonce', bal', code')" and "map_of es k \<noteq> Some None" and "\<forall>e \<in> set es. account_entry_ok e" and "length k = 64"
    and "x_decode_u64 E nonce = Some (acc_nonce a)" and "x_decode_u256 E bal = Some (acc_balance a)" and "code = acc_code_hash a"
    and "length nonce \<le> 9" and "length bal \<le> 33" and "length code = 32" and laws: "hash_laws E H"
    and root: "root_repr E H w S h (slots_over (slot_entries k es) m)"
  shows "\<exists>v. account_over es k (Some (account_view_of a m)) = Some v \<and> account_repr E H w S (encode_account_leaf nonce' bal' code' h) v \<and>
    length nonce' \<le> 9 \<and> length bal' \<le> 33 \<and> length code' = 32"
proof (cases "map_of es k")
  case None
  then show ?thesis
    using assms(1,5-10) root unfolding account_over_leaf merged_fields_def account_repr_def by (auto simp: account_view_of_def)
next
  case (Some x)
  then obtain v where v: "map_of es k = Some (Some v)" "account_entry_ok (k, Some v)" using assms(2,3) by (cases x) (auto dest: map_of_SomeD)
  then obtain a' where a': "v = OAccount a'" "length (acc_code_hash a') = 32" using assms(4) by (cases v) (auto simp: account_entry_ok_def)
  have int: "x_decode_u64 E (x_encode_u64 E (acc_nonce a')) = Some (acc_nonce a')" "x_decode_u256 E (x_encode_u256 E (acc_balance a')) = Some (acc_balance a')" "rlp_int_laws E"
    using laws by (simp_all add: hash_laws_def rlp_int_laws_def)
  have "merged_fields E (map_of es k) nonce bal code = (x_encode_u64 E (acc_nonce a'), x_encode_u256 E (acc_balance a'), acc_code_hash a')"
    by (simp add: merged_fields_def v(1) a'(1))
  then have f: "nonce' = x_encode_u64 E (acc_nonce a')" "bal' = x_encode_u256 E (acc_balance a')" "code' = acc_code_hash a'" using assms(1) by auto
  have "account_over es k (Some (account_view_of a m)) = Some (account_view_of a' (slots_over (slot_entries k es) m))"
    by (simp add: account_over_leaf v(1) a'(1) account_view_of_def)
  moreover have "account_repr E H w S (encode_account_leaf nonce' bal' code' h) (account_view_of a' (slots_over (slot_entries k es) m))"
    using root int(1,2) unfolding account_repr_def f by (auto simp: account_view_of_def)
  ultimately show ?thesis using rlp_int_lengths [OF int(3)] a'(2) f by auto
qed

lemma bindE_Ok: "bindE (liftE (Ok x)) f = f x"
  by (rule ext) (simp add: action_simps)

lemma process_account_leaf_removed:
  assumes "ov_wf ov" and "nibble_list k" and "map_of (entries ov) k = Some None"
  shows "process_account_leaf_with_overlay g E H ov rb (path_of k) p nonce bal code rt w = (Ok rb, w)"
  using assms by (simp add: process_account_leaf_with_overlay_def overlay_lookup_eq action_simps)

lemma process_account_leaf_eq:
  assumes "ov_wf ov" and "nibble_list k" and "map_of (entries ov) k \<noteq> Some None" and "merged_fields E (map_of (entries ov) k) nonce bal code = (nonce', bal', code')"
  shows "process_account_leaf_with_overlay g E H ov rb (path_of k) p nonce bal code rt w =
    (if \<not> (\<exists>e \<in> set (entries ov). 64 < length (fst e)) then
       liftE (add_account_leaf_to_root_builder (path_of k) nonce' bal' code'
         (case rt of None \<Rightarrow> x_empty_root_hash E | Some ptr \<Rightarrow> (case x_as_hash E (ptr_rlp ptr) of Some h \<Rightarrow> h | None \<Rightarrow> x_empty_root_hash E)) rb) w
     else
       bindE (liftE (with_prefix_offset 64 ov)) (\<lambda>so.
       bindE (case rt of
          Some ptr \<Rightarrow>
            (case pointer_cell_index ptr of
               Some child_cell \<Rightarrow>
                 bindE (get_node E p child_cell) (\<lambda>n. bindE (liftE (raw_path_of_nibbles (node_prefix n))) (\<lambda>pre.
                   g (push_node pre n p so []) root_builder_new))
             | None \<Rightarrow>
                 bindE (pointer_page_id ptr) (\<lambda>storage_page_id. bindE (get_page storage_page_id) (\<lambda>storage_page.
                 bindE (get_node E storage_page 0) (\<lambda>n. bindE (liftE (raw_path_of_nibbles (node_prefix n))) (\<lambda>pre.
                   g (push_node pre n storage_page so []) root_builder_new)))))
        | None \<Rightarrow> liftE (add_overlay E H so root_builder_new)) (\<lambda>storage_rb.
       bindE (liftE (raw_path_pack 32 (path_of k))) (\<lambda>key.
         liftE (add_account_leaf_to_root_builder (path_of k) nonce' bal' code' (hb_root H (rb_items storage_rb))
           (add_storage_branch_updates key (hb_updates H (rb_items storage_rb)) rb))))) w)"
proof -
  have any: "list_ex (\<lambda>(p, _). 64 < rp_len p) (map (apfst path_of) (filter (\<lambda>e. fst e \<noteq> []) (entries ov))) \<longleftrightarrow> (\<exists>e \<in> set (entries ov). 64 < length (fst e))"
    by (force simp: list_ex_iff)
  show ?thesis
    unfolding process_account_leaf_with_overlay_def overlay_lookup_eq [OF assms(1,2)] overlay_iter_eq [OF assms(1)] bindE_Ok if_not_P [OF assms(3)]
      merged_fields_def [symmetric] assms(4) Let_def prod.case any
    by simp
qed

text \<open>The root of an account whose storage the overlay does not touch.\<close>

lemma unchanged_root:
  assumes laws: "hash_laws E H" "hashed_roots E w S" and nd: "p \<in> S" "node_at E w p i = Some nd" "node_kind nd = AccountLeaf nonce bal code rt"
    and ch: "(rt = None \<and> root = None) \<or> (\<exists>ptr t q j. rt = Some ptr \<and> root = Some t \<and> child_at w p ptr = Some (q, j) \<and> holds E w S q j t)"
    and sub: "\<forall>t. root = Some t \<longrightarrow> storage_trie 64 t \<and> branching t"
    and h: "h = (case rt of None \<Rightarrow> x_empty_root_hash E | Some ptr \<Rightarrow> (case x_as_hash E (ptr_rlp ptr) of Some h \<Rightarrow> h | None \<Rightarrow> x_empty_root_hash E))"
  shows "root_repr E H w S h (slots_of root)" "length h = 32"
proof -
  have "root_repr E H w S h (slots_of root) \<and> length h = 32"
  proof (cases rt)
    case None
    then show ?thesis using ch laws(1) by (auto simp: h root_repr_def slots_of_def hash_laws_def)
  next
    case (Some ptr)
    then obtain t q j where t: "root = Some t" "child_at w p ptr = Some (q, j)" "holds E w S q j t" using ch by auto
    obtain x where x: "x_as_hash E (ptr_rlp ptr) = Some x" using laws(2) nd Some unfolding hashed_roots_def by blast
    then have "stored_by_hash E w S h t" using t nd Some x unfolding stored_by_hash_def stored_pointer_def h by (force simp: node_pointers_def)
    moreover have "length x = 32" using x laws(1) rlp_node_lawsD(3) [of E "ptr_rlp ptr"] by (auto simp: hash_laws_def split: if_splits)
    ultimately show ?thesis using sub x Some t(1) by (auto simp: root_repr_def h)
  qed
  then show "root_repr E H w S h (slots_of root)" "length h = 32" by auto
qed

lemma account_leaf:
  fixes H :: "'u hash_builder"
  assumes env: "account_env E H w S" and shape: "account_trie (64 - length c) t" "branching t" and leaf: "\<not> is_Br t" and holds: "holds E w S p i t" "node_at E w p i = Some nd"
    and q: "key64 (c @ node_prefix nd)" and ov: "ov_wf ov" and valid: "valid_entries (account_layer E H w S) (entries ov) (hung c (account_look t))"
    and pre: "\<forall>e \<in> set (entries ov). prefix (c @ node_prefix nd) (fst e)"
  shows "\<exists>N items upd. (\<forall>f \<ge> N. \<forall>stack rb. process_node_kind (compute_root_with_overlay f E H) E H (path_of (c @ node_prefix nd)) p nd ov stack rb w =
        (Ok (stack, add_items items upd rb), w)) \<and> (\<forall>i \<in> set items. \<exists>k b. i = AddLeaf k b) \<and>
    covers E w S (account_layer E H w S) {k. prefix (c @ node_prefix nd) k} items (overlaid (account_layer E H w S) (entries ov) (hung c (account_look t)))"
proof -
  define k where "k = c @ node_prefix nd"
  obtain a root nonce bal code rt where t: "t = ALeaf (node_prefix nd) a root" "node_kind nd = AccountLeaf nonce bal code rt" "node_value E nd = Ok (TAccount a)" "p \<in> S"
    and ch: "(rt = None \<and> root = None) \<or> (\<exists>ptr t q j. rt = Some ptr \<and> root = Some t \<and> child_at w p ptr = Some (q, j) \<and> holds E w S q j t)"
    using shape(1) leaf holds by (cases t) (auto elim!: holds_ALeafE)
  have key: "key64 k" "nibble_list k" "length k = 64" using q key64D [OF q] unfolding key64_def k_def by auto
  have ok: "\<forall>e \<in> set (entries ov). account_entry_ok e" using valid by (simp add: valid_entries_def)
  have laws: "hash_laws E H" "hashed_roots E w S" using env by (simp_all add: account_env_def)
  have look: "hung c (account_look t) k = Some (account_view_of a (slots_of root))" using q by (simp add: t(1) hung_def k_def)
  have sub: "\<forall>s. root = Some s \<longrightarrow> storage_trie 64 s \<and> branching s" using shape by (auto simp: t(1))
  have fields: "x_decode_u64 E nonce = Some (acc_nonce a)" "x_decode_u256 E bal = Some (acc_balance a)" "code = acc_code_hash a"
    using t(2,3) by (auto simp: node_value_def split: option.splits)
  obtain bs where bs: "node_from_bytes E bs = Ok nd" by (rule node_at_from_bytes [OF holds(2)])
  have sizes: "length nonce \<le> 9" "length bal \<le> 33" "length code = 32"
    using read_account_leaf_sizes [OF bs t(2)] laws(1) by (auto simp: hash_laws_def)
  define kv where "kv = overlaid (account_layer E H w S) (entries ov) (hung c (account_look t))"
  have kv: "kv k = account_over (entries ov) k (Some (account_view_of a (slots_of root)))" using look key by (simp add: kv_def overlaid_def)
  have one: "covers E w S (account_layer E H w S) {k'. prefix k k'} [AddLeaf k b] kv" if v: "kv k = Some v" "account_repr E H w S b v" for b v
  proof -
    have "below k kv = [k \<mapsto> v]" using v(1) key64_prefix_eq [OF key(1)] key(1) by (auto simp: below_def fun_eq_iff)
    then show ?thesis using key64_prefix_eq [OF key(1)] v(2) key(1) by (auto simp: covers_def)
  qed
  have finish: ?thesis if "\<And>f rb. N \<le> f \<Longrightarrow> process_account_leaf_with_overlay (compute_root_with_overlay f E H) E H ov rb (path_of k) p nonce bal code rt w = (Ok (add_items items upd rb), w)"
    "\<forall>i \<in> set items. \<exists>k b. i = AddLeaf k b" "covers E w S (account_layer E H w S) {k'. prefix k k'} items kv" for N items upd
    using that unfolding k_def [symmetric] kv_def [symmetric]
    by (intro exI [of _ N] exI [of _ items] exI [of _ upd]) (simp add: process_node_kind_def t(2) action_simps)
  show ?thesis
  proof (cases "map_of (entries ov) k = Some None")
    case True
    then have "kv k = None" by (simp add: kv account_over_def)
    then have "covers E w S (account_layer E H w S) {k'. prefix k k'} [] kv" by (intro covers_nil) (use key64_prefix_eq [OF key(1)] in blast)
    then show ?thesis by (intro finish [of 0 "[]" Map.empty]) (simp_all add: process_account_leaf_removed [OF ov key(2) True])
  next
    case False
    obtain nonce' bal' code' where mf: "merged_fields E (map_of (entries ov) k) nonce bal code = (nonce', bal', code')" by (cases "merged_fields E (map_of (entries ov) k) nonce bal code")
    note step = process_account_leaf_eq [OF ov key(2) False mf]
    note view = merged_fields_repr [OF mf False ok key(3) fields sizes laws(1), of w S _ "slots_of root", folded kv]
    show ?thesis
    proof (cases "\<exists>e \<in> set (entries ov). 64 < length (fst e)")
      case no: False
      define h where "h = (case rt of None \<Rightarrow> x_empty_root_hash E | Some ptr \<Rightarrow> (case x_as_hash E (ptr_rlp ptr) of Some h \<Rightarrow> h | None \<Rightarrow> x_empty_root_hash E))"
      have "slot_entries k (entries ov) = []" using no by (auto simp: slot_entries_def entries_at_def filter_empty_conv)
      then have "root_repr E H w S h (slots_over (slot_entries k (entries ov)) (slots_of root))" and h: "length h = 32"
        using unchanged_root [OF laws t(4) holds(2) t(2) ch sub] by (simp_all add: h_def)
      from view [OF this(1)] obtain v where v: "kv k = Some v" "account_repr E H w S (encode_account_leaf nonce' bal' code' h) v"
        "length nonce' \<le> 9" "length bal' \<le> 33" "length code' = 32" by blast
      show ?thesis
        by (rule finish [of 0 "[AddLeaf k (encode_account_leaf nonce' bal' code' h)]" Map.empty, OF _ _ one [OF v(1,2)]])
          (simp_all add: step no h_def [symmetric] action_simps account_leaf_added [OF v(3-5) h key(3)])
    next
      case yes: True
      then have nn: "\<not> \<not> (\<exists>e \<in> set (entries ov). 64 < length (fst e))" by blast
      have at: "entries_at k (entries ov) = entries ov" using pre by (simp add: entries_at_def k_def filter_id_conv)
      obtain so where so: "with_prefix_offset 64 ov = (Ok so :: (_, engine_error) result)" "ov_wf so" "entries so = behind_key (entries ov)"
        using with_prefix_offset_ok [OF ov pre] key(3) by (auto simp: k_def behind_key_def)
      have "\<forall>e \<in> set (entries so). storage_entry_ok e"
        unfolding so(3) by (rule behind_key_ok [OF _ key(3) False entries_distinct [OF ov]]) (use ok pre in \<open>simp add: k_def\<close>)
      from storage_computed [OF so(2) this ch sub, of H]
      obtain N items upd where i: "covers E w S (storage_layer E) UNIV items (overlaid (storage_layer E) (behind_key (entries_at k (entries ov))) (slots_of root))" "hashes_paired {} items"
        and run: "\<And>f. N \<le> f \<Longrightarrow> (case rt of
          Some ptr \<Rightarrow>
            (case pointer_cell_index ptr of
               Some child_cell \<Rightarrow>
                 bindE (get_node E p child_cell) (\<lambda>n. bindE (liftE (raw_path_of_nibbles (node_prefix n))) (\<lambda>pre.
                   compute_root_with_overlay f E H (push_node pre n p so []) root_builder_new))
             | None \<Rightarrow>
                 bindE (pointer_page_id ptr) (\<lambda>storage_page_id. bindE (get_page storage_page_id) (\<lambda>storage_page.
                 bindE (get_node E storage_page 0) (\<lambda>n. bindE (liftE (raw_path_of_nibbles (node_prefix n))) (\<lambda>pre.
                   compute_root_with_overlay f E H (push_node pre n storage_page so []) root_builder_new)))))
        | None \<Rightarrow> liftE (add_overlay E H so root_builder_new)) w = (Ok (add_items items upd root_builder_new), w)"
        unfolding so(3) at by (elim exE conjE) blast
      have "root_repr E H w S (hb_root H items) (slots_over (slot_entries k (entries ov)) (slots_of root))"
        unfolding root_repr_def using covered_slots [OF i(1) key(3)] i(2) by blast
      from view [OF this] obtain v where v: "kv k = Some v" "account_repr E H w S (encode_account_leaf nonce' bal' code' (hb_root H items)) v"
        "length nonce' \<le> 9" "length bal' \<le> 33" "length code' = 32" by blast
      have h: "length (hb_root H items) = 32" using laws(1) by (simp add: hash_laws_def)
      have pack: "raw_path_pack 32 (path_of k) = (Ok (pack_nibbles k) :: (_, engine_error) result)" using key(3) by (simp add: raw_path_pack_def)
      show ?thesis
      proof (rule finish [of N "[AddLeaf k (encode_account_leaf nonce' bal' code' (hb_root H items))]" "[pack_nibbles k \<mapsto> hb_updates H items]", OF _ _ one [OF v(1,2)]])
        fix f rb
        assume "N \<le> f"
        then show "process_account_leaf_with_overlay (compute_root_with_overlay f E H) E H ov rb (path_of k) p nonce bal code rt w =
            (Ok (add_items [AddLeaf k (encode_account_leaf nonce' bal' code' (hb_root H items))] [pack_nibbles k \<mapsto> hb_updates H items] rb), w)"
          unfolding step if_not_P [OF nn] so(1) bindE_Ok pack bindE_apply [of "case rt of None \<Rightarrow> _ | Some ptr \<Rightarrow> _ ptr"] 
          by (simp add: run liftE_apply root_builder_new_def account_leaf_added [OF v(3-5) h key(3)] add_storage_branch_updates_def add_items_def)
      qed simp
    qed
  qed
qed

subsection \<open>The laws of the layer\<close>

lemma account_over_live:
  assumes "valid_entries (account_layer E H w S) ((path, Some v) # es) m" and "sorted_wrt (<) (map fst ((path, Some v) # es))"
  shows "account_over ((path, Some v) # es) (take 64 path) (m (take 64 path)) \<noteq> None"
proof -
  have "account_entry_ok (path, Some v)" using assms(1) by (simp add: valid_entries_def)
  then show ?thesis
  proof (cases rule: account_entry_cases)
    case (account a)
    then show ?thesis by (simp add: account_over_def)
  next
    case slot
    then have ne: "take 64 path \<noteq> path" by (metis fst_conv length_take min.absorb4 numeral_less_iff semiring_norm(76,78) less_irrefl)
    then have "take 64 path < path" using take_is_prefix prefix_not_less linorder_neqE by blast
    then have out: "take 64 path \<notin> fst ` set ((path, Some v) # es)" using assms(2) ne by auto
    then have "m (take 64 path) \<noteq> None" using assms(1) slot(1) by (auto simp: valid_entries_def)
    moreover have "map_of ((path, Some v) # es) (take 64 path) = None" using out by (simp only: map_of_eq_None_iff not_False_eq_True)
    ultimately show ?thesis by (auto simp: account_over_def)
  qed simp
qed

interpretation state: trie_layer E H w S "account_layer E H w S" "account_env E H w S" for E :: externals and H :: "'u hash_builder" and w :: world and S :: "page_id set"
proof unfold_locales
  show "ly_ok (account_layer E H w S) e \<Longrightarrow> (fst e = [] \<and> (\<exists>a. snd e = Some (OAccount a))) \<or> 64 \<le> length (fst e)" for e
    using account_entry_length by simp
  show "ly_ok (account_layer E H w S) e \<Longrightarrow> snd e \<noteq> Some (OHash h)" for e h by (auto simp: account_entry_ok_def)
  show "ly_over (account_layer E H w S) es k x = ly_over (account_layer E H w S) (entries_at k es) k x" for es k x
    unfolding account_layer_simps by (rule account_over_local)
  show "ly_over (account_layer E H w S) [] k x = x" for k x by simp
  show "ly_over (account_layer E H w S) ((path, Some v) # es) (take 64 path) (m (take 64 path)) \<noteq> None"
    if "valid_entries (account_layer E H w S) ((path, Some v) # es) m" "sorted_wrt (<) (map fst ((path, Some v) # es))" for path v es m
    using account_over_live [OF that] by simp
  show "ly_over (account_layer E H w S) ((path, val) # es) path x = ly_over (account_layer E H w S) ((path, val) # es) path y"
    if "\<forall>a. val \<noteq> Some (OAccount a)" for path val es x y
    using that by (simp add: account_over_def split: option.splits overlay_value.splits)
  show "length pre < n \<and> length cs = 16 \<and> (\<exists>t. Some t \<in> set cs) \<and> (\<forall>t. Some t \<in> set cs \<longrightarrow> ly_shape (account_layer E H w S) (n - length pre - 1) t)"
    if "ly_shape (account_layer E H w S) n (Br pre cs)" for n pre cs
    using that by (auto simp: list_all_iff list_ex_iff split: option.splits)
  show "ly_shape (account_layer E H w S) n t \<Longrightarrow> \<not> is_Br t \<Longrightarrow> length (trie_prefix t) = n" for n t by (cases t) auto
  show "ly_look (account_layer E H w S) (Br pre cs) r = (case strip_prefix pre r of
     Some (b # s) \<Rightarrow> (if unat b < length cs then case cs ! unat b of None \<Rightarrow> None | Some t \<Rightarrow> ly_look (account_layer E H w S) t s else None) | _ \<Rightarrow> None)" for pre cs r
    unfolding account_layer_simps account_look.simps ..
  show "ly_shape (account_layer E H w S) n t \<Longrightarrow> \<not> is_Br t \<Longrightarrow> length r = n \<Longrightarrow> (ly_look (account_layer E H w S) t r \<noteq> None) = (r = trie_prefix t)" for n t r
    by (cases t) auto
  show "\<exists>items upd. (\<forall>rb. add_overlay E H ov rb = Ok (add_items items upd rb)) \<and>
      (\<forall>i \<in> set items. \<exists>k b. i = AddLeaf k b \<and> (\<exists>e \<in> set (entries ov). fst e \<noteq> [] \<and> k = take 64 (fst e))) \<and>
      covers E w S (account_layer E H w S) UNIV items (overlaid (account_layer E H w S) (entries ov) Map.empty)"
    if "account_env E H w S" "ov_wf ov" "valid_entries (account_layer E H w S) (entries ov) Map.empty" for ov
    using that by (intro account_add) (simp_all add: account_env_def)
  show "\<exists>N items upd. (\<forall>f \<ge> N. \<forall>stack rb. process_node_kind (compute_root_with_overlay f E H) E H (path_of (c @ node_prefix nd)) p nd ov stack rb w =
        (Ok (stack, add_items items upd rb), w)) \<and> (\<forall>i \<in> set items. \<exists>k b. i = AddLeaf k b) \<and>
      covers E w S (account_layer E H w S) {k. prefix (c @ node_prefix nd) k} items (overlaid (account_layer E H w S) (entries ov) (hung c (ly_look (account_layer E H w S) t)))"
    if "account_env E H w S" "ly_shape (account_layer E H w S) (64 - length c) t" "\<not> is_Br t" "holds E w S p i t" "node_at E w p i = Some nd" "key64 (c @ node_prefix nd)" "ov_wf ov"
      "valid_entries (account_layer E H w S) (entries ov) (hung c (ly_look (account_layer E H w S) t))" "\<forall>e \<in> set (entries ov). prefix (c @ node_prefix nd) (fst e)"
    for c t p i nd ov
    using account_leaf [OF that(1) _ _ that(3-7) _ that(9)] that(2,8) by simp
qed

subsection \<open>The root of a snapshot with an overlay\<close>

text \<open>The stored state: no root page, or a trie that the transaction reads and in which every branch has a child.\<close>

definition stored_state :: "externals \<Rightarrow> world \<Rightarrow> page_id set \<Rightarrow> trie option \<Rightarrow> bool" where
  "stored_state E w S root \<longleftrightarrow>
     (case root of
        None \<Rightarrow> cx_root_node_page_id (w_cx w) = None
      | Some t \<Rightarrow> reads E w S t \<and> branching t)"

definition state_content :: "trie option \<Rightarrow> nibbles \<Rightarrow> account_view option" where
  "state_content root = (case root of None \<Rightarrow> Map.empty | Some t \<Rightarrow> hung [] (account_look t))"

lemma finalize_items: "rb_finalize H (add_items items upd root_builder_new) =
    \<lparr>or_root = hb_root H items, or_updated_branch_nodes = hb_updates H items, or_storage_branch_updates = upd\<rparr>"
  by (simp add: rb_finalize_def add_items_def root_builder_new_def)

lemma state_root_stored:
  assumes env: "account_env E H w S" and t: "reads E w S t" "branching t" and ov: "ov_wf ov" "entries ov \<noteq> []"
    and valid: "valid_entries (account_layer E H w S) (entries ov) (hung [] (account_look t))"
  shows "\<exists>N items upd. (\<forall>fuel \<ge> N. compute_state_root_with_overlay fuel E H ov w =
      (Ok \<lparr>or_root = hb_root H items, or_updated_branch_nodes = hb_updates H items, or_storage_branch_updates = upd\<rparr>, w)) \<and>
    covers E w S (account_layer E H w S) UNIV items (overlaid (account_layer E H w S) (entries ov) (hung [] (account_look t))) \<and> hashes_paired {} items"
proof -
  obtain r where r: "cx_root_node_page_id (w_cx w) = Some r" "pm_get (se_pages w) r = Ok r" "holds E w S r 0 t" "account_trie 64 t"
    using t(1) by (auto simp: reads_def)
  obtain nd where nd: "node_at E w r 0 = Some nd" "node_prefix nd = trie_prefix t" using holds_node [OF r(3)] by blast
  have "ly_shape (account_layer E H w S) (64 - length ([] :: nibbles)) t" using r(4) t(2) by simp
  from state.node_run [OF env this r(3) nd(1) _ _ ov(1)] valid
  obtain items where i: "runs E H w [(AtNode (path_of (trie_prefix t)) r nd, ov)] items"
    "covers E w S (account_layer E H w S) UNIV items (overlaid (account_layer E H w S) (entries ov) (hung [] (account_look t)))" "hashes_paired {} items"
    by (auto simp: nibble_list_def)
  obtain N upd where N: "\<And>fuel rb. N \<le> fuel \<Longrightarrow> compute_root_with_overlay fuel E H [(AtNode (path_of (trie_prefix t)) r nd, ov)] rb w = (Ok (add_items items upd rb), w)"
    by (rule runs_complete [OF i(1)]) blast
  have "compute_state_root_with_overlay fuel E H ov w =
      (Ok \<lparr>or_root = hb_root H items, or_updated_branch_nodes = hb_updates H items, or_storage_branch_updates = upd\<rparr>, w)" if "N \<le> fuel" for fuel
    using N [OF that] r(1,2) node_at_apply [OF nd(1)] nd(2) ov
    by (simp add: compute_state_root_with_overlay_def overlay_is_empty_eq action_simps raw_path_ops push_node_def nibble_list_def finalize_items)
  then show ?thesis using i(2,3) by blast
qed

lemma state_root_empty:
  assumes env: "account_env E H w S" and root: "cx_root_node_page_id (w_cx w) = None" and ov: "ov_wf ov" "entries ov \<noteq> []"
    and valid: "valid_entries (account_layer E H w S) (entries ov) Map.empty"
  shows "\<exists>N items upd. (\<forall>fuel \<ge> N. compute_state_root_with_overlay fuel E H ov w =
      (Ok \<lparr>or_root = hb_root H items, or_updated_branch_nodes = hb_updates H items, or_storage_branch_updates = upd\<rparr>, w)) \<and>
    covers E w S (account_layer E H w S) UNIV items (overlaid (account_layer E H w S) (entries ov) Map.empty) \<and> hashes_paired {} items"
proof -
  obtain items upd where i: "\<And>rb. add_overlay E H ov rb = Ok (add_items items upd rb)" "\<And>X. hashes_paired X items"
    "covers E w S (account_layer E H w S) UNIV items (overlaid (account_layer E H w S) (entries ov) Map.empty)"
    by (rule state.overlay_covered [OF env ov(1) valid, of UNIV]) auto
  have "compute_state_root_with_overlay fuel E H ov w =
      (Ok \<lparr>or_root = hb_root H items, or_updated_branch_nodes = hb_updates H items, or_storage_branch_updates = upd\<rparr>, w)" for fuel
    using root ov by (simp add: compute_state_root_with_overlay_def overlay_is_empty_eq action_simps i(1) finalize_items)
  then show ?thesis using i(2,3) by blast
qed

subsection \<open>A concrete overlay\<close>

definition sample_builder :: "unit hash_builder" where
  "sample_builder = \<lparr>hb_root = (\<lambda>_. replicate 32 9), hb_updates = (\<lambda>_. ()), hb_no_updates = (), hb_encode_account = (\<lambda>_. [])\<rparr>"

text \<open>The account of the sample state gets a new nonce and a first slot.\<close>

definition sample_changes :: "overlay_change list" where
  "sample_changes =
     [(path_of (replicate 64 0), Some (OAccount (sample_account\<lparr>acc_nonce := 5\<rparr>))),
      (path_of (replicate 64 0 @ replicate 64 5), Some (OStorage 7))]"

lemma sample_changes_wf: "\<forall>e \<in> set (om_changes (insert_all sample_changes)). raw_path_wf (fst e)"
  by (auto simp: insert_all_changes sample_changes_def nibble_list_def)

lemma sample_entries:
  "map_of (entries (freeze (insert_all sample_changes))) t =
     (if t = replicate 64 0 then Some (Some (OAccount (sample_account\<lparr>acc_nonce := 5\<rparr>)))
      else if t = replicate 64 0 @ replicate 64 5 then Some (Some (OStorage 7)) else None)"
  using freeze_spec(2) [OF sample_changes_wf, of t] by (auto simp: insert_all_changes sample_changes_def normal_value_def)

lemma sample_env: "account_env sample_externals sample_builder sample_world {1}"
proof -
  have "node_at sample_externals sample_world 1 i = Some nd \<Longrightarrow> nd = sample_leaf" for i nd
    using sample_get_leaf sample_get_other [of i]
    by (cases "i = 0") (auto simp: node_at_def page_at_def sample_world_def split: if_splits)
  then have "hashed_roots sample_externals sample_world {1}" unfolding hashed_roots_def by (force simp: sample_leaf_def node_new_def)
  then show ?thesis using sample_laws by (simp add: account_env_def hash_laws_def sample_externals_def sample_builder_def)
qed

lemma sample_valid:
  "valid_entries (account_layer E H w S) (entries (freeze (insert_all sample_changes))) m"
proof -
  have mem: "map_of (entries (freeze (insert_all sample_changes))) (fst e) = Some (snd e)" if "e \<in> set (entries (freeze (insert_all sample_changes)))" for e
    using that entries_distinct [OF freeze_spec(1) [OF sample_changes_wf]] by simp
  have key: "replicate 64 0 \<in> fst ` set (entries (freeze (insert_all sample_changes)))"
    using sample_entries [of "replicate 64 0"] by (force dest: map_of_SomeD)
  have kec: "length (x_keccak_empty sample_externals) = 32" by (simp add: sample_externals_def)
  have cases: "e = (replicate 64 0, Some (OAccount (sample_account\<lparr>acc_nonce := 5\<rparr>))) \<or> e = (replicate 64 0 @ replicate 64 5, Some (OStorage 7))"
    if "e \<in> set (entries (freeze (insert_all sample_changes)))" for e
    using mem [OF that] by (cases e) (auto simp: sample_entries split: if_splits)
  have "account_entry_ok e \<and> take 64 (fst e) = replicate 64 0" if "e \<in> set (entries (freeze (insert_all sample_changes)))" for e
    using cases [OF that] kec by (elim disjE) (simp_all add: account_entry_ok_def sample_account_def)
  then show ?thesis using key unfolding valid_entries_def by auto
qed

subsection \<open>Properties\<close>

text \<open>
  C7. The state root with an overlay. The overlay may update, create and delete accounts and slots of a
  stored state; it must not be empty, a slot must belong to an account that the state or the overlay has, and the
  \<open>Hash\<close> entries that an overlay may also hold are left out. Then the traversal ends, whatever
  the sizes of trie and overlay, without an error or a panic, changes nothing, and returns the root and the updated
  branch nodes that the hash builder has for a sequence of items that stands for exactly the stored state with the overlay
  applied: in increasing order as the hash builder demands, every account and every slot once, with a
  stored subtrie represented by the hash in the pointer to it, which a stored node has, and only where the
  overlay does not touch the subtrie and where it has a sibling, so that it cannot collapse into its parent. The
  storage root in an account leaf is the hash builder's root of items that cover the overlaid storage, or the hash
  in the stored pointer to its untouched storage trie, or the empty root if it has no storage. The map of storage branch
  updates is not described.
\<close>

theorem state_root_with_overlay:
  assumes "account_env E H w S" and "stored_state E w S root" and "ov_wf ov" and "entries ov \<noteq> []"
    and "valid_entries (account_layer E H w S) (entries ov) (state_content root)"
  shows "\<exists>N items upd. (\<forall>fuel \<ge> N. compute_state_root_with_overlay fuel E H ov w =
      (Ok \<lparr>or_root = hb_root H items, or_updated_branch_nodes = hb_updates H items, or_storage_branch_updates = upd\<rparr>, w)) \<and>
    covers E w S (account_layer E H w S) UNIV items (overlaid (account_layer E H w S) (entries ov) (state_content root)) \<and> hashes_paired {} items"
proof (cases root)
  case None
  then show ?thesis using state_root_empty [OF assms(1) _ assms(3,4)] assms(2,5) by (simp add: stored_state_def state_content_def)
next
  case (Some t)
  then show ?thesis using state_root_stored [OF assms(1) _ _ assms(3,4)] assms(2,5) by (simp add: stored_state_def state_content_def)
qed

theorem state_root_with_overlay_witness:
  "\<exists>N items upd. (\<forall>fuel \<ge> N. compute_state_root_with_overlay fuel sample_externals sample_builder (freeze (insert_all sample_changes)) sample_world =
      (Ok \<lparr>or_root = replicate 32 9, or_updated_branch_nodes = (), or_storage_branch_updates = upd\<rparr>, sample_world)) \<and>
    (\<exists>i \<in> set items. prefix (item_key i) (replicate 64 0))"
proof -
  define ov where "ov = freeze (insert_all sample_changes)"
  have "entries ov \<noteq> []" using sample_entries [of "replicate 64 0"] by (auto simp: ov_def)
  moreover have "stored_state sample_externals sample_world {1} (Some (ALeaf (replicate 64 0) sample_account None))"
    using sample_reads by (simp add: stored_state_def)
  ultimately obtain N items upd where i: "\<forall>fuel \<ge> N. compute_state_root_with_overlay fuel sample_externals sample_builder ov sample_world =
      (Ok \<lparr>or_root = hb_root sample_builder items, or_updated_branch_nodes = hb_updates sample_builder items, or_storage_branch_updates = upd\<rparr>, sample_world)"
    and c: "covers sample_externals sample_world {1} (account_layer sample_externals sample_builder sample_world {1}) UNIV items
      (overlaid (account_layer sample_externals sample_builder sample_world {1}) (entries ov) (state_content (Some (ALeaf (replicate 64 0) sample_account None))))"
    using state_root_with_overlay [OF sample_env _ freeze_spec(1) [OF sample_changes_wf] _ sample_valid] unfolding ov_def by blast
  have key: "key64 (replicate 64 0)" by (simp add: key64_def nibble_list_def)
  then have "overlaid (account_layer sample_externals sample_builder sample_world {1}) (entries ov) m (replicate 64 0) \<noteq> None" for m
    by (simp add: overlaid_def account_over_def ov_def sample_entries)
  then have "\<exists>i \<in> set items. prefix (item_key i) (replicate 64 0)" using c key unfolding covers_def by blast
  then show ?thesis using i by (auto simp: ov_def sample_builder_def)
qed

end
