(* ===== verification/Proofs.thy ===== *)
theory Proofs
  imports State_Root
begin

text \<open>
  Merkle proofs (\<open>src/src/storage/proofs.rs\<close>): the search for an account or a slot that collects the RLP
  encodings of the nodes it passes. What the search promises is stated with \<open>authentic\<close>, the check a
  client of the proof performs: starting from the state root, each encoding must be the one that its
  parent references, down to a leaf with the rest of the path as its key.
\<close>

subsection \<open>Operations\<close>

record storage_proof =
  spr_hashed_slot :: nibbles
  spr_value :: u256
  spr_proof :: "raw_path \<rightharpoonup> bytes"

record account_proof =
  apr_hashed_address :: nibbles
  apr_account :: account
  apr_proof :: "raw_path \<rightharpoonup> bytes"
  apr_storage_proofs :: "bytes \<rightharpoonup> storage_proof"

text \<open>The derived \<open>Default\<close> instances.\<close>

definition account_default :: account where
  "account_default = \<lparr>acc_nonce = 0, acc_balance = 0, acc_storage_root = replicate 32 0, acc_code_hash = replicate 32 0\<rparr>"

definition storage_proof_default :: storage_proof where
  "storage_proof_default = \<lparr>spr_hashed_slot = [], spr_value = 0, spr_proof = Map.empty\<rparr>"

definition account_proof_default :: account_proof where
  "account_proof_default =
     \<lparr>apr_hashed_address = [], apr_account = account_default, apr_proof = Map.empty, apr_storage_proofs = Map.empty\<rparr>"

fun get_storage_proof_from_page ::
  "nat \<Rightarrow> externals \<Rightarrow> raw_path \<Rightarrow> nat \<Rightarrow> page_id \<Rightarrow> nat \<Rightarrow> storage_proof \<Rightarrow> storage_proof option action" where
  "get_storage_proof_from_page 0 E original_path path_offset p page_index pr = liftE Diverge"
| "get_storage_proof_from_page (Suc fuel) E original_path path_offset p page_index pr =
     bindE (get_node E p page_index) (\<lambda>n.
     bindE (liftE (raw_path_of_nibbles (node_prefix n))) (\<lambda>prefix.
     bindE (liftE (raw_path_slice_from original_path path_offset)) (\<lambda>path.
       let k = common_prefix_length path prefix in
       if k < rp_len prefix then returnE None
       else
         bindE (liftE (raw_path_slice_from original_path (path_offset + k))) (\<lambda>remaining_path.
           if raw_path_is_empty remaining_path then
             bindE (liftE (raw_path_slice original_path 0 path_offset)) (\<lambda>full_node_path.
               let pr = pr\<lparr>spr_proof := (spr_proof pr)(full_node_path \<mapsto> node_rlp_encode E n)\<rparr> in
               case node_value E n of
                 Ok (TStorage v) \<Rightarrow> returnE (Some (pr\<lparr>spr_value := v\<rparr>))
               | Ok (TAccount _) \<Rightarrow> liftE (Err ProofError)
               | Err _ \<Rightarrow> liftE (Err ProofError)
               | Panic \<Rightarrow> panicE
               | Diverge \<Rightarrow> liftE Diverge)
           else if 64 < path_offset then panicE
           else
             case node_kind n of
               Branch kids \<Rightarrow>
                 bindE (liftE (raw_path_slice original_path 0 path_offset)) (\<lambda>full_node_path.
                   let pr = pr\<lparr>spr_proof := (spr_proof pr)(full_node_path \<mapsto> node_rlp_encode E n)\<rparr> in
                   bindE
                     (if raw_path_is_empty prefix then returnE pr
                      else bindE (liftE (raw_path_slice original_path 0 (path_offset + k))) (\<lambda>branch_path.
                             returnE (pr\<lparr>spr_proof := (spr_proof pr)(branch_path \<mapsto> encode_branch E kids)\<rparr>))) (\<lambda>pr.
                   bindE (liftE (raw_path_get_unchecked remaining_path 0)) (\<lambda>b.
                     if \<not> unat b < length kids then panicE
                     else
                       let new_path_offset = path_offset + k + 1 in
                       case kids ! unat b of
                         Some ptr \<Rightarrow>
                           (case pointer_cell_index ptr of
                              Some child_index \<Rightarrow> get_storage_proof_from_page fuel E original_path new_path_offset p child_index pr
                            | None \<Rightarrow>
                                bindE (pointer_page_id ptr) (\<lambda>child_page_id.
                                bindE (get_page child_page_id) (\<lambda>child_page.
                                  get_storage_proof_from_page fuel E original_path new_path_offset child_page 0 pr)))
                       | None \<Rightarrow> returnE None)))
             | _ \<Rightarrow> panicE))))"

declare get_storage_proof_from_page.simps [simp del]

text \<open>The part of the search that starts at an account leaf, with the slot as \<open>remaining_path\<close>.\<close>

definition proof_below_account ::
  "nat \<Rightarrow> externals \<Rightarrow> raw_path \<Rightarrow> page_id \<Rightarrow> bytes \<Rightarrow> bytes \<Rightarrow> bytes \<Rightarrow> pointer option \<Rightarrow> account_proof \<Rightarrow> account_proof option action" where
  "proof_below_account fuel E remaining_path p nonce_bytes balance_bytes code root pr =
     (case x_decode_u64 E nonce_bytes of
        None \<Rightarrow> liftE (Err ProofError)
      | Some nonce \<Rightarrow>
          (case x_decode_u256 E balance_bytes of
             None \<Rightarrow> liftE (Err ProofError)
           | Some balance \<Rightarrow>
               let account = \<lparr>acc_nonce = nonce, acc_balance = balance, acc_storage_root = x_empty_root_hash E, acc_code_hash = code\<rparr> in
               (case root of
                  None \<Rightarrow> returnE None
                | Some ptr \<Rightarrow>
                    (case x_as_hash E (ptr_rlp ptr) of
                       None \<Rightarrow> panicE
                     | Some h \<Rightarrow>
                         let pr = pr\<lparr>apr_account := account\<lparr>acc_storage_root := h\<rparr>\<rparr> in
                         bindE (liftE (to_nibbles remaining_path)) (\<lambda>slot.
                         let spr = storage_proof_default\<lparr>spr_hashed_slot := slot\<rparr> in
                         bindE
                           (case pointer_cell_index ptr of
                              Some child_index \<Rightarrow> get_storage_proof_from_page fuel E remaining_path 0 p child_index spr
                            | None \<Rightarrow>
                                bindE (pointer_page_id ptr) (\<lambda>child_page_id.
                                bindE (get_page child_page_id) (\<lambda>child_page.
                                  get_storage_proof_from_page fuel E remaining_path 0 child_page 0 spr))) (\<lambda>spr.
                           case spr of
                             Some spr \<Rightarrow>
                               bindE (liftE (b256_of_nibbles E (spr_hashed_slot spr))) (\<lambda>key.
                                 returnE (Some (pr\<lparr>apr_storage_proofs := (apr_storage_proofs pr)(key \<mapsto> spr)\<rparr>)))
                           | None \<Rightarrow> returnE None))))))"

fun get_value_with_proof_from_page ::
  "nat \<Rightarrow> externals \<Rightarrow> raw_path \<Rightarrow> nat \<Rightarrow> page_id \<Rightarrow> nat \<Rightarrow> account_proof \<Rightarrow> account_proof option action" where
  "get_value_with_proof_from_page 0 E original_path path_offset p page_index pr = liftE Diverge"
| "get_value_with_proof_from_page (Suc fuel) E original_path path_offset p page_index pr =
     bindE (get_node E p page_index) (\<lambda>n.
     bindE (liftE (raw_path_of_nibbles (node_prefix n))) (\<lambda>prefix.
     bindE (liftE (raw_path_slice_from original_path path_offset)) (\<lambda>path.
       let k = common_prefix_length path prefix in
       if k < rp_len prefix then returnE None
       else
         bindE (liftE (raw_path_slice original_path 0 path_offset)) (\<lambda>full_node_path.
         let pr = pr\<lparr>apr_proof := (apr_proof pr)(full_node_path \<mapsto> node_rlp_encode E n)\<rparr> in
         bindE (liftE (raw_path_slice_from original_path (path_offset + k))) (\<lambda>remaining_path.
           if raw_path_is_empty remaining_path then
             (case node_value E n of
                Ok (TAccount account) \<Rightarrow> returnE (Some (pr\<lparr>apr_account := account\<rparr>))
              | Ok (TStorage _) \<Rightarrow> liftE (Err ProofError)
              | Err _ \<Rightarrow> liftE (Err ProofError)
              | Panic \<Rightarrow> panicE
              | Diverge \<Rightarrow> liftE Diverge)
           else if 64 < path_offset then panicE
           else
             case node_kind n of
               AccountLeaf nonce_bytes balance_bytes code root \<Rightarrow>
                 if path_offset + k \<noteq> ADDRESS_PATH_LENGTH then panicE
                 else proof_below_account fuel E remaining_path p nonce_bytes balance_bytes code root pr
             | Branch kids \<Rightarrow>
                 bindE
                   (if raw_path_is_empty prefix then returnE pr
                    else bindE (liftE (raw_path_slice original_path 0 (path_offset + k))) (\<lambda>branch_path.
                           returnE (pr\<lparr>apr_proof := (apr_proof pr)(branch_path \<mapsto> encode_branch E kids)\<rparr>))) (\<lambda>pr.
                 bindE (liftE (raw_path_get_unchecked remaining_path 0)) (\<lambda>b.
                   if \<not> unat b < length kids then panicE
                   else
                     let new_path_offset = path_offset + k + 1 in
                     case kids ! unat b of
                       Some ptr \<Rightarrow>
                         (case pointer_cell_index ptr of
                            Some child_index \<Rightarrow> get_value_with_proof_from_page fuel E original_path new_path_offset p child_index pr
                          | None \<Rightarrow>
                              bindE (pointer_page_id ptr) (\<lambda>child_page_id.
                              bindE (get_page child_page_id) (\<lambda>child_page.
                                get_value_with_proof_from_page fuel E original_path new_path_offset child_page 0 pr)))
                     | None \<Rightarrow> returnE None))
             | _ \<Rightarrow> panicE)))))"

declare get_value_with_proof_from_page.simps [simp del]

definition get_value_with_proof :: "nat \<Rightarrow> externals \<Rightarrow> raw_path \<Rightarrow> account_proof option action" where
  "get_value_with_proof fuel E path =
     (if \<not> (rp_len path = ADDRESS_PATH_LENGTH \<or> rp_len path = STORAGE_PATH_LENGTH) then panicE
      else
        bindE (asks (\<lambda>w. cx_root_node_page_id (w_cx w))) (\<lambda>root.
          case root of
            None \<Rightarrow> returnE None
          | Some page_id \<Rightarrow>
              let pr = account_proof_default\<lparr>apr_hashed_address := lower_64_nibbles path\<rparr> in
              bindE (get_page page_id) (\<lambda>page. get_value_with_proof_from_page fuel E path 0 page 0 pr)))"

definition get_account_with_proof :: "nat \<Rightarrow> externals \<Rightarrow> address_path \<Rightarrow> account_proof option action" where
  "get_account_with_proof fuel E address_path =
     bindE (liftE (raw_path_of_address address_path)) (get_value_with_proof fuel E)"

definition get_storage_with_proof :: "nat \<Rightarrow> externals \<Rightarrow> storage_path \<Rightarrow> account_proof option action" where
  "get_storage_with_proof fuel E storage_path =
     bindE (liftE (raw_path_of_storage storage_path)) (get_value_with_proof fuel E)"

subsection \<open>Checking a proof\<close>

text \<open>
  \<open>authentic E m n r c path\<close>: the encodings \<open>m\<close>, indexed by the part \<open>c\<close> of the path above them, lead
  from a node with the RLP reference \<open>r\<close> (its hash, or the node itself when it is short) along \<open>path\<close> to
  the leaf \<open>n\<close>. The steps are those of a Merkle Patricia trie: branches, extensions and leaves.
\<close>

inductive authentic :: "externals \<Rightarrow> (raw_path \<rightharpoonup> bytes) \<Rightarrow> node \<Rightarrow> bytes \<Rightarrow> nibbles \<Rightarrow> nibbles \<Rightarrow> bool"
  for E :: externals and m :: "raw_path \<rightharpoonup> bytes" and n :: node where
  authentic_leaf:
    "m (path_of c) = Some (node_rlp_encode E n) \<Longrightarrow> \<not> is_branch n \<Longrightarrow>
     authentic E m n (x_from_rlp E (node_rlp_encode E n)) c (node_prefix n)"
| authentic_branch:
    "m (path_of c) = Some (encode_branch E kids) \<Longrightarrow> unat b < length kids \<Longrightarrow> kids ! unat b = Some ptr \<Longrightarrow>
     authentic E m n (ptr_rlp ptr) (c @ [b]) s \<Longrightarrow> authentic E m n (x_from_rlp E (encode_branch E kids)) c (b # s)"
| authentic_extension:
    "m (path_of c) = Some (x_extension_encode E pre r) \<Longrightarrow> pre \<noteq> [] \<Longrightarrow>
     authentic E m n r (c @ pre) s \<Longrightarrow> authentic E m n (x_from_rlp E (x_extension_encode E pre r)) c (pre @ s)"

lemma authentic_mono:
  assumes "authentic E m n r c path" and "m \<subseteq>\<^sub>m m'"
  shows "authentic E m' n r c path"
proof -
  have same: "m x = Some y \<Longrightarrow> m' x = Some y" for x y using assms(2) by (auto simp: map_le_def dom_def)
  from assms(1) show ?thesis by induction (auto intro: authentic.intros same)
qed

text \<open>Every pointer of a stored node references the RLP of its target, and the context has the hash of the root.\<close>

definition hash_linked :: "externals \<Rightarrow> world \<Rightarrow> page_id set \<Rightarrow> bool" where
  "hash_linked E w S \<longleftrightarrow>
     (\<forall>p \<in> S. \<forall>i n ptr q j n'.
        node_at E w p i = Some n \<and> ptr \<in> node_pointers n \<and> child_at w p ptr = Some (q, j) \<and> node_at E w q j = Some n' \<longrightarrow>
        ptr_rlp ptr = to_rlp_node E n') \<and>
     (\<forall>r n. cx_root_node_page_id (w_cx w) = Some r \<and> node_at E w r 0 = Some n \<longrightarrow>
        x_as_hash E (to_rlp_node E n) = Some (cx_root_node_hash (w_cx w)))"

text \<open>In such a store the hash by which \<open>State_Root\<close> refers to a subtrie is the hash of the node at the root of the subtrie.\<close>

lemma stored_hash_of_node:
  assumes "hash_linked E w S" and "stored_by_hash E w S h t"
  shows "\<exists>q j n. holds E w S q j t \<and> node_at E w q j = Some n \<and> x_as_hash E (to_rlp_node E n) = Some h"
proof -
  obtain p i m ptr q j where p: "p \<in> S" "node_at E w p i = Some m" "ptr \<in> node_pointers m" "x_as_hash E (ptr_rlp ptr) = Some h"
    "child_at w p ptr = Some (q, j)" "holds E w S q j t"
    using assms(2) unfolding stored_by_hash_def stored_pointer_def by blast
  obtain n where n: "node_at E w q j = Some n" using holds_node [OF p(6)] by blast
  then have "ptr_rlp ptr = to_rlp_node E n" using assms(1) p unfolding hash_linked_def by blast
  then show ?thesis using p n by auto
qed

subsection \<open>The entries of a node\<close>

text \<open>What both searches add to the proof when they pass the node \<open>n\<close> at the end of \<open>c\<close>.\<close>

definition passed :: "externals \<Rightarrow> nibbles \<Rightarrow> node \<Rightarrow> raw_path \<rightharpoonup> bytes" where
  "passed E c n =
     (case node_kind n of
        Branch kids \<Rightarrow>
          if node_prefix n = [] then [path_of c \<mapsto> node_rlp_encode E n]
          else [path_of c \<mapsto> node_rlp_encode E n, path_of (c @ node_prefix n) \<mapsto> encode_branch E kids]
      | _ \<Rightarrow> [path_of c \<mapsto> node_rlp_encode E n])"

text \<open>A proof with entries for the prefixes of \<open>ns\<close> of lengths from \<open>a\<close> to below \<open>b\<close>.\<close>

definition on_path :: "nibbles \<Rightarrow> nat \<Rightarrow> nat \<Rightarrow> (raw_path \<rightharpoonup> bytes) \<Rightarrow> bool" where
  "on_path ns a b m \<longleftrightarrow> dom m \<subseteq> {path_of (take k ns) |k. a \<le> k \<and> k < b \<and> k \<le> length ns}"

lemma on_path_weaken: "on_path ns a b m \<Longrightarrow> a' \<le> a \<Longrightarrow> b \<le> b' \<Longrightarrow> on_path ns a' b' m"
  unfolding on_path_def by force

lemma on_path_add: "on_path ns a b m \<Longrightarrow> on_path ns a b m' \<Longrightarrow> on_path ns a b (m ++ m')"
  unfolding on_path_def by auto

lemma on_path_empty [simp]: "on_path ns a b Map.empty"
  by (simp add: on_path_def)

lemma on_path_fresh:
  assumes "on_path ns a b m" and "k < a"
  shows "m (path_of (take k ns)) = None"
proof (rule ccontr)
  assume "m (path_of (take k ns)) \<noteq> None"
  then obtain j where "take k ns = take j ns" "a \<le> j" "j \<le> length ns" using assms(1) by (force simp: on_path_def)
  then show False using assms(2) by (metis length_take min.absorb2 not_less order.trans min_def)
qed

lemma on_path_passed:
  assumes "off \<le> length ns" and "prefix (node_prefix n) (drop off ns)"
  shows "on_path ns off (off + length (node_prefix n) + 1) (passed E (take off ns) n)"
proof -
  obtain r where r: "drop off ns = node_prefix n @ r" using assms(2) by (auto simp: prefix_def)
  then have e: "take off ns @ node_prefix n = take (off + length (node_prefix n)) ns" by (simp add: take_add)
  have "off + length (node_prefix n) \<le> length ns" using arg_cong [OF r, of length] assms(1) by simp
  then show ?thesis unfolding on_path_def passed_def e using assms(1) by (auto split: node_kind.splits)
qed

lemma authentic_passed_leaf: "\<not> is_branch n \<Longrightarrow> authentic E (passed E c n) n (to_rlp_node E n) c (node_prefix n)"
  unfolding to_rlp_node_def by (rule authentic_leaf) (auto simp: passed_def is_branch_def split: node_kind.splits)

lemma authentic_passed:
  assumes "node_kind n = Branch kids" and "unat b < length kids" and "kids ! unat b = Some ptr"
    and "authentic E m l (ptr_rlp ptr) (c @ node_prefix n @ [b]) s"
    and "m (path_of c) = None" and "m (path_of (c @ node_prefix n)) = None"
  shows "authentic E (passed E c n ++ m) l (to_rlp_node E n) c (node_prefix n @ b # s)"
proof -
  let ?m = "passed E c n ++ m"
  have below: "authentic E ?m l (ptr_rlp ptr) ((c @ node_prefix n) @ [b]) s"
    using authentic_mono [OF assms(4) map_le_map_add] by simp
  have entry: "?m (path_of (c @ node_prefix n)) = Some (encode_branch E kids)"
    using assms(1,6) by (auto simp: passed_def node_rlp_encode_def map_add_def)
  have branch: "authentic E ?m l (x_from_rlp E (encode_branch E kids)) (c @ node_prefix n) (b # s)"
    by (rule authentic_branch [OF entry assms(2,3) below])
  show ?thesis
  proof (cases "node_prefix n = []")
    case True
    then show ?thesis using branch assms(1) by (simp add: to_rlp_node_def node_rlp_encode_def)
  next
    case False
    then have "?m (path_of c) = Some (x_extension_encode E (node_prefix n) (x_from_rlp E (encode_branch E kids)))"
      using assms(1,5) by (auto simp: passed_def node_rlp_encode_def map_add_def)
    from authentic_extension [OF this False branch] show ?thesis
      using False assms(1) by (simp add: to_rlp_node_def node_rlp_encode_def)
  qed
qed

text \<open>One level of a proof: the node at \<open>off\<close> and a proof for the child it selects.\<close>

lemma authentic_level:
  assumes "node_kind n = Branch kids" and "unat b < length kids" and "kids ! unat b = Some ptr"
    and "off \<le> length ns" and "drop off ns = node_prefix n @ b # s"
    and "authentic E m l (ptr_rlp ptr) (take (off + length (node_prefix n) + 1) ns) s'" and "on_path ns (off + length (node_prefix n) + 1) e m"
  shows "authentic E (passed E (take off ns) n ++ m) l (to_rlp_node E n) (take off ns) (node_prefix n @ b # s')"
proof -
  have "take off ns @ node_prefix n @ [b] = take (off + length (node_prefix n) + 1) ns"
    "take off ns @ node_prefix n = take (off + length (node_prefix n)) ns"
    using assms(5) take_add [of off "length (node_prefix n) + 1" ns] by (simp_all add: take_add)
  then show ?thesis
    using authentic_passed [OF assms(1,2,3), of E m l "take off ns" s'] assms(6) on_path_fresh [OF assms(7), of off]
      on_path_fresh [OF assms(7), of "off + length (node_prefix n)"] by simp
qed

subsection \<open>One step\<close>

lemma take_behind: "strip_prefix pre (drop off ns) = Some r \<Longrightarrow> take (off + length pre) ns = take off ns @ pre"
  by (simp add: strip_prefix_Some take_add)

lemma path_of_first: "raw_path_get_unchecked (path_of (b # s)) 0 = Ok b"
  by (simp add: raw_path_get_unchecked_def raw_path_get_def path_of_def)

lemma storage_proof_step:
  assumes "node_at E w p i = Some n" and "nibble_list ns" and "off \<le> length ns"
  shows "get_storage_proof_from_page (Suc f) E (path_of ns) off p i pr w =
    (case strip_prefix (node_prefix n) (drop off ns) of
       None \<Rightarrow> (Ok None, w)
     | Some [] \<Rightarrow>
         (case node_value E n of
            Ok (TStorage v) \<Rightarrow> (Ok (Some (pr\<lparr>spr_proof := (spr_proof pr)(path_of (take off ns) \<mapsto> node_rlp_encode E n), spr_value := v\<rparr>)), w)
          | Ok (TAccount _) \<Rightarrow> (Err ProofError, w) | Err _ \<Rightarrow> (Err ProofError, w) | Panic \<Rightarrow> (Panic, w) | Diverge \<Rightarrow> (Diverge, w))
     | Some (b # s) \<Rightarrow>
         if 64 < off then (Panic, w)
         else
           (case node_kind n of
              Branch kids \<Rightarrow>
                if \<not> unat b < length kids then (Panic, w)
                else
                  (case kids ! unat b of
                     None \<Rightarrow> (Ok None, w)
                   | Some ptr \<Rightarrow>
                       (case pointer_cell_index ptr of
                          Some ci \<Rightarrow> get_storage_proof_from_page f E (path_of ns) (off + length (node_prefix n) + 1) p ci
                            (pr\<lparr>spr_proof := spr_proof pr ++ passed E (take off ns) n\<rparr>)
                        | None \<Rightarrow> bindE (pointer_page_id ptr) (\<lambda>c. bindE (get_page c) (\<lambda>c.
                            get_storage_proof_from_page f E (path_of ns) (off + length (node_prefix n) + 1) c 0
                              (pr\<lparr>spr_proof := spr_proof pr ++ passed E (take off ns) n\<rparr>)))) w)
            | _ \<Rightarrow> (Panic, w)))"
proof -
  have n: "get_node E p i w = (Ok n, w)" "length (node_prefix n) \<le> 128"
    using node_at_apply [OF assms(1)] by (simp_all add: nibble_list_def)
  show ?thesis
  proof (cases "strip_prefix (node_prefix n) (drop off ns)")
    case None
    then show ?thesis
      using n assms(2,3) by (simp add: get_storage_proof_from_page.simps(2) action_simps raw_path_ops nibble_list_drop lcp_strip Let_def)
  next
    case (Some r)
    note found = prefix_found(1,2,3) [OF assms(3,2) Some]
    have k: "length (longest_common_prefix (drop off ns) (node_prefix n)) = length (node_prefix n)" by (rule lcp_strip(2) [OF Some])
    show ?thesis
    proof (cases r)
      case Nil
      then show ?thesis
        using n assms(2,3) found k Some
        by (simp add: get_storage_proof_from_page.simps(2) action_simps raw_path_ops nibble_list_drop Let_def raw_path_is_empty_def
            subl_def split: result.splits trie_value.splits)
    next
      case (Cons b s)
      then show ?thesis
        using n assms(2,3) found k Some take_behind [OF Some]
        by (auto simp: get_storage_proof_from_page.simps(2) action_simps raw_path_ops nibble_list_drop Let_def raw_path_is_empty_def
            subl_def path_of_first passed_def split: node_kind.splits option.splits)
    qed
  qed
qed

lemma account_proof_step:
  assumes "node_at E w p i = Some n" and "nibble_list ns" and "off \<le> length ns"
  shows "get_value_with_proof_from_page (Suc f) E (path_of ns) off p i pr w =
    (case strip_prefix (node_prefix n) (drop off ns) of
       None \<Rightarrow> (Ok None, w)
     | Some [] \<Rightarrow>
         (case node_value E n of
            Ok (TAccount a) \<Rightarrow> (Ok (Some (pr\<lparr>apr_proof := (apr_proof pr)(path_of (take off ns) \<mapsto> node_rlp_encode E n), apr_account := a\<rparr>)), w)
          | Ok (TStorage _) \<Rightarrow> (Err ProofError, w) | Err _ \<Rightarrow> (Err ProofError, w) | Panic \<Rightarrow> (Panic, w) | Diverge \<Rightarrow> (Diverge, w))
     | Some (b # s) \<Rightarrow>
         if 64 < off then (Panic, w)
         else
           (case node_kind n of
              AccountLeaf nonce bal code root \<Rightarrow>
                if off + length (node_prefix n) \<noteq> 64 then (Panic, w)
                else proof_below_account f E (path_of (b # s)) p nonce bal code root
                  (pr\<lparr>apr_proof := apr_proof pr ++ passed E (take off ns) n\<rparr>) w
            | Branch kids \<Rightarrow>
                if \<not> unat b < length kids then (Panic, w)
                else
                  (case kids ! unat b of
                     None \<Rightarrow> (Ok None, w)
                   | Some ptr \<Rightarrow>
                       (case pointer_cell_index ptr of
                          Some ci \<Rightarrow> get_value_with_proof_from_page f E (path_of ns) (off + length (node_prefix n) + 1) p ci
                            (pr\<lparr>apr_proof := apr_proof pr ++ passed E (take off ns) n\<rparr>)
                        | None \<Rightarrow> bindE (pointer_page_id ptr) (\<lambda>c. bindE (get_page c) (\<lambda>c.
                            get_value_with_proof_from_page f E (path_of ns) (off + length (node_prefix n) + 1) c 0
                              (pr\<lparr>apr_proof := apr_proof pr ++ passed E (take off ns) n\<rparr>)))) w)
            | _ \<Rightarrow> (Panic, w)))"
proof -
  have n: "get_node E p i w = (Ok n, w)" "length (node_prefix n) \<le> 128"
    using node_at_apply [OF assms(1)] by (simp_all add: nibble_list_def)
  show ?thesis
  proof (cases "strip_prefix (node_prefix n) (drop off ns)")
    case None
    then show ?thesis
      using n assms(2,3) by (simp add: get_value_with_proof_from_page.simps(2) action_simps raw_path_ops nibble_list_drop lcp_strip Let_def)
  next
    case (Some r)
    note found = prefix_found(1,2,3) [OF assms(3,2) Some]
    have k: "length (longest_common_prefix (drop off ns) (node_prefix n)) = length (node_prefix n)" by (rule lcp_strip(2) [OF Some])
    show ?thesis
    proof (cases r)
      case Nil
      then show ?thesis
        using n assms(2,3) found k Some
        by (simp add: get_value_with_proof_from_page.simps(2) action_simps raw_path_ops nibble_list_drop Let_def raw_path_is_empty_def
            subl_def split: result.splits trie_value.splits)
    next
      case (Cons b s)
      then show ?thesis
        using n assms(2,3) found k Some take_behind [OF Some]
        by (auto simp: get_value_with_proof_from_page.simps(2) action_simps raw_path_ops nibble_list_drop Let_def raw_path_is_empty_def
            subl_def path_of_first passed_def ADDRESS_PATH_LENGTH_def split: node_kind.splits option.splits)
    qed
  qed
qed

subsection \<open>Proofs of slots\<close>

lemma linked_child:
  assumes "hash_linked E w S" and "holds E w S p i t" and "node_at E w p i = Some n" and "ptr \<in> node_pointers n"
    and "child_at w p ptr = Some (q, j)" and "node_at E w q j = Some n'"
  shows "ptr_rlp ptr = to_rlp_node E n'"
  using assms(1,3-6) holds_in [OF assms(2)] unfolding hash_linked_def by blast

lemma drop_level:
  assumes "drop off ns = pre @ b # s"
  shows "drop (off + length pre + 1) ns = s" "off + length pre < length ns"
proof -
  have "drop (length pre + 1) (drop off ns) = s" unfolding assms by simp
  then show "drop (off + length pre + 1) ns = s" by (simp add: add.commute)
  have "drop off ns \<noteq> []" using assms by simp
  then show "off + length pre < length ns" using arg_cong [OF assms, of length] by simp
qed

text \<open>A search at a branch leaves the path, finds no child, or goes on at a child with the hash in its pointer.\<close>

lemma branch_node: "holds E w S p i (Br pre cs) \<Longrightarrow> node_at E w p i = Some nd \<Longrightarrow> \<exists>ps. node_kind nd = Branch ps \<and> length ps = length cs \<and> pre = node_prefix nd"
  by (auto elim!: holds_BrE)

lemma branch_cases:
  assumes "holds E w S p i (Br pre cs)" and "node_at E w p i = Some nd" and "node_kind nd = Branch ps" and "hash_linked E w S"
    and "nibble_list ns" and "off + length pre < length ns" and "length cs = 16"
  obtains (off_path) "strip_prefix pre (drop off ns) = None"
  | (no_child) b s where "strip_prefix pre (drop off ns) = Some (b # s)" "unat b < 16" "ps ! unat b = None" "cs ! unat b = None"
  | (child) b s ptr t q j nd' where "strip_prefix pre (drop off ns) = Some (b # s)" "unat b < 16" "ps ! unat b = Some ptr" "cs ! unat b = Some t"
      "child_at w p ptr = Some (q, j)" "holds E w S q j t" "node_at E w q j = Some nd'" "ptr_rlp ptr = to_rlp_node E nd'"
      "drop (off + length pre + 1) ns = s"
proof (cases "strip_prefix pre (drop off ns)")
  case (Some r)
  have ch: "(ps ! k = None \<and> cs ! k = None) \<or>
      (\<exists>ptr t q j. ps ! k = Some ptr \<and> cs ! k = Some t \<and> child_at w p ptr = Some (q, j) \<and> holds E w S q j t)" if "k < 16" for k
    using assms(1,2,3,7) that by (auto elim!: holds_BrE)
  have len: "length ps = 16" using branch_node [OF assms(1,2)] assms(3,7) by auto
  have "r \<noteq> []" using Some assms(6) by (auto simp: strip_prefix_Some dest: arg_cong [of _ _ length])
  then obtain b s where bs: "strip_prefix pre (drop off ns) = Some (b # s)" using Some by (cases r) auto
  have found: "drop (off + length pre + 1) ns = s" "unat b < 16" using prefix_found(4) [OF _ assms(5) bs refl] assms(6) by auto
  show thesis
  proof (cases "ps ! unat b")
    case None
    then show thesis using no_child [OF bs found(2)] ch [OF found(2)] by auto
  next
    case (Some ptr)
    with ch [OF found(2)] obtain t q j where t: "cs ! unat b = Some t" "child_at w p ptr = Some (q, j)" "holds E w S q j t" by auto
    obtain nd' where nd': "node_at E w q j = Some nd'" using t(3) by (auto elim: holds.cases)
    have "ptr_rlp ptr = to_rlp_node E nd'"
      using linked_child [OF assms(4,1,2) branch_pointer [OF assms(3)] t(2) nd'] found(2) Some len by simp
    then show thesis using child [OF bs found(2) Some t nd' _ found(1)] by blast
  qed
qed (rule off_path)

text \<open>What a search for a slot returns: the slot with a proof along the path from \<open>off\<close> on, or nothing.\<close>

definition slot_proved :: "externals \<Rightarrow> node \<Rightarrow> nibbles \<Rightarrow> nat \<Rightarrow> storage_proof \<Rightarrow> trie_value option \<Rightarrow> storage_proof option \<Rightarrow> bool" where
  "slot_proved E nd ns off pr tv res \<longleftrightarrow>
     (case tv of
        Some (TStorage v) \<Rightarrow>
          \<exists>new leaf. res = Some (pr\<lparr>spr_value := v, spr_proof := spr_proof pr ++ new\<rparr>) \<and> on_path ns off (length ns + 1) new \<and>
            authentic E new leaf (to_rlp_node E nd) (take off ns) (drop off ns) \<and> node_value E leaf = Ok (TStorage v)
      | _ \<Rightarrow> res = None)"

lemma storage_proof_leaf:
  assumes "holds E w S p i (SLeaf pre v)" and "nibble_list ns" and "off + length pre = length ns" and "node_at E w p i = Some nd"
  shows "\<exists>res. get_storage_proof_from_page (Suc f) E (path_of ns) off p i pr w = (Ok res, w) \<and>
    slot_proved E nd ns off pr (trie_lookup (SLeaf pre v) (drop off ns)) res"
proof -
  from assms(1,4) obtain r where nd: "node_kind nd = StorageLeaf r" "x_decode_u256 E r = Some v" "pre = node_prefix nd"
    by (auto elim: holds_SLeafE)
  have off: "off \<le> length ns" "length (drop off ns) = length pre" using assms(3) by simp_all
  note step = storage_proof_step [OF assms(4,2) off(1), of f pr]
  show ?thesis
  proof (cases "drop off ns = pre")
    case True
    let ?new = "passed E (take off ns) nd"
    have leaf: "node_value E nd = Ok (TStorage v)" using nd by (simp add: node_value_def)
    have strip: "strip_prefix (node_prefix nd) (drop off ns) = Some []" using True nd(3) by (simp add: strip_prefix_Some)
    have "get_storage_proof_from_page (Suc f) E (path_of ns) off p i pr w = (Ok (Some (pr\<lparr>spr_value := v, spr_proof := spr_proof pr ++ ?new\<rparr>)), w)"
      using step leaf nd(1) strip by (simp add: passed_def)
    moreover have "authentic E ?new nd (to_rlp_node E nd) (take off ns) (drop off ns)"
      using authentic_passed_leaf [of nd E "take off ns"] nd(1,3) True by (simp add: is_branch_def)
    moreover have "on_path ns off (length ns + 1) ?new" using on_path_passed [OF off(1), of nd E] nd(3) assms(3) True by simp
    ultimately show ?thesis using leaf strip nd(3) unfolding slot_proved_def by auto
  next
    case False
    have "strip_prefix pre (drop off ns) \<noteq> Some r" for r
    proof
      assume "strip_prefix pre (drop off ns) = Some r"
      then have e: "drop off ns = pre @ r" by (simp add: strip_prefix_Some)
      then have "r = []" using off(2) unfolding e by simp
      with e False show False by simp
    qed
    then have "strip_prefix pre (drop off ns) = None" by (cases "strip_prefix pre (drop off ns)") auto
    then show ?thesis using step nd(3) by (simp add: slot_proved_def)
  qed
qed

text \<open>The proof of a branch and that of its child.\<close>

lemma proof_level:
  assumes "node_kind nd = Branch ps" and "unat b < length ps" and "ps ! unat b = Some ptr" and "ptr_rlp ptr = to_rlp_node E nd'"
    and "drop off ns = node_prefix nd @ b # s"
    and "on_path ns (off + length (node_prefix nd) + 1) e new" and "off + length (node_prefix nd) + 1 \<le> e"
    and "authentic E new leaf (to_rlp_node E nd') (take (off + length (node_prefix nd) + 1) ns) s'"
  shows "on_path ns off e (passed E (take off ns) nd ++ new)"
    "authentic E (passed E (take off ns) nd ++ new) leaf (to_rlp_node E nd) (take off ns) (node_prefix nd @ b # s')"
proof -
  have off: "off \<le> length ns" using drop_level(2) [OF assms(5)] by simp
  have "prefix (node_prefix nd) (drop off ns)" using assms(5) by simp
  then show "on_path ns off e (passed E (take off ns) nd ++ new)"
    using on_path_weaken [OF on_path_passed [OF off]] on_path_weaken [OF assms(6)] assms(7) by (intro on_path_add) simp_all
  show "authentic E (passed E (take off ns) nd ++ new) leaf (to_rlp_node E nd) (take off ns) (node_prefix nd @ b # s')"
    using authentic_level [OF assms(1-3) off assms(5) _ assms(6)] assms(4,8) by simp
qed

lemma slot_proved_level:
  assumes "slot_proved E nd' ns (off + length (node_prefix nd) + 1) (pr\<lparr>spr_proof := spr_proof pr ++ passed E (take off ns) nd\<rparr>) tv res"
    and "node_kind nd = Branch ps" and "unat b < length ps" and "ps ! unat b = Some ptr" and "ptr_rlp ptr = to_rlp_node E nd'"
    and "drop off ns = node_prefix nd @ b # s"
  shows "slot_proved E nd ns off pr tv res"
proof (cases "\<exists>v. tv = Some (TStorage v)")
  case True
  then obtain v new leaf where tv: "tv = Some (TStorage v)"
    and res: "res = Some (pr\<lparr>spr_proof := spr_proof pr ++ passed E (take off ns) nd, spr_value := v, spr_proof := (spr_proof pr ++ passed E (take off ns) nd) ++ new\<rparr>)"
    and new: "on_path ns (off + length (node_prefix nd) + 1) (length ns + 1) new" "authentic E new leaf (to_rlp_node E nd') (take (off + length (node_prefix nd) + 1) ns) s"
    and leaf: "node_value E leaf = Ok (TStorage v)"
    using assms(1) drop_level(1) [OF assms(6)] by (auto simp: slot_proved_def)
  have "off + length (node_prefix nd) + 1 \<le> length ns + 1" using drop_level(2) [OF assms(6)] by simp
  from proof_level [OF assms(2-6) new(1) this new(2)] show ?thesis
    using tv res leaf assms(6) unfolding slot_proved_def
    by (auto intro!: exI [of _ "passed E (take off ns) nd ++ new"] exI [of _ leaf])
qed (use assms(1) in \<open>auto simp: slot_proved_def split: option.splits trie_value.splits\<close>)

lemma storage_proof_found:
  assumes "storage_trie n t" and "holds E w S p i t" and "hash_linked E w S" and "nibble_list ns" and "length ns = 64"
    and "off + n = 64" and "n < fuel" and "node_at E w p i = Some nd"
  shows "\<exists>res. get_storage_proof_from_page fuel E (path_of ns) off p i pr w = (Ok res, w) \<and>
    slot_proved E nd ns off pr (trie_lookup t (drop off ns)) res"
  using assms
proof (induction n t arbitrary: p i off fuel pr nd rule: storage_trie.induct)
  case (1 n pre v)
  obtain f where f: "fuel = Suc f" using 1(7) by (cases fuel) auto
  then show ?case using storage_proof_leaf [OF 1(2,4) _ 1(8)] 1(1,5,6) by simp
next
  case (2 n pre a root)
  then show ?case by simp
next
  case (3 n pre cs)
  obtain f where f: "fuel = Suc f" using 3(8) by (cases fuel) auto
  have shape: "length pre < n" "length cs = 16" using 3(2) by auto
  obtain ps where nd: "node_kind nd = Branch ps" "length ps = 16" "pre = node_prefix nd" using branch_node [OF 3(3,9)] shape by auto
  have off: "off \<le> length ns" "off + length pre < length ns" "\<not> 64 < off" using 3(6,7) shape by simp_all
  note step = storage_proof_step [OF 3(9,5) off(1), of f pr]
  from 3(3,9) nd(1) 3(4,5) off(2) shape(2) show ?case
  proof (cases rule: branch_cases)
    case (child b s ptr t q j nd')
    let ?off = "off + length (node_prefix nd) + 1" and ?pr = "pr\<lparr>spr_proof := spr_proof pr ++ passed E (take off ns) nd\<rparr>"
    have mem: "Some t \<in> set cs" using child(2,4) shape(2) by (metis nth_mem)
    have st: "storage_trie (n - length pre - 1) t" using 3(2) child(2,4) list_all_child by (auto simp: list_all_length)
    have go: "get_storage_proof_from_page fuel E (path_of ns) off p i pr w = get_storage_proof_from_page f E (path_of ns) ?off q j ?pr w"
      using step nd f child off(3) follow_child [OF child(5), of "\<lambda>x y. get_storage_proof_from_page f E (path_of ns) ?off x y ?pr"] by simp
    obtain res where res: "get_storage_proof_from_page f E (path_of ns) ?off q j ?pr w = (Ok res, w)"
      "slot_proved E nd' ns ?off ?pr (trie_lookup t (drop ?off ns)) res"
      using 3(1) [OF mem refl st child(6) 3(4,5,6) _ _ child(7), of ?off f ?pr] f 3(7,8) shape nd(3) by auto
    have "trie_lookup (Br pre cs) (drop off ns) = trie_lookup t (drop ?off ns)" using child nd(3) shape(2) by simp
    then show ?thesis
      using go res slot_proved_level [of E nd' ns off nd pr _ res ps b ptr s] nd child by (simp add: strip_prefix_Some)
  qed (use step nd f shape off(3) in \<open>simp_all add: slot_proved_def\<close>)
qed

subsection \<open>Proofs of accounts\<close>

text \<open>
  The search in the state trie leaves the path, or ends at the account leaf in cell \<open>j\<close> of page \<open>q\<close> with
  \<open>off'\<close> nibbles above it; the proof of that leaf continues to one from the node \<open>nd\<close> on.
\<close>

inductive leaf_reached ::
  "externals \<Rightarrow> world \<Rightarrow> page_id set \<Rightarrow> nat \<Rightarrow> nibbles \<Rightarrow> trie \<Rightarrow> nat \<Rightarrow> page_id \<Rightarrow> nat \<Rightarrow> node \<Rightarrow> account_proof \<Rightarrow> bool"
  for E w S fuel ns t off p i nd pr where
  leaf_reachedI:
    "get_value_with_proof_from_page fuel E (path_of ns) off p i pr w =
       get_value_with_proof_from_page (Suc f') E (path_of ns) off' q j (pr\<lparr>apr_proof := apr_proof pr ++ new\<rparr>) w \<Longrightarrow>
     64 < f' \<Longrightarrow> off \<le> off' \<Longrightarrow> off' + length pre = 64 \<Longrightarrow>
     holds E w S q j (ALeaf pre a root) \<Longrightarrow> case root of None \<Rightarrow> True | Some u \<Rightarrow> storage_trie 64 u \<Longrightarrow> node_at E w q j = Some nd' \<Longrightarrow>
     \<forall>s. trie_lookup t (take (off' - off) (drop off ns) @ s) = trie_lookup (ALeaf pre a root) s \<Longrightarrow>
     \<forall>m leaf s. on_path ns off' (length ns + 1) m \<and> authentic E m leaf (to_rlp_node E nd') (take off' ns) s \<longrightarrow>
       on_path ns off (length ns + 1) (new ++ m) \<and>
       authentic E (new ++ m) leaf (to_rlp_node E nd) (take off ns) (take (off' - off) (drop off ns) @ s) \<Longrightarrow>
     leaf_reached E w S fuel ns t off p i nd pr"

lemma leaf_lookup:
  assumes "\<forall>s. trie_lookup t (take (off' - off) (drop off ns) @ s) = trie_lookup u s" and "off \<le> off'"
  shows "trie_lookup t (drop off ns) = trie_lookup u (drop off' ns)"
proof -
  have "take (off' - off) (drop off ns) @ drop off' ns = drop off ns"
    using append_take_drop_id [of "off' - off" "drop off ns"] assms(2) by simp
  then show ?thesis using assms(1) by metis
qed

lemma leaf_reached_level:
  assumes "leaf_reached E w S f ns t (off + length (node_prefix nd) + 1) q j nd' (pr\<lparr>apr_proof := apr_proof pr ++ passed E (take off ns) nd\<rparr>)"
    and "get_value_with_proof_from_page fuel E (path_of ns) off p i pr w =
      get_value_with_proof_from_page f E (path_of ns) (off + length (node_prefix nd) + 1) q j (pr\<lparr>apr_proof := apr_proof pr ++ passed E (take off ns) nd\<rparr>) w"
    and "\<And>s'. trie_lookup t' (node_prefix nd @ b # s') = trie_lookup t s'"
    and "node_kind nd = Branch ps" and "unat b < length ps" and "ps ! unat b = Some ptr" and "ptr_rlp ptr = to_rlp_node E nd'"
    and "drop off ns = node_prefix nd @ b # s"
  shows "leaf_reached E w S fuel ns t' off p i nd pr"
proof -
  let ?off = "off + length (node_prefix nd) + 1" and ?here = "passed E (take off ns) nd"
  from assms(1) show ?thesis
  proof cases
    case (leaf_reachedI f' off' q' j' new pre a root nd'')
    have len: "?off \<le> length ns + 1" using drop_level(2) [OF assms(8)] by simp
    have path: "take (off' - off) (drop off ns) = node_prefix nd @ b # take (off' - ?off) (drop ?off ns)"
      unfolding drop_level(1) [OF assms(8)] assms(8) using leaf_reachedI(3) by (simp add: take_Cons')
    have auth: "\<forall>m l s'. on_path ns off' (length ns + 1) m \<and> authentic E m l (to_rlp_node E nd'') (take off' ns) s' \<longrightarrow>
        on_path ns off (length ns + 1) ((?here ++ new) ++ m) \<and>
        authentic E ((?here ++ new) ++ m) l (to_rlp_node E nd) (take off ns) (take (off' - off) (drop off ns) @ s')"
    proof (intro allI impI)
      fix m l s'
      assume "on_path ns off' (length ns + 1) m \<and> authentic E m l (to_rlp_node E nd'') (take off' ns) s'"
      then have below: "on_path ns ?off (length ns + 1) (new ++ m)"
        "authentic E (new ++ m) l (to_rlp_node E nd') (take ?off ns) (take (off' - ?off) (drop ?off ns) @ s')"
        using leaf_reachedI(9) by blast+
      show "on_path ns off (length ns + 1) ((?here ++ new) ++ m) \<and>
          authentic E ((?here ++ new) ++ m) l (to_rlp_node E nd) (take off ns) (take (off' - off) (drop off ns) @ s')"
        using proof_level [OF assms(4-8) below(1) len below(2)] unfolding path by simp
    qed
    have "off \<le> off'" using leaf_reachedI(3) by simp
    from leaf_reached.leaf_reachedI [OF _ leaf_reachedI(2) this leaf_reachedI(4-7) _ auth] show ?thesis
      using leaf_reachedI(1,8) assms(2,3) by (simp add: path)
  qed
qed

lemma account_proof_descends:
  assumes "account_trie n t" and "holds E w S p i t" and "hash_linked E w S" and "nibble_list ns" and "64 \<le> length ns"
    and "off + n = 64" and "n + 65 < fuel" and "node_at E w p i = Some nd"
  shows "leaf_reached E w S fuel ns t off p i nd pr \<or>
    get_value_with_proof_from_page fuel E (path_of ns) off p i pr w = (Ok None, w) \<and> trie_lookup t (drop off ns) = None"
  using assms
proof (induction n t arbitrary: p i off fuel pr nd rule: account_trie.induct)
  case (1 n pre v)
  then show ?case by simp
next
  case (2 n pre a root)
  obtain f where f: "fuel = Suc f" using 2(7) by (cases fuel) auto
  show ?case
    by (rule disjI1, rule leaf_reachedI [of fuel E ns off p i pr w f off p i Map.empty pre S a root nd]) (use 2 f in \<open>auto split: option.splits\<close>)
next
  case (3 n pre cs)
  obtain f where f: "fuel = Suc f" using 3(8) by (cases fuel) auto
  have shape: "length pre < n" "length cs = 16" using 3(2) by auto
  obtain ps where nd: "node_kind nd = Branch ps" "length ps = 16" "pre = node_prefix nd" using branch_node [OF 3(3,9)] shape by auto
  have off: "off \<le> length ns" "off + length pre < length ns" "\<not> 64 < off" using 3(6,7) shape by simp_all
  note step = account_proof_step [OF 3(9,5) off(1), of f pr]
  from 3(3,9) nd(1) 3(4,5) off(2) shape(2) show ?case
  proof (cases rule: branch_cases)
    case (child b s ptr t q j nd')
    let ?off = "off + length (node_prefix nd) + 1" and ?pr = "pr\<lparr>apr_proof := apr_proof pr ++ passed E (take off ns) nd\<rparr>"
    have mem: "Some t \<in> set cs" using child(2,4) shape(2) by (metis nth_mem)
    have at: "account_trie (n - length pre - 1) t" using 3(2) child(2,4) list_all_child by (auto simp: list_all_length)
    have go: "get_value_with_proof_from_page fuel E (path_of ns) off p i pr w = get_value_with_proof_from_page f E (path_of ns) ?off q j ?pr w"
      using step nd f child off(3) follow_child [OF child(5), of "\<lambda>x y. get_value_with_proof_from_page f E (path_of ns) ?off x y ?pr"] by simp
    have look: "trie_lookup (Br pre cs) (node_prefix nd @ b # s') = trie_lookup t s'" for s'
    proof -
      have "strip_prefix pre (node_prefix nd @ b # s') = Some (b # s')" using nd(3) by (simp add: strip_prefix_Some)
      then show ?thesis using child(2,4) shape(2) by simp
    qed
    have d: "drop off ns = node_prefix nd @ b # s" "drop ?off ns = s" using child(1,9) nd(3) by (simp_all add: strip_prefix_Some)
    have "leaf_reached E w S f ns t ?off q j nd' ?pr \<or>
        get_value_with_proof_from_page f E (path_of ns) ?off q j ?pr w = (Ok None, w) \<and> trie_lookup t (drop ?off ns) = None"
      using 3(1) [OF mem refl at child(6) 3(4,5,6) _ _ child(7), of ?off f ?pr] f 3(7,8) shape nd(3) by auto
    then show ?thesis
      using go look [of s] d leaf_reached_level [OF _ go look nd(1) _ child(3,8) d(1), of S] nd(2) child(2) by auto
  qed (use step nd f shape off(3) in simp_all)
qed

subsection \<open>Whole proofs\<close>

text \<open>The check of a proof against a root hash.\<close>

definition proves_account :: "externals \<Rightarrow> bytes \<Rightarrow> (raw_path \<rightharpoonup> bytes) \<Rightarrow> nibbles \<Rightarrow> account \<Rightarrow> bool" where
  "proves_account E root m address a \<longleftrightarrow>
     (\<exists>r leaf. x_as_hash E r = Some root \<and> authentic E m leaf r [] address \<and> node_value E leaf = Ok (TAccount a))"

definition proves_slot :: "externals \<Rightarrow> bytes \<Rightarrow> (raw_path \<rightharpoonup> bytes) \<Rightarrow> nibbles \<Rightarrow> u256 \<Rightarrow> bool" where
  "proves_slot E root m slot v \<longleftrightarrow>
     (\<exists>r leaf. x_as_hash E r = Some root \<and> authentic E m leaf r [] slot \<and> node_value E leaf = Ok (TStorage v))"

lemma account_leaf_node:
  assumes "holds E w S p i (ALeaf pre a root)" and "node_at E w p i = Some nd"
  obtains nonce bal code rt where "node_kind nd = AccountLeaf nonce bal code rt" "node_value E nd = Ok (TAccount a)" "pre = node_prefix nd"
    "(rt = None \<and> root = None) \<or> (\<exists>ptr t q j. rt = Some ptr \<and> root = Some t \<and> child_at w p ptr = Some (q, j) \<and> holds E w S q j t)"
  using assms by (auto elim!: holds_ALeafE)

text \<open>The last step of a search with an address.\<close>

lemma account_leaf_found:
  assumes "holds E w S p i (ALeaf pre a root)" and "node_at E w p i = Some nd" and "nibble_list ns" and "off + length pre = length ns"
  shows "if drop off ns = pre
    then get_value_with_proof_from_page (Suc f) E (path_of ns) off p i pr w =
        (Ok (Some (pr\<lparr>apr_proof := apr_proof pr ++ passed E (take off ns) nd, apr_account := a\<rparr>)), w) \<and>
      trie_lookup (ALeaf pre a root) (drop off ns) = Some (TAccount a)
    else get_value_with_proof_from_page (Suc f) E (path_of ns) off p i pr w = (Ok None, w) \<and>
      trie_lookup (ALeaf pre a root) (drop off ns) = None"
proof -
  from assms(1,2) obtain nonce bal code rt where nd: "node_kind nd = AccountLeaf nonce bal code rt" "node_value E nd = Ok (TAccount a)"
    "pre = node_prefix nd" by (rule account_leaf_node)
  have off: "off \<le> length ns" "length (drop off ns) = length pre" using assms(4) by simp_all
  note step = account_proof_step [OF assms(2,3) off(1), of f pr]
  show ?thesis
  proof (cases "strip_prefix pre (drop off ns)")
    case None
    then have "drop off ns \<noteq> pre" using strip_prefix_Some [of pre pre "[]"] by auto
    then show ?thesis using None step nd(3) by simp
  next
    case (Some r)
    then have e: "drop off ns = pre @ r" by (simp add: strip_prefix_Some)
    then have "r = []" using off(2) unfolding e by simp
    then show ?thesis using Some e step nd by (simp add: passed_def)
  qed
qed

lemma account_leaf_authentic:
  assumes "holds E w S p i (ALeaf pre a root)" and "node_at E w p i = Some nd" and "off \<le> length ns" and "prefix pre (drop off ns)"
    and "off + length pre \<le> length ns"
  shows "authentic E (passed E (take off ns) nd) nd (to_rlp_node E nd) (take off ns) pre" "on_path ns off (length ns + 1) (passed E (take off ns) nd)"
    "node_value E nd = Ok (TAccount a)"
proof -
  from assms(1,2) obtain nonce bal code rt where nd: "node_kind nd = AccountLeaf nonce bal code rt" "node_value E nd = Ok (TAccount a)"
    "pre = node_prefix nd" by (rule account_leaf_node)
  then show "authentic E (passed E (take off ns) nd) nd (to_rlp_node E nd) (take off ns) pre" "node_value E nd = Ok (TAccount a)"
    using authentic_passed_leaf [of nd E "take off ns"] by (simp_all add: is_branch_def)
  show "on_path ns off (length ns + 1) (passed E (take off ns) nd)"
    using on_path_weaken [OF on_path_passed [OF assms(3), of nd E], of off "length ns + 1"] assms(4,5) nd(3) by simp
qed

lemma root_node:
  assumes "reads E w S t" and "hash_linked E w S"
  obtains r nd where "cx_root_node_page_id (w_cx w) = Some r" "pm_get (se_pages w) r = Ok r" "holds E w S r 0 t" "account_trie 64 t"
    "node_at E w r 0 = Some nd" "x_as_hash E (to_rlp_node E nd) = Some (cx_root_node_hash (w_cx w))"
proof -
  from assms(1) obtain r where r: "cx_root_node_page_id (w_cx w) = Some r" "pm_get (se_pages w) r = Ok r" "holds E w S r 0 t" "account_trie 64 t"
    by (auto simp: reads_def)
  from r(3) obtain nd where "node_at E w r 0 = Some nd" by (auto elim: holds.cases)
  with r assms(2) show thesis using that unfolding hash_linked_def by blast
qed

lemma account_proof_correct:
  assumes "reads E w S t" and "hash_linked E w S" and "list_all is_nibble (ap_path a)" and "length (ap_path a) = 64"
  shows "case trie_lookup t (ap_path a) of
      Some (TAccount acc) \<Rightarrow> \<exists>m. get_account_with_proof READ_FUEL E a w =
          (Ok (Some \<lparr>apr_hashed_address = ap_path a, apr_account = acc, apr_proof = m, apr_storage_proofs = Map.empty\<rparr>), w) \<and>
        on_path (ap_path a) 0 65 m \<and> proves_account E (cx_root_node_hash (w_cx w)) m (ap_path a) acc
    | _ \<Rightarrow> get_account_with_proof READ_FUEL E a w = (Ok None, w)"
proof -
  let ?ns = "ap_path a" and ?pr = "account_proof_default\<lparr>apr_hashed_address := ap_path a\<rparr>"
  obtain r nd where r: "cx_root_node_page_id (w_cx w) = Some r" "pm_get (se_pages w) r = Ok r" "holds E w S r 0 t" "account_trie 64 t"
    "node_at E w r 0 = Some nd" "x_as_hash E (to_rlp_node E nd) = Some (cx_root_node_hash (w_cx w))" by (rule root_node [OF assms(1,2)])
  have ns: "nibble_list ?ns" using assms(3,4) by (simp add: nibble_list_def)
  have start: "get_account_with_proof READ_FUEL E a w = get_value_with_proof_from_page READ_FUEL E (path_of ?ns) 0 r 0 ?pr w"
    using r(1,2) assms(4) by (simp add: get_account_with_proof_def get_value_with_proof_def action_simps raw_path_of_address_eq
        ADDRESS_PATH_LENGTH_def lower_64_nibbles_def Let_def)
  have "leaf_reached E w S READ_FUEL ?ns t 0 r 0 nd ?pr \<or>
      get_value_with_proof_from_page READ_FUEL E (path_of ?ns) 0 r 0 ?pr w = (Ok None, w) \<and> trie_lookup t (drop 0 ?ns) = None"
    by (rule account_proof_descends [OF r(4,3) assms(2) ns _ _ _ r(5)]) (simp_all add: assms(4) READ_FUEL_def)
  then show ?thesis
  proof
    assume "leaf_reached E w S READ_FUEL ?ns t 0 r 0 nd ?pr"
    then show ?thesis
    proof cases
      case (leaf_reachedI f' off' q j new pre acc root nd')
      note look = leaf_lookup [OF leaf_reachedI(8,3)]
      have "off' + length pre = length ?ns" using leaf_reachedI(4) assms(4) by simp
      note leaf = account_leaf_found [OF leaf_reachedI(5,7) ns this, of f' "?pr\<lparr>apr_proof := apr_proof ?pr ++ new\<rparr>"]
      show ?thesis
      proof (cases "drop off' ?ns = pre")
        case True
        let ?m = "new ++ passed E (take off' ?ns) nd'"
        have "off' \<le> length ?ns" "prefix pre (drop off' ?ns)" "off' + length pre \<le> length ?ns" using leaf_reachedI(4) assms(4) True by simp_all
        note auth = account_leaf_authentic [OF leaf_reachedI(5,7) this]
        have whole: "take off' ?ns @ pre = ?ns" using True append_take_drop_id [of off' ?ns] by simp
        have "on_path ?ns 0 65 ?m" "authentic E ?m nd' (to_rlp_node E nd) [] ?ns"
          using leaf_reachedI(9) [rule_format, OF conjI [OF auth(2,1)]] whole assms(4) by simp_all
        then show ?thesis
          using start leaf_reachedI(1) look leaf True r(6) auth(3)
          by (auto simp: account_proof_default_def proves_account_def)
      qed (use start leaf_reachedI(1) look leaf in simp)
    qed
  qed (use start in simp)
qed

subsection \<open>Whole proofs of slots\<close>

definition slot_of_leaf :: "trie option \<Rightarrow> nibbles \<Rightarrow> trie_value option" where
  "slot_of_leaf root slot = (case root of None \<Rightarrow> None | Some u \<Rightarrow> trie_lookup u slot)"

lemma pack_key: "nibble_pack_laws E \<Longrightarrow> length slot = 64 \<Longrightarrow> b256_of_nibbles E slot = Ok (x_pack_to E slot)"
  by (simp add: b256_of_nibbles_def nibble_pack_lawsD)

lemma account_fields:
  assumes "node_value E nd = Ok (TAccount a)" and "node_kind nd = AccountLeaf nonce bal code rt"
  shows "x_decode_u64 E nonce = Some (acc_nonce a)" "x_decode_u256 E bal = Some (acc_balance a)" "acc_code_hash a = code"
    "rt = Some ptr \<Longrightarrow> x_as_hash E (ptr_rlp ptr) = Some h \<Longrightarrow> acc_storage_root a = h"
  using assms by (auto simp: node_value_def split: option.splits)

lemma proof_below_account_correct:
  assumes "holds E w S p i (ALeaf pre a root)" and "node_at E w p i = Some nd" and "node_kind nd = AccountLeaf nonce bal code rt"
    and "case root of None \<Rightarrow> True | Some u \<Rightarrow> storage_trie 64 u" and "hash_linked E w S" and "hashed_roots E w S" and "nibble_pack_laws E"
    and "nibble_list slot" and "length slot = 64" and "64 < f"
  shows "case slot_of_leaf root slot of
      Some (TStorage v) \<Rightarrow> \<exists>m. proof_below_account f E (path_of slot) p nonce bal code rt pr w =
          (Ok (Some (pr\<lparr>apr_account := a, apr_storage_proofs := (apr_storage_proofs pr)(x_pack_to E slot \<mapsto>
            \<lparr>spr_hashed_slot = slot, spr_value = v, spr_proof = m\<rparr>)\<rparr>)), w) \<and>
        on_path slot 0 65 m \<and> proves_slot E (acc_storage_root a) m slot v
    | _ \<Rightarrow> proof_below_account f E (path_of slot) p nonce bal code rt pr w = (Ok None, w)"
proof -
  from assms(1,2) have leaf: "node_value E nd = Ok (TAccount a)"
    and ch: "(rt = None \<and> root = None) \<or> (\<exists>ptr t q j. rt = Some ptr \<and> root = Some t \<and> child_at w p ptr = Some (q, j) \<and> holds E w S q j t)"
    using assms(3) by (auto elim!: account_leaf_node)
  note fields = account_fields [OF leaf assms(3)]
  show ?thesis
  proof (cases root)
    case None
    then show ?thesis using ch fields(1,2) by (auto simp: proof_below_account_def slot_of_leaf_def action_simps)
  next
    case (Some t)
    then obtain ptr q j where c: "rt = Some ptr" "child_at w p ptr = Some (q, j)" "holds E w S q j t" using ch by auto
    obtain nd' where nd': "node_at E w q j = Some nd'" using c(3) by (auto elim: holds.cases)
    obtain h where h: "x_as_hash E (ptr_rlp ptr) = Some h" using assms(2,3,6) holds_in [OF assms(1)] c(1) unfolding hashed_roots_def by blast
    have "ptr \<in> node_pointers nd" using assms(3) c(1) by (simp add: node_pointers_def)
    then have link: "ptr_rlp ptr = to_rlp_node E nd'" by (rule linked_child [OF assms(5,1,2) _ c(2) nd'])
    have a: "a = \<lparr>acc_nonce = acc_nonce a, acc_balance = acc_balance a, acc_storage_root = h, acc_code_hash = code\<rparr>"
      using fields(3,4) c(1) h by (cases a) simp
    let ?spr = "storage_proof_default\<lparr>spr_hashed_slot := slot\<rparr>"
    have "storage_trie 64 t" using assms(4) Some by simp
    from storage_proof_found [OF this c(3) assms(5,8,9) _ assms(10) nd', of 0 ?spr]
    obtain res where res: "get_storage_proof_from_page f E (path_of slot) 0 q j ?spr w = (Ok res, w)"
      "slot_proved E nd' slot 0 ?spr (trie_lookup t slot) res" by auto
    have run: "proof_below_account f E (path_of slot) p nonce bal code rt pr w =
        (case res of None \<Rightarrow> (Ok None, w)
         | Some spr \<Rightarrow> bindE (liftE (b256_of_nibbles E (spr_hashed_slot spr))) (\<lambda>key.
             returnE (Some (pr\<lparr>apr_account := a, apr_storage_proofs := (apr_storage_proofs pr)(key \<mapsto> spr)\<rparr>))) w)"
      using res(1) fields(1,2) c(1) h assms(9) a follow_child [OF c(2), of "\<lambda>x y. get_storage_proof_from_page f E (path_of slot) 0 x y ?spr"]
      by (simp add: proof_below_account_def to_nibbles_def nibbles_try_from_def action_simps Let_def split: option.splits)
    show ?thesis
    proof (cases "\<exists>v. trie_lookup t slot = Some (TStorage v)")
      case True
      then obtain v m leaf' where "trie_lookup t slot = Some (TStorage v)"
        "res = Some \<lparr>spr_hashed_slot = slot, spr_value = v, spr_proof = m\<rparr>" "on_path slot 0 65 m"
        "authentic E m leaf' (to_rlp_node E nd') [] slot" "node_value E leaf' = Ok (TStorage v)"
        using res(2) assms(9) by (auto simp: slot_proved_def storage_proof_default_def)
      moreover have "b256_of_nibbles E slot = (Ok (x_pack_to E slot) :: (_, engine_error) result)" by (rule pack_key [OF assms(7,9)])
      ultimately show ?thesis
        using run Some h link fields(4) [OF c(1) h]
        by (auto simp: slot_of_leaf_def action_simps proves_slot_def)
    next
      case False
      then have "res = None" using res(2) by (auto simp: slot_proved_def split: option.splits trie_value.splits)
      then show ?thesis using run Some False by (auto simp: slot_of_leaf_def split: option.splits trie_value.splits)
    qed
  qed
qed

text \<open>The search for a slot from the account leaf on.\<close>

lemma slot_below_leaf:
  assumes "leaf_reached E w S fuel (address @ slot) t 0 p i nd pr" and "hash_linked E w S" and "hashed_roots E w S" and "nibble_pack_laws E"
    and "nibble_list address" "length address = 64" and "nibble_list slot" "length slot = 64"
    and "apr_proof pr = Map.empty" and "x_as_hash E (to_rlp_node E nd) = Some h"
  shows "case trie_lookup t (address @ slot) of
      Some (TStorage v) \<Rightarrow> \<exists>acc m m'. get_value_with_proof_from_page fuel E (path_of (address @ slot)) 0 p i pr w =
          (Ok (Some (pr\<lparr>apr_proof := m, apr_account := acc, apr_storage_proofs := (apr_storage_proofs pr)(x_pack_to E slot \<mapsto>
             \<lparr>spr_hashed_slot = slot, spr_value = v, spr_proof = m'\<rparr>)\<rparr>)), w) \<and>
        trie_lookup t address = Some (TAccount acc) \<and> proves_account E h m address acc \<and> proves_slot E (acc_storage_root acc) m' slot v
    | _ \<Rightarrow> get_value_with_proof_from_page fuel E (path_of (address @ slot)) 0 p i pr w = (Ok None, w)"
  using assms(1)
proof cases
  case (leaf_reachedI f' off' q j new pre acc root nd')
  let ?ns = "address @ slot" and ?m = "new ++ passed E (take off' (address @ slot)) nd'"
  have ns: "nibble_list ?ns" "take 64 ?ns = address" "drop 64 ?ns = slot" using assms(5-8) by (simp_all add: nibble_list_def)
  obtain nonce bal code rt where k: "node_kind nd' = AccountLeaf nonce bal code rt" "pre = node_prefix nd'"
    using leaf_reachedI(5,7) by (rule account_leaf_node)
  have off: "off' \<le> length ?ns" "off' + length pre \<le> length ?ns" "\<not> 64 < off'" using leaf_reachedI(4) assms(6,8) by simp_all
  note look = leaf_lookup [OF leaf_reachedI(8,3)]
  note step = account_proof_step [OF leaf_reachedI(7) ns(1) off(1), of f' "pr\<lparr>apr_proof := apr_proof pr ++ new\<rparr>"]
  show ?thesis
  proof (cases "strip_prefix pre (drop off' ?ns)")
    case None
    then show ?thesis using leaf_reachedI(1) look step k by simp
  next
    case (Some rest)
    then have d: "strip_prefix pre (drop off' ?ns) = Some slot" "drop off' ?ns = pre @ slot"
      using strip_prefix_drop [OF Some] leaf_reachedI(4) ns(3) by (simp_all add: strip_prefix_Some)
    obtain b s where bs: "slot = b # s" using assms(8) by (cases slot) auto
    have pre: "prefix pre (drop off' ?ns)" using d(2) by simp
    note auth = account_leaf_authentic [OF leaf_reachedI(5,7) off(1) pre off(2)]
    have whole: "take off' ?ns @ pre = address" using take_behind [OF d(1)] unfolding leaf_reachedI(4) ns(2) by (rule sym)
    have here: "trie_lookup t address = Some (TAccount acc)"
      using leaf_reachedI(8) [rule_format, of pre] whole strip_prefix_Some [of pre pre "[]"] by simp
    have acc: "proves_account E h ?m address acc"
      using leaf_reachedI(9) [rule_format, OF conjI [OF auth(2,1)]] whole assms(10) auth(3) unfolding proves_account_def by auto
    have look: "trie_lookup t ?ns = slot_of_leaf root slot"
      using look d bs by (simp add: slot_of_leaf_def)
    have go: "get_value_with_proof_from_page fuel E (path_of ?ns) 0 p i pr w =
        proof_below_account f' E (path_of slot) q nonce bal code rt (pr\<lparr>apr_proof := ?m\<rparr>) w"
      using leaf_reachedI(1,4) step d k off(3) bs assms(9) by simp
    show ?thesis
      using proof_below_account_correct [OF leaf_reachedI(5,7) k(1) leaf_reachedI(6) assms(2-4,7,8) leaf_reachedI(2), of "pr\<lparr>apr_proof := ?m\<rparr>"] acc here
      unfolding go look by (auto split: option.splits trie_value.splits)
  qed
qed

lemma storage_proof_correct:
  assumes "reads E w S t" and "hash_linked E w S" and "hashed_roots E w S" and "nibble_pack_laws E"
    and "list_all is_nibble (ap_path (sp_address s))" and "length (ap_path (sp_address s)) = 64"
    and "list_all is_nibble (sp_slot s)" and "length (sp_slot s) = 64"
  shows "case trie_lookup t (ap_path (sp_address s) @ sp_slot s) of
      Some (TStorage v) \<Rightarrow> \<exists>acc m m'. get_storage_with_proof READ_FUEL E s w =
          (Ok (Some \<lparr>apr_hashed_address = ap_path (sp_address s), apr_account = acc, apr_proof = m,
             apr_storage_proofs = [x_pack_to E (sp_slot s) \<mapsto> \<lparr>spr_hashed_slot = sp_slot s, spr_value = v, spr_proof = m'\<rparr>]\<rparr>), w) \<and>
        trie_lookup t (ap_path (sp_address s)) = Some (TAccount acc) \<and>
        proves_account E (cx_root_node_hash (w_cx w)) m (ap_path (sp_address s)) acc \<and>
        proves_slot E (acc_storage_root acc) m' (sp_slot s) v
    | _ \<Rightarrow> get_storage_with_proof READ_FUEL E s w = (Ok None, w)"
proof -
  let ?ns = "ap_path (sp_address s) @ sp_slot s" and ?pr = "account_proof_default\<lparr>apr_hashed_address := ap_path (sp_address s)\<rparr>"
  obtain r nd where r: "cx_root_node_page_id (w_cx w) = Some r" "pm_get (se_pages w) r = Ok r" "holds E w S r 0 t" "account_trie 64 t"
    "node_at E w r 0 = Some nd" "x_as_hash E (to_rlp_node E nd) = Some (cx_root_node_hash (w_cx w))" by (rule root_node [OF assms(1,2)])
  have ns: "nibble_list ?ns" "nibble_list (ap_path (sp_address s))" "nibble_list (sp_slot s)"
    using assms(5-8) by (simp_all add: nibble_list_def)
  have "raw_path_of_storage s = (Ok (path_of ?ns) :: (_, engine_error) result)" by (rule raw_path_of_storage_eq [OF assms(5,7,6,8)])
  then have start: "get_storage_with_proof READ_FUEL E s w = get_value_with_proof_from_page READ_FUEL E (path_of ?ns) 0 r 0 ?pr w"
    using r(1,2) assms(6,8) by (simp add: get_storage_with_proof_def get_value_with_proof_def action_simps
        ADDRESS_PATH_LENGTH_def STORAGE_PATH_LENGTH_def lower_64_nibbles_def Let_def)
  have "leaf_reached E w S READ_FUEL ?ns t 0 r 0 nd ?pr \<or>
      get_value_with_proof_from_page READ_FUEL E (path_of ?ns) 0 r 0 ?pr w = (Ok None, w) \<and> trie_lookup t (drop 0 ?ns) = None"
    by (rule account_proof_descends [OF r(4,3) assms(2) ns(1) _ _ _ r(5)]) (simp_all add: assms(6,8) READ_FUEL_def)
  then show ?thesis
  proof
    assume "leaf_reached E w S READ_FUEL ?ns t 0 r 0 nd ?pr"
    from slot_below_leaf [OF this assms(2-4) ns(2) assms(6) ns(3) assms(8) _ r(6)] show ?thesis
      unfolding start by (auto simp: account_proof_default_def split: option.splits trie_value.splits)
  qed (use start in simp)
qed

subsection \<open>A concrete state\<close>

lemma sample_hash_linked: "hash_linked sample_externals sample_world {1}"
proof -
  have leaf: "n = sample_leaf" if "node_at sample_externals sample_world 1 i = Some n" for i n
    using that sample_get_leaf sample_get_other [of i]
    by (cases "i = 0") (auto simp: node_at_def page_at_def sample_world_def split: if_splits)
  have "length (node_rlp_encode sample_externals sample_leaf) \<ge> 32"
    by (simp add: node_rlp_encode_def sample_leaf_def node_new_def sample_externals_def)
  then have "x_as_hash sample_externals (to_rlp_node sample_externals sample_leaf) = Some (cx_root_node_hash (w_cx sample_world))"
    by (simp add: to_rlp_node_def sample_externals_def sample_world_def)
  moreover have "node_pointers sample_leaf = {}" by (simp add: node_pointers_def sample_leaf_def node_new_def)
  moreover have "cx_root_node_page_id (w_cx sample_world) = Some 1" by (simp add: sample_world_def)
  ultimately show ?thesis using leaf unfolding hash_linked_def by (metis empty_iff option.inject singletonD)
qed

text \<open>A page with an account leaf in cell 0 and its only slot in cell 1, and a reader of it.\<close>

definition slot_leaf :: node where
  "slot_leaf = node_new (replicate 64 5) (StorageLeaf (x_encode_u256 sample_externals 7))"

definition owner_pointer :: pointer where
  "owner_pointer = pointer_new (location_for_cell 1) (0xa0 # replicate 32 7)"

definition owner_leaf :: node where
  "owner_leaf = node_new (replicate 64 0) (AccountLeaf (x_encode_u64 sample_externals 1)
     (x_encode_u256 sample_externals 2) (x_keccak_empty sample_externals) (Some owner_pointer))"

definition owner_account :: account where
  "owner_account = sample_account\<lparr>acc_storage_root := replicate 32 7\<rparr>"

definition world_with :: "bytes \<Rightarrow> world" where
  "world_with c = sample_world\<lparr>se_pages := (se_pages sample_world)\<lparr>mmap := (mmap (se_pages sample_world))(1 := \<lparr>pg_state = 1, pg_data = c\<rparr>)\<rparr>\<rparr>"

lemma owner_leaves_wf: "node_wf owner_leaf" "node_wf slot_leaf"
    "node_value sample_externals owner_leaf = Ok (TAccount owner_account)" "x_decode_u256 sample_externals (x_encode_u256 sample_externals 7) = Some 7"
proof -
  have "length (x_keccak_empty sample_externals) = 32" by (simp add: sample_externals_def)
  moreover have "x_as_hash sample_externals (0xa0 # replicate 32 7) = Some (replicate 32 7)" by (simp add: sample_externals_def)
  ultimately show "node_wf owner_leaf" "node_wf slot_leaf" "node_value sample_externals owner_leaf = Ok (TAccount owner_account)"
    "x_decode_u256 sample_externals (x_encode_u256 sample_externals 7) = Some 7"
    using sample_rlp_int_laws
    by (simp_all add: owner_leaf_def slot_leaf_def owner_pointer_def pointer_new_def node_wf_def node_new_def node_kind_wf_def rlp_int_laws_def
        rlp_node_wf_def node_value_def owner_account_def sample_account_def)
qed

lemma owner_sizes: "v_size (node_ops sample_externals) owner_leaf \<le> 200" "v_size (node_ops sample_externals) slot_leaf \<le> 100"
proof -
  have "rlp_int_string 9 (x_encode_u64 sample_externals 1)" "rlp_int_string 33 (x_encode_u256 sample_externals 2)"
    "rlp_int_string 33 (x_encode_u256 sample_externals 7)" using sample_rlp_int_laws by (simp_all add: rlp_int_laws_def)
  then have "length (x_encode_u64 sample_externals 1) \<le> 9" "length (x_encode_u256 sample_externals 2) \<le> 33" "length (x_encode_u256 sample_externals 7) \<le> 33"
    by (auto simp: rlp_int_string_def split: if_splits)
  then show "v_size (node_ops sample_externals) owner_leaf \<le> 200" "v_size (node_ops sample_externals) slot_leaf \<le> 100"
    by (simp_all add: node_ops_def owner_leaf_def slot_leaf_def node_new_def node_size_def packed_length_def)
qed

lemma owner_page:
  obtains c where "get_value (node_ops sample_externals) c 0 = Ok owner_leaf" "get_value (node_ops sample_externals) c 1 = Ok slot_leaf"
    "\<And>i. i \<noteq> 0 \<Longrightarrow> i \<noteq> 1 \<Longrightarrow> get_value (node_ops sample_externals) c i = Err InvalidCellPointer"
proof -
  let ?ops = "node_ops sample_externals" and ?e = "replicate 4088 0 :: bytes"
  have laws: "codec_laws sample_externals \<and> node_wf owner_leaf" "codec_laws sample_externals \<and> node_wf slot_leaf"
    using sample_laws owner_leaves_wf by (simp_all add: codec_laws_def)
  note sizes = owner_sizes
  have "fits ?e 0 (v_size ?ops owner_leaf)" using sizes(1) by (simp add: empty_page_fits)
  then obtain c1 where c1: "page_inv c1" "stores ?ops ?e 0 owner_leaf c1" "num_cells c1 = cells_with ?e 0" "occupied c1 = occupied ?e + v_size ?ops owner_leaf"
    using insert_value_cases [OF empty_page_inv node_value.value_codec_axioms laws(1)] empty_page_free(1) sizes(1) by auto
  have one: "num_cells c1 = 1" "occupied c1 \<le> 200" "cell_data c1 0 \<noteq> None"
    using c1(2-4) sizes(1) by (auto simp: num_cells_def occupied_def live_cells_def stores_def)
  obtain i where i: "next_free_cell_index c1 = Ok i" using next_free_error [OF c1(1)] one(1) by auto
  have "i \<noteq> 0" using next_free_ready(2) [OF c1(1) i] one(3) by (cases "i = 0") auto
  moreover have "i \<le> 1" using next_free_ready(1) [OF c1(1) i] one(1) by (simp add: slot_ready_def)
  ultimately have i1: "i = 1" by simp
  have "fits c1 1 (v_size ?ops slot_leaf)" using one sizes(2) by (simp add: fits_def)
  then obtain c where c: "page_inv c" "stores ?ops c1 1 slot_leaf c"
    using insert_value_cases [OF c1(1) node_value.value_codec_axioms laws(2)] i sizes(2) unfolding i1 by auto
  show thesis
  proof (rule that)
    show "get_value ?ops c 0 = Ok owner_leaf" "get_value ?ops c 1 = Ok slot_leaf"
      using stores_get_value [OF c(2,1)] stores_get_other [OF c(2) c1(1) c(1), of 0] stores_get_value [OF c1(2,1)] by simp_all
    show "get_value ?ops c k = Err InvalidCellPointer" if "k \<noteq> 0" "k \<noteq> 1" for k
      using stores_get_other [OF c(2) c1(1) c(1) that(2)] stores_get_other [OF c1(2) empty_page_inv c1(1) that(1)]
      by (simp add: get_value_def get_cell_pointer_def num_cells_def)
  qed
qed

text \<open>The two leaves in one page, as the hypotheses of the properties want them.\<close>

lemma owner_world:
  obtains w where "reads sample_externals w {1} (ALeaf (replicate 64 0) owner_account (Some (SLeaf (replicate 64 5) 7)))"
    "hash_linked sample_externals w {1}" "hashed_roots sample_externals w {1}" "cx_root_node_hash (w_cx w) = replicate 32 7"
proof -
  obtain c where c: "get_value (node_ops sample_externals) c 0 = Ok owner_leaf" "get_value (node_ops sample_externals) c 1 = Ok slot_leaf"
    "\<And>i. i \<noteq> 0 \<Longrightarrow> i \<noteq> 1 \<Longrightarrow> get_value (node_ops sample_externals) c i = Err InvalidCellPointer" by (rule owner_page) blast
  let ?w = "world_with c"
  have nodes: "node_at sample_externals ?w 1 0 = Some owner_leaf" "node_at sample_externals ?w 1 1 = Some slot_leaf"
    "i \<noteq> 0 \<Longrightarrow> i \<noteq> 1 \<Longrightarrow> node_at sample_externals ?w 1 i = None" for i
    using c by (simp_all add: node_at_def page_at_def world_with_def sample_world_def owner_leaf_def slot_leaf_def node_new_def nibble_list_def)
  have child: "child_at ?w 1 owner_pointer = Some (1, 1)"
    by (simp add: child_at_def pointer_cell_index_def location_cell_index_def owner_pointer_def pointer_new_def location_for_cell_def word_le_nat_alt)
  have "holds sample_externals ?w {1} 1 1 (SLeaf (node_prefix slot_leaf) 7)"
    using nodes(2) owner_leaves_wf(4) by (intro holds_storage_leaf) (auto simp: slot_leaf_def node_new_def)
  then have "holds sample_externals ?w {1} 1 0 (ALeaf (node_prefix owner_leaf) owner_account (Some (SLeaf (node_prefix slot_leaf) 7)))"
    using nodes(1) owner_leaves_wf(3) child by (intro holds_account_leaf) (auto simp: owner_leaf_def node_new_def)
  then have "reads sample_externals ?w {1} (ALeaf (replicate 64 0) owner_account (Some (SLeaf (replicate 64 5) 7)))"
    by (simp add: reads_def owner_leaf_def slot_leaf_def node_new_def world_with_def sample_world_def pm_get_def in_memory_def page_id_as_offset_def
        PAGE_SIZE_def page_from_ptr_def raw_state_load_def page_state_of_u64_def DIRTY_MASK_def)
  moreover have cx: "cx_root_node_hash (w_cx ?w) = replicate 32 7" "cx_root_node_page_id (w_cx ?w) = Some 1"
    by (simp_all add: world_with_def sample_world_def)
  moreover have hash: "x_as_hash sample_externals (to_rlp_node sample_externals owner_leaf) = Some (replicate 32 7)"
    "to_rlp_node sample_externals slot_leaf = ptr_rlp owner_pointer" "x_as_hash sample_externals (ptr_rlp owner_pointer) \<noteq> None"
    by (simp_all add: to_rlp_node_def node_rlp_encode_def owner_leaf_def slot_leaf_def owner_pointer_def pointer_new_def node_new_def sample_externals_def)
  have leaves: "(i = 0 \<and> n = owner_leaf) \<or> (i = 1 \<and> n = slot_leaf)" if "node_at sample_externals ?w 1 i = Some n" for i n
    using nodes that by (cases "i = 0"; cases "i = 1") auto
  have ptrs: "node_pointers owner_leaf = {owner_pointer}" "node_pointers slot_leaf = {}"
    by (simp_all add: node_pointers_def owner_leaf_def slot_leaf_def node_new_def)
  have "hashed_roots sample_externals ?w {1}"
    unfolding hashed_roots_def using leaves hash(3) by (force simp: owner_leaf_def slot_leaf_def node_new_def)
  moreover have "ptr_rlp ptr = to_rlp_node sample_externals n'"
    if "node_at sample_externals ?w 1 i = Some n" "ptr \<in> node_pointers n" "child_at ?w 1 ptr = Some (q, j)" "node_at sample_externals ?w q j = Some n'" for i n ptr q j n'
  proof -
    have "ptr = owner_pointer" using leaves [OF that(1)] that(2) ptrs by auto
    then have "q = 1" "j = 1" using child that(3) by auto
    then show ?thesis using leaves [of 1 n'] that(4) hash(2) \<open>ptr = owner_pointer\<close> by simp
  qed
  then have "hash_linked sample_externals ?w {1}" unfolding hash_linked_def using cx hash(1) leaves [of 0] by auto
  ultimately show thesis using that by blast
qed

subsection \<open>Properties\<close>

text \<open>
  C8. The proof of an account: \<open>get_account_with_proof\<close> returns a proof exactly when the lookup of the address
  in the stored trie finds an account. The proof names the address and this account, and its entries, all of them for
  prefixes of the address, lead from the state root of the context to a leaf that holds the account: each
  entry has the hash (or is the short encoding) that the entry above it references. The search ends
  within 130 steps and changes nothing.
\<close>

theorem account_proof_authentic:
  assumes "reads E w S t" and "hash_linked E w S" and "list_all is_nibble (ap_path a)" and "length (ap_path a) = 64"
  shows "case trie_lookup t (ap_path a) of
      Some (TAccount acc) \<Rightarrow> \<exists>m. get_account_with_proof READ_FUEL E a w =
          (Ok (Some \<lparr>apr_hashed_address = ap_path a, apr_account = acc, apr_proof = m, apr_storage_proofs = Map.empty\<rparr>), w) \<and>
        on_path (ap_path a) 0 65 m \<and> proves_account E (cx_root_node_hash (w_cx w)) m (ap_path a) acc
    | _ \<Rightarrow> get_account_with_proof READ_FUEL E a w = (Ok None, w)"
  by (rule account_proof_correct [OF assms])

theorem account_proof_authentic_witness:
  "\<exists>m. get_account_with_proof READ_FUEL sample_externals \<lparr>ap_path = replicate 64 0\<rparr> sample_world =
      (Ok (Some \<lparr>apr_hashed_address = replicate 64 0, apr_account = sample_account, apr_proof = m, apr_storage_proofs = Map.empty\<rparr>), sample_world) \<and>
    proves_account sample_externals (replicate 32 7) m (replicate 64 0) sample_account"
proof -
  have "strip_prefix (replicate 64 0) (replicate 64 (0 :: byte)) = Some []" by (simp add: strip_prefix_Some)
  moreover have "cx_root_node_hash (w_cx sample_world) = replicate 32 7" by (simp add: sample_world_def)
  ultimately show ?thesis
    using account_proof_authentic [OF sample_reads sample_hash_linked, of "\<lparr>ap_path = replicate 64 0\<rparr>"] by auto
qed

text \<open>
  C9. The proof of a slot: \<open>get_storage_with_proof\<close> returns a proof exactly when the lookup of the whole path
  finds a value. The proof then has the account at that address with entries that prove it against the state root of the context, and one storage proof, filed under the packed slot, that names the slot and its value and
  has entries that prove this value against the storage root of that account.
\<close>

theorem storage_proof_authentic:
  assumes "reads E w S t" and "hash_linked E w S" and "hashed_roots E w S" and "nibble_pack_laws E"
    and "list_all is_nibble (ap_path (sp_address s))" and "length (ap_path (sp_address s)) = 64"
    and "list_all is_nibble (sp_slot s)" and "length (sp_slot s) = 64"
  shows "case trie_lookup t (ap_path (sp_address s) @ sp_slot s) of
      Some (TStorage v) \<Rightarrow> \<exists>acc m m'. get_storage_with_proof READ_FUEL E s w =
          (Ok (Some \<lparr>apr_hashed_address = ap_path (sp_address s), apr_account = acc, apr_proof = m,
             apr_storage_proofs = [x_pack_to E (sp_slot s) \<mapsto> \<lparr>spr_hashed_slot = sp_slot s, spr_value = v, spr_proof = m'\<rparr>]\<rparr>), w) \<and>
        trie_lookup t (ap_path (sp_address s)) = Some (TAccount acc) \<and>
        proves_account E (cx_root_node_hash (w_cx w)) m (ap_path (sp_address s)) acc \<and>
        proves_slot E (acc_storage_root acc) m' (sp_slot s) v
    | _ \<Rightarrow> get_storage_with_proof READ_FUEL E s w = (Ok None, w)"
  by (rule storage_proof_correct [OF assms])

theorem storage_proof_authentic_witness:
  "\<exists>w m m'. get_storage_with_proof READ_FUEL sample_externals \<lparr>sp_address = \<lparr>ap_path = replicate 64 0\<rparr>, sp_slot = replicate 64 5\<rparr> w =
      (Ok (Some \<lparr>apr_hashed_address = replicate 64 0, apr_account = owner_account, apr_proof = m,
         apr_storage_proofs = [x_pack_to sample_externals (replicate 64 5) \<mapsto>
           \<lparr>spr_hashed_slot = replicate 64 5, spr_value = 7, spr_proof = m'\<rparr>]\<rparr>), w) \<and>
    proves_slot sample_externals (acc_storage_root owner_account) m' (replicate 64 5) 7"
proof -
  obtain w where w: "reads sample_externals w {1} (ALeaf (replicate 64 0) owner_account (Some (SLeaf (replicate 64 5) 7)))"
    "hash_linked sample_externals w {1}" "hashed_roots sample_externals w {1}" by (rule owner_world)
  have "strip_prefix (replicate 64 0) (replicate 64 0 @ replicate 64 (5 :: byte)) = Some (replicate 64 5)"
    "strip_prefix (replicate 64 5) (replicate 64 (5 :: byte)) = Some []" by (simp_all add: strip_prefix_Some)
  moreover have "replicate 64 (5 :: byte) = 5 # replicate 63 5" by code_simp
  ultimately have "trie_lookup (ALeaf (replicate 64 0) owner_account (Some (SLeaf (replicate 64 5) 7))) (replicate 64 0 @ replicate 64 5) = Some (TStorage 7)"
    by (simp split: list.split)
  moreover have "trie_lookup (ALeaf (replicate 64 0) owner_account (Some (SLeaf (replicate 64 5) 7))) (replicate 64 0) = Some (TAccount owner_account)"
    using strip_prefix_Some [of "replicate 64 0" "replicate 64 0" "[]"] by simp
  ultimately show ?thesis
    using storage_proof_authentic [OF w sample_nibble_pack_laws,
      of "\<lparr>sp_address = \<lparr>ap_path = replicate 64 0\<rparr>, sp_slot = replicate 64 5\<rparr>"] by (auto simp del: trie_lookup.simps)
qed
end
