(* ===== verification/Transaction_Queries.thy ===== *)
theory Transaction_Queries
  imports Transaction_System Proofs
begin

text \<open>
  The queries of a transaction (\<open>src/src/transaction.rs\<close>) that go beyond reading a value: Merkle proofs and the
  state root with an overlay. They take the transaction by shared reference; what they return is the
  result of the engine on the snapshot of the transaction, and neither transaction nor database change.
\<close>

definition run_map_err :: "'a action \<Rightarrow> transaction \<Rightarrow> database \<Rightarrow> ('a, transaction_error) result \<times> transaction \<times> database" where
  "run_map_err m tx db =
     (case m (world_of (db_engine db) (tx_context tx)) of (r, w) \<Rightarrow>
        (map_err (\<lambda>_. TransactionError) r, tx\<lparr>tx_context := w_cx w\<rparr>, db\<lparr>db_engine := storage_of w\<rparr>))"

definition tx_compute_root_with_overlay ::
  "nat \<Rightarrow> externals \<Rightarrow> 'u hash_builder \<Rightarrow> overlay_state \<Rightarrow> transaction \<Rightarrow> database \<Rightarrow>
   ('u overlayed_root, transaction_error) result \<times> transaction \<times> database" where
  "tx_compute_root_with_overlay fuel E H overlay = run_map_err (compute_state_root_with_overlay fuel E H overlay)"

definition tx_get_account_with_proof ::
  "externals \<Rightarrow> address_path \<Rightarrow> transaction \<Rightarrow> database \<Rightarrow> (account_proof option, transaction_error) result \<times> transaction \<times> database" where
  "tx_get_account_with_proof E a = run_unwrap (get_account_with_proof READ_FUEL E a)"

definition tx_get_storage_with_proof ::
  "externals \<Rightarrow> storage_path \<Rightarrow> transaction \<Rightarrow> database \<Rightarrow> (account_proof option, transaction_error) result \<times> transaction \<times> database" where
  "tx_get_storage_with_proof E s = run_unwrap (get_storage_with_proof READ_FUEL E s)"

text \<open>A query that leaves the world as it was leaves transaction and database as they were.\<close>

lemma world_of_parts [simp]: "storage_of (world_of st cx) = st" "w_cx (world_of st cx) = cx"
  using storage_of_cache(1) [of "cx_cache cx" st cx] by simp_all

lemma run_pure:
  assumes "m (world_of (db_engine db) (tx_context tx)) = (Ok x, world_of (db_engine db) (tx_context tx))"
  shows "run_unwrap m tx db = (Ok x, tx, db)" "run_map_err m tx db = (Ok x, tx, db)"
  using assms by (simp_all add: run_unwrap_def run_map_err_def)

text \<open>A reader whose trie is intact gets a proof of every account of it, in whatever state the other clients are.\<close>

lemma reader_account_proof:
  assumes "intact E s tx S t" and "hash_linked E (world_of (sys_engine s) (tx_context tx)) S" and "address_ok a"
    and "trie_lookup t (ap_path a) = Some (TAccount acc)"
  shows "\<exists>pr. tx_get_account_with_proof E a tx (sys_db s) = (Ok (Some pr), tx, sys_db s) \<and> apr_account pr = acc \<and>
    proves_account E (tx_state_root tx) (apr_proof pr) (ap_path a) acc"
proof -
  have a: "list_all is_nibble (ap_path a)" "length (ap_path a) = 64" using assms(3) by (simp_all add: address_ok_def)
  obtain m where "get_account_with_proof READ_FUEL E a (world_of (sys_engine s) (tx_context tx)) =
      (Ok (Some \<lparr>apr_hashed_address = ap_path a, apr_account = acc, apr_proof = m, apr_storage_proofs = Map.empty\<rparr>),
       world_of (sys_engine s) (tx_context tx))"
    "proves_account E (tx_state_root tx) m (ap_path a) acc"
    using account_proof_correct [OF intact_reads [OF assms(1)] assms(2) a] assms(4) by (auto simp: tx_state_root_def)
  then show ?thesis using run_pure(1) [of "get_account_with_proof READ_FUEL E a" "sys_db s" tx] by (simp add: tx_get_account_with_proof_def)
qed

end
