(* ===== verification/Debugger.thy ===== *)
theory Debugger
  imports Transaction_System Proofs
begin

text \<open>
  The debugger (\<open>src/src/storage/debug.rs\<close>): printing of pages and paths, statistics of the trie, and the
  consistency check of a database, with the calls of \<open>database.rs\<close> and \<open>transaction.rs\<close> that reach them.

  What is written is the list of its lines, each with the data it shows; the text around
  the data is left out, and the writer is one whose writes succeed. The metadata file is opened a second time here: the new
  manager maps the same file as the one of the engine, so that what opening writes is seen by the engine.
  The size and the time of change of a corrupted metadata file, which are printed too, are left out.
\<close>

subsection \<open>Statistics records\<close>

record debug_stats =
  ds_min :: u64
  ds_max :: u64
  ds_total_sum :: u64
  ds_count :: u64

definition debug_stats_default :: debug_stats where
  "debug_stats_default = \<lparr>ds_min = 0xffffffffffffffff, ds_max = 0, ds_total_sum = 0, ds_count = 0\<rparr>"

definition update_stats :: "u64 \<Rightarrow> debug_stats \<Rightarrow> debug_stats" where
  "update_stats new_val s =
     (let s = (if ds_max s < new_val then s\<lparr>ds_max := new_val\<rparr> else s);
          s = (if new_val < ds_min s then s\<lparr>ds_min := new_val\<rparr> else s);
          s = s\<lparr>ds_total_sum := ds_total_sum s + new_val\<rparr> in
      s\<lparr>ds_count := ds_count s + 1\<rparr>)"

record debug_page =
  dp_nodes_per_page :: debug_stats
  dp_bytes_per_page :: debug_stats
  dp_depth_in_nodes :: debug_stats
  dp_depth_in_pages :: debug_stats
  dp_prefix_length :: debug_stats
  dp_num_children :: debug_stats
  dp_node_size :: debug_stats

definition debug_page_default :: debug_page where
  "debug_page_default =
     \<lparr>dp_nodes_per_page = debug_stats_default, dp_bytes_per_page = debug_stats_default,
      dp_depth_in_nodes = debug_stats_default, dp_depth_in_pages = debug_stats_default,
      dp_prefix_length = debug_stats_default, dp_num_children = debug_stats_default, dp_node_size = debug_stats_default\<rparr>"

subsection \<open>Output\<close>

datatype debug_line =
    BranchLine nat page_id "nat list" bytes
  | AccountLine nat account bytes
  | AccountNoValue nat
  | StorageLine nat u256 bytes
  | StorageNoValue nat
  | ChildOnNewPage nat page_id
  | NoDirectChild nat
  | NodesAccessed page_id
  | PageLine page_id
  | NewPageLine page_id
  | RequestedNode
  | NodeNotFound
  | StatisticsLine debug_page
  | MetadataCorrupted
  | ReachableOrphaned "page_id set"
  | UnreachablePages "page_id set"
  | CheckPassed
  | RootPage "page_id option"
  | PageCount u32
  | OrphanedPages "orphan_page list"

type_synonym lines = "debug_line list"

text \<open>A node as one line, after as many tabs as \<open>indent\<close> says.\<close>

definition write_node_value :: "externals \<Rightarrow> node \<Rightarrow> page_id \<Rightarrow> nat \<Rightarrow> lines \<Rightarrow> lines action" where
  "write_node_value E n page_id indent buf =
     (let hex = x_pack_to E (node_prefix n) in
      case node_kind n of
        Branch kids \<Rightarrow> returnE (buf @ [BranchLine indent page_id (map fst (some_children kids)) hex])
      | AccountLeaf _ _ _ _ \<Rightarrow>
          (case node_value E n of
             Ok (TAccount acct) \<Rightarrow> returnE (buf @ [AccountLine indent acct hex])
           | Ok _ \<Rightarrow> returnE (buf @ [AccountNoValue indent])
           | Err _ \<Rightarrow> returnE (buf @ [AccountNoValue indent])
           | Panic \<Rightarrow> panicE
           | Diverge \<Rightarrow> liftE Diverge)
      | StorageLeaf _ \<Rightarrow>
          (case node_value E n of
             Ok (TStorage strg) \<Rightarrow> returnE (buf @ [StorageLine indent strg hex])
           | Ok _ \<Rightarrow> returnE (buf @ [StorageNoValue indent])
           | Err _ \<Rightarrow> returnE (buf @ [StorageNoValue indent])
           | Panic \<Rightarrow> panicE
           | Diverge \<Rightarrow> liftE Diverge))"

definition get_slotted_page_and_index :: "pointer \<Rightarrow> page_id \<Rightarrow> (page_id \<times> nat) action" where
  "get_slotted_page_and_index ptr current_page =
     (case pointer_cell_index ptr of
        Some cell_index \<Rightarrow> returnE (current_page, cell_index)
      | None \<Rightarrow>
          bindE (pointer_page_id ptr) (\<lambda>page_id.
          bindE (get_page page_id) (\<lambda>page. returnE (page, 0))))"

text \<open>\<open>children.iter().flatten()\<close>.\<close>

definition child_pointers :: "pointer option list \<Rightarrow> pointer list" where
  "child_pointers kids = map snd (some_children kids)"

subsection \<open>Printing pages\<close>

text \<open>The loop over the children of a branch. The argument \<open>print\<close> is \<open>print_page_helper\<close>, called for a child.\<close>

fun print_children ::
  "(page_id \<Rightarrow> nat \<Rightarrow> lines \<Rightarrow> lines action) \<Rightarrow> page_id \<Rightarrow> nat \<Rightarrow> bool \<Rightarrow> pointer list \<Rightarrow> lines \<Rightarrow> lines action" where
  "print_children print p new_indent print_whole_db [] buf = returnE buf"
| "print_children print p new_indent print_whole_db (child # kids) buf =
     bindE (get_slotted_page_and_index child p) (\<lambda>(q, cell_index).
       if q \<noteq> p \<and> \<not> print_whole_db then
         bindE (pointer_page_id child) (\<lambda>child_page_id. returnE (buf @ [ChildOnNewPage new_indent child_page_id]))
       else
         bindE (print q cell_index buf) (print_children print p new_indent print_whole_db kids))"

fun print_page_helper :: "nat \<Rightarrow> externals \<Rightarrow> page_id \<Rightarrow> nat \<Rightarrow> nat \<Rightarrow> bool \<Rightarrow> lines \<Rightarrow> lines action" where
  "print_page_helper 0 E p cell_index indent print_whole_db buf = liftE Diverge"
| "print_page_helper (Suc fuel) E p cell_index indent print_whole_db buf =
     bindE (get_node E p cell_index) (\<lambda>n.
     bindE (write_node_value E n p indent buf) (\<lambda>buf.
       case node_kind n of
         AccountLeaf _ _ _ root \<Rightarrow>
           (case root of
              Some child \<Rightarrow>
                bindE (get_slotted_page_and_index child p) (\<lambda>(q, cell_index).
                  if q \<noteq> p \<and> \<not> print_whole_db then
                    bindE (pointer_page_id child) (\<lambda>child_page_id. returnE (buf @ [ChildOnNewPage (indent + 1) child_page_id]))
                  else print_page_helper fuel E q cell_index (indent + 1) print_whole_db buf)
            | None \<Rightarrow> returnE (buf @ [NoDirectChild (indent + 1)]))
       | Branch kids \<Rightarrow>
           print_children (\<lambda>q i. print_page_helper fuel E q i (indent + 1) print_whole_db) p (indent + 1) print_whole_db
             (child_pointers kids) buf
       | StorageLeaf _ \<Rightarrow> returnE buf))"

declare print_page_helper.simps [simp del]

definition print_page :: "nat \<Rightarrow> externals \<Rightarrow> page_id option \<Rightarrow> lines \<Rightarrow> lines action" where
  "print_page fuel E page_id buf =
     bindE (asks (\<lambda>w. cx_root_node_page_id (w_cx w))) (\<lambda>root.
       case root of
         None \<Rightarrow> returnE buf
       | Some root_page \<Rightarrow>
           bindE
             (case page_id of
                Some p \<Rightarrow> bindE (get_page p) (\<lambda>page. returnE (page, False))
              | None \<Rightarrow> bindE (get_page root_page) (\<lambda>page. returnE (page, True))) (\<lambda>(page, print_whole_db).
             print_page_helper fuel E page 0 0 print_whole_db buf))"

subsection \<open>Printing a path\<close>

text \<open>What is printed when the path enters the page \<open>q\<close>.\<close>

definition print_new_page :: "nat \<Rightarrow> externals \<Rightarrow> nat \<Rightarrow> page_id \<Rightarrow> lines \<Rightarrow> lines action" where
  "print_new_page fuel E verbosity_level q buf =
     bindE (if verbosity_level = 2 then print_page fuel E (Some q) (buf @ [NewPageLine q]) else returnE buf) (\<lambda>buf.
       returnE (if 0 < verbosity_level then buf @ [NodesAccessed q] else buf))"

fun print_path_helper :: "nat \<Rightarrow> externals \<Rightarrow> raw_path \<Rightarrow> nat \<Rightarrow> page_id \<Rightarrow> nat \<Rightarrow> nat \<Rightarrow> lines \<Rightarrow> lines action" where
  "print_path_helper 0 E path path_offset p page_index verbosity_level buf = liftE Diverge"
| "print_path_helper (Suc fuel) E path path_offset p page_index verbosity_level buf =
     bindE (get_node E p page_index) (\<lambda>n.
     bindE (if 0 < verbosity_level then write_node_value E n p 0 buf else returnE buf) (\<lambda>buf.
     bindE (liftE (raw_path_slice_from path path_offset)) (\<lambda>rest.
     bindE (liftE (raw_path_of_nibbles (node_prefix n))) (\<lambda>prefix.
       let k = common_prefix_length rest prefix in
       if k < length (node_prefix n) then returnE (buf @ [NodeNotFound])
       else
         bindE (liftE (raw_path_slice_from path (path_offset + k))) (\<lambda>remaining_path.
           if raw_path_is_empty remaining_path then write_node_value E n p 0 (buf @ [RequestedNode])
           else
             bindE
               (case node_kind n of
                  AccountLeaf _ _ _ root \<Rightarrow> returnE (root, path_offset + k)
                | Branch kids \<Rightarrow>
                    bindE (liftE (raw_path_get_unchecked remaining_path 0)) (\<lambda>b.
                      if unat b < length kids then returnE (kids ! unat b, path_offset + k + 1) else panicE)
                | _ \<Rightarrow> panicE) (\<lambda>(child_pointer, new_path_offset).
               case child_pointer of
                 Some ptr \<Rightarrow>
                   bindE (get_slotted_page_and_index ptr p) (\<lambda>(q, child_cell_index).
                   bindE (if q \<noteq> p then print_new_page fuel E verbosity_level q buf else returnE buf) (\<lambda>buf.
                     print_path_helper fuel E path new_path_offset q child_cell_index verbosity_level buf))
               | None \<Rightarrow> returnE (buf @ [NodeNotFound])))))))"

declare print_path_helper.simps [simp del]

definition print_path :: "nat \<Rightarrow> externals \<Rightarrow> raw_path \<Rightarrow> nat \<Rightarrow> lines \<Rightarrow> lines action" where
  "print_path fuel E path verbosity_level buf =
     bindE (asks (\<lambda>w. cx_root_node_page_id (w_cx w))) (\<lambda>root.
       case root of
         None \<Rightarrow> returnE buf
       | Some page_id \<Rightarrow>
           bindE (get_page page_id) (\<lambda>page.
           bindE
             (if verbosity_level = 0 then returnE buf
              else if verbosity_level = 1 then returnE (buf @ [NodesAccessed page_id])
              else if verbosity_level = 2 then
                bindE (print_page fuel E (Some page_id) (buf @ [PageLine page_id])) (\<lambda>buf. returnE (buf @ [NodesAccessed page_id]))
              else liftE (Err DebugError)) (\<lambda>buf.
             print_path_helper fuel E path 0 page 0 verbosity_level buf)))"

subsection \<open>Statistics\<close>

definition count_page :: "page_id \<Rightarrow> debug_page \<Rightarrow> debug_page action" where
  "count_page p stats =
     bindE (asks (\<lambda>w. page_contents (page_at p w))) (\<lambda>c.
       let stats = stats\<lparr>dp_bytes_per_page := update_stats (of_nat (num_occupied_bytes c)) (dp_bytes_per_page stats)\<rparr> in
       returnE (stats\<lparr>dp_nodes_per_page := update_stats (of_nat (num_occupied_cells c)) (dp_nodes_per_page stats)\<rparr>))"

text \<open>The step to a child, with the count of its page when it lies on another one. The argument \<open>visit\<close> is \<open>debug_statistics_helper\<close>.\<close>

definition count_child ::
  "(page_id \<Rightarrow> nat \<Rightarrow> u64 \<Rightarrow> debug_page \<Rightarrow> debug_page action) \<Rightarrow> page_id \<Rightarrow> u64 \<Rightarrow> pointer \<Rightarrow> debug_page \<Rightarrow> debug_page action" where
  "count_child visit p page_depth child stats =
     bindE (get_slotted_page_and_index child p) (\<lambda>(q, cell_index).
       if q \<noteq> p then bindE (count_page q stats) (visit q cell_index (page_depth + 1))
       else visit q cell_index page_depth stats)"

fun statistics_children ::
  "(page_id \<Rightarrow> nat \<Rightarrow> u64 \<Rightarrow> debug_page \<Rightarrow> debug_page action) \<Rightarrow> page_id \<Rightarrow> u64 \<Rightarrow> pointer list \<Rightarrow> debug_page \<Rightarrow> debug_page action" where
  "statistics_children visit p page_depth [] stats = returnE stats"
| "statistics_children visit p page_depth (child # kids) stats =
     bindE (count_child visit p page_depth child stats) (statistics_children visit p page_depth kids)"

definition count_leaf :: "u64 \<Rightarrow> u64 \<Rightarrow> debug_page \<Rightarrow> debug_page" where
  "count_leaf node_depth page_depth stats =
     stats\<lparr>dp_depth_in_nodes := update_stats node_depth (dp_depth_in_nodes stats),
       dp_depth_in_pages := update_stats page_depth (dp_depth_in_pages stats)\<rparr>"

fun debug_statistics_helper :: "nat \<Rightarrow> externals \<Rightarrow> page_id \<Rightarrow> nat \<Rightarrow> u64 \<Rightarrow> u64 \<Rightarrow> debug_page \<Rightarrow> debug_page action" where
  "debug_statistics_helper 0 E p cell_index node_depth page_depth stats = liftE Diverge"
| "debug_statistics_helper (Suc fuel) E p cell_index node_depth page_depth stats =
     bindE (get_node E p cell_index) (\<lambda>n.
       let stats = stats\<lparr>dp_node_size := update_stats (of_nat (node_size E n)) (dp_node_size stats)\<rparr>;
           stats = stats\<lparr>dp_prefix_length := update_stats (of_nat (length (node_prefix n))) (dp_prefix_length stats)\<rparr>;
           visit = (\<lambda>q i page_depth. debug_statistics_helper fuel E q i (node_depth + 1) page_depth) in
       case node_kind n of
         AccountLeaf _ _ _ root \<Rightarrow>
           (case root of
              Some child \<Rightarrow> count_child visit p page_depth child stats
            | None \<Rightarrow> returnE (count_leaf node_depth page_depth stats))
       | Branch kids \<Rightarrow>
           let stats = stats\<lparr>dp_num_children := update_stats (of_nat (length (child_pointers kids))) (dp_num_children stats)\<rparr> in
           statistics_children visit p page_depth (child_pointers kids) stats
       | StorageLeaf _ \<Rightarrow> returnE (count_leaf node_depth page_depth stats))"

declare debug_statistics_helper.simps [simp del]

definition debug_statistics :: "nat \<Rightarrow> externals \<Rightarrow> lines \<Rightarrow> lines action" where
  "debug_statistics fuel E buf =
     bindE (asks (\<lambda>w. cx_root_node_page_id (w_cx w))) (\<lambda>root.
       case root of
         None \<Rightarrow> returnE buf
       | Some page_id \<Rightarrow>
           bindE (get_page page_id) (\<lambda>page.
           bindE (count_page page debug_page_default) (\<lambda>stats.
           bindE (debug_statistics_helper fuel E page 0 1 1 stats) (\<lambda>stats.
             returnE (buf @ [StatisticsLine stats])))))"

subsection \<open>The consistency check\<close>

type_synonym check_state = "page_id set \<times> (page_id \<times> nat) set"

text \<open>The step to a child. The argument \<open>check\<close> is \<open>consistency_check_helper\<close> for the snapshot of the current page.\<close>

definition check_child ::
  "(page_id \<Rightarrow> nat \<Rightarrow> check_state \<Rightarrow> check_state action) \<Rightarrow> page_id \<Rightarrow> pointer \<Rightarrow> check_state \<Rightarrow> check_state action" where
  "check_child check p child s =
     bindE (get_slotted_page_and_index child p) (\<lambda>(q, new_cell_index).
       if q \<noteq> p then check q new_cell_index (insert q (fst s), snd s) else check p new_cell_index s)"

fun check_children ::
  "(page_id \<Rightarrow> nat \<Rightarrow> check_state \<Rightarrow> check_state action) \<Rightarrow> page_id \<Rightarrow> pointer list \<Rightarrow> check_state \<Rightarrow> check_state action" where
  "check_children check p [] s = returnE s"
| "check_children check p (child # kids) s = bindE (check_child check p child s) (check_children check p kids)"

text \<open>The set of visited nodes is dropped when an error is returned, and is not part of the result then.\<close>

fun consistency_check_helper :: "nat \<Rightarrow> externals \<Rightarrow> page_id \<Rightarrow> nat \<Rightarrow> snapshot_id \<Rightarrow> check_state \<Rightarrow> check_state action" where
  "consistency_check_helper 0 E page_id cell_index parent_snapshot_id s = liftE Diverge"
| "consistency_check_helper (Suc fuel) E page_id cell_index parent_snapshot_id s =
     (if (page_id, cell_index) \<in> snd s then liftE (Err DebugError)
      else
        let s = (fst s, insert (page_id, cell_index) (snd s)) in
        bindE (get_page page_id) (\<lambda>page.
        bindE (\<lambda>w. (map_err EPage (page_snapshot_id (page_at page w)), w)) (\<lambda>current_snapshot_id.
          if parent_snapshot_id < current_snapshot_id then liftE (Err DebugError)
          else
            bindE (get_node E page cell_index) (\<lambda>n.
              let check = (\<lambda>q i. consistency_check_helper fuel E q i current_snapshot_id) in
              bindE
                (case node_kind n of
                   AccountLeaf _ _ _ root \<Rightarrow>
                     (case root of Some child \<Rightarrow> check_child check page_id child s | None \<Rightarrow> returnE s)
                 | Branch kids \<Rightarrow> check_children check page_id (child_pointers kids) s
                 | StorageLeaf _ \<Rightarrow> returnE s) (\<lambda>s.
                returnE (fst s, snd s - {(page_id, cell_index)}))))))"

declare consistency_check_helper.simps [simp del]

definition consistency_check :: "nat \<Rightarrow> externals \<Rightarrow> page_id option \<Rightarrow> page_id set action" where
  "consistency_check fuel E root =
     (case root of
        None \<Rightarrow> returnE {}
      | Some root_page_id \<Rightarrow>
          bindE (get_page root_page_id) (\<lambda>root_page.
          bindE (\<lambda>w. (map_err EPage (page_snapshot_id (page_at root_page w)), w)) (\<lambda>root_snapshot_id.
          bindE (consistency_check_helper fuel E root_page_id 0 root_snapshot_id ({root_page_id}, {})) (\<lambda>s.
            returnE (fst s)))))"

text \<open>The loop over the page ids; \<open>PageId::new\<close> refuses the ids that are not page ids.\<close>

fun dirty_pages_loop :: "page_manager \<Rightarrow> u32 list \<Rightarrow> page_id set \<Rightarrow> (page_id set, engine_error) result" where
  "dirty_pages_loop pm [] dirty_pages = Ok dirty_pages"
| "dirty_pages_loop pm (raw # raws) dirty_pages =
     (case page_id_new raw of
        None \<Rightarrow> dirty_pages_loop pm raws dirty_pages
      | Some page_id \<Rightarrow>
          bind_result (map_err EPage (pm_is_dirty pm page_id)) (\<lambda>dirty.
            dirty_pages_loop pm raws (if dirty then insert page_id dirty_pages else dirty_pages)))"

definition get_dirty_pages :: "page_id set action" where
  "get_dirty_pages =
     bindE (asks se_pages) (\<lambda>pm. liftE (dirty_pages_loop pm (map of_nat [1..<Suc (unat (pm_size pm))]) {}))"

text \<open>
  \<open>MetadataManager::open\<close> on the file that the engine has mapped: the new manager, and the slots as it
  leaves them. The argument says whether the file can be opened and mapped.
\<close>

definition open_metadata :: "bool \<Rightarrow> externals \<Rightarrow> (meta_manager, metadata_error) result action" where
  "open_metadata io_ok E = (\<lambda>w.
     if \<not> io_ok then (Ok (Err MetaIO), w)
     else
       case mm_reopen E (se_meta w) of
         Ok mm \<Rightarrow> (Ok (Ok mm), w\<lparr>se_meta := (se_meta w)\<lparr>mm_slot0 := mm_slot0 mm, mm_slot1 := mm_slot1 mm\<rparr>\<rparr>)
       | Err e \<Rightarrow> (Ok (Err e), w)
       | Panic \<Rightarrow> (Panic, w)
       | Diverge \<Rightarrow> (Diverge, w))"

definition orphan_page_ids :: "meta_manager \<Rightarrow> (page_id list, engine_error) result" where
  "orphan_page_ids mm =
     bind_result (map_err (\<lambda>_. EIO) (orphans_iter mm)) (\<lambda>orphans.
       fold (\<lambda>o1 r. bind_result r (\<lambda>ids. bind_result (orphan_page_id o1) (\<lambda>p. Ok (ids @ [p])))) orphans (Ok []))"

text \<open>\<open>(1..page_count)\<close> with \<open>PageId::new(id).unwrap()\<close>.\<close>

definition all_page_ids :: "u32 \<Rightarrow> (page_id set, engine_error) result" where
  "all_page_ids page_count =
     (let ids = map of_nat [1..<unat page_count] in
      if list_all (\<lambda>p. page_id_new p \<noteq> None) ids then Ok (set ids) else Panic)"

text \<open>The lines that were written and the outcome; an error found by the check is reported in both.\<close>

definition database_consistency_check :: "nat \<Rightarrow> externals \<Rightarrow> bool \<Rightarrow> lines \<Rightarrow> (lines \<times> (unit, engine_error) result) action" where
  "database_consistency_check fuel E io_ok buf =
     bindE (open_metadata io_ok E) (\<lambda>r.
       case r of
         Err Corrupted \<Rightarrow> returnE (buf @ [MetadataCorrupted], Err EIO)
       | Err _ \<Rightarrow> liftE (Err EIO)
       | Panic \<Rightarrow> panicE
       | Diverge \<Rightarrow> liftE Diverge
       | Ok meta_manager \<Rightarrow>
           bindE (consistency_check fuel E (root_node_page_id (hs_meta (active_slot meta_manager)))) (\<lambda>reachable_pages.
           bindE get_dirty_pages (\<lambda>dirty_pages.
           let reachable_pages = reachable_pages \<union> dirty_pages in
           bindE (liftE (orphan_page_ids meta_manager)) (\<lambda>orphaned.
           let orphaned_pages = set orphaned;
               reachable_orphaned_pages = orphaned_pages \<inter> reachable_pages in
           bindE (asks (\<lambda>w. pm_size (se_pages w))) (\<lambda>page_count.
           bindE (liftE (all_page_ids page_count)) (\<lambda>all_pages.
           let unreachable_pages = all_pages - (reachable_pages \<union> orphaned_pages);
               buf = (if reachable_orphaned_pages \<noteq> {} then buf @ [ReachableOrphaned reachable_orphaned_pages] else buf);
               buf = (if unreachable_pages \<noteq> {} then buf @ [UnreachablePages unreachable_pages] else buf) in
           if reachable_orphaned_pages \<noteq> {} \<or> unreachable_pages \<noteq> {} then returnE (buf, Err EIO)
           else returnE (buf @ [CheckPassed], Ok ())))))))"

definition root_page_info :: "externals \<Rightarrow> bool \<Rightarrow> lines \<Rightarrow> lines action" where
  "root_page_info E io_ok buf =
     bindE (open_metadata io_ok E) (\<lambda>r.
     bindE (liftE (map_err (\<lambda>_. EIO) r)) (\<lambda>meta_manager.
       let m = hs_meta (active_slot meta_manager) in
       bindE (liftE (map_err (\<lambda>_. EIO) (orphans_iter meta_manager))) (\<lambda>orphaned_page_list.
         returnE (buf @ [RootPage (root_node_page_id m), PageCount (ms_page_count m), OrphanedPages orphaned_page_list]))))"

subsection \<open>The calls of the database and of transactions\<close>

definition run_debug :: "transaction_context \<Rightarrow> 'a action \<Rightarrow> database \<Rightarrow> ('a, engine_error) result \<times> database" where
  "run_debug cx m db = (case m (world_of (db_engine db) cx) of (r, w) \<Rightarrow> (r, db\<lparr>db_engine := storage_of w\<rparr>))"

definition db_print_page :: "nat \<Rightarrow> externals \<Rightarrow> page_id option \<Rightarrow> lines \<Rightarrow> database \<Rightarrow> (lines, engine_error) result \<times> database" where
  "db_print_page fuel E page_id buf db = run_debug (read_context (db_engine db)) (print_page fuel E page_id buf) db"

definition db_print_statistics :: "nat \<Rightarrow> externals \<Rightarrow> lines \<Rightarrow> database \<Rightarrow> (lines, engine_error) result \<times> database" where
  "db_print_statistics fuel E buf db = run_debug (read_context (db_engine db)) (debug_statistics fuel E buf) db"

datatype open_failure = FailIO | FailPage page_error

definition open_failure_of :: "engine_error \<Rightarrow> open_failure" where
  "open_failure_of e = (case e of EIO \<Rightarrow> FailIO | EPage page_err \<Rightarrow> FailPage page_err | _ \<Rightarrow> FailIO)"

definition db_root_page_info :: "externals \<Rightarrow> bool \<Rightarrow> lines \<Rightarrow> database \<Rightarrow> (lines, open_failure) result \<times> database" where
  "db_root_page_info E io_ok buf db =
     (case run_debug (read_context (db_engine db)) (root_page_info E io_ok buf) db of (r, db) \<Rightarrow> (map_err open_failure_of r, db))"

definition db_consistency_check ::
  "nat \<Rightarrow> externals \<Rightarrow> bool \<Rightarrow> lines \<Rightarrow> database \<Rightarrow> (lines \<times> (unit, open_failure) result, open_failure) result \<times> database" where
  "db_consistency_check fuel E io_ok buf db =
     (case run_debug (read_context (db_engine db)) (database_consistency_check fuel E io_ok buf) db of (r, db) \<Rightarrow>
        (map_err open_failure_of (bind_result r (\<lambda>(buf, outcome). Ok (buf, map_err open_failure_of outcome))), db))"

definition debug_account ::
  "nat \<Rightarrow> externals \<Rightarrow> address_path \<Rightarrow> nat \<Rightarrow> lines \<Rightarrow> transaction \<Rightarrow> database \<Rightarrow> (lines, transaction_error) result \<times> transaction \<times> database" where
  "debug_account fuel E a verbosity_level buf =
     run_unwrap (bindE (liftE (raw_path_of_address a)) (\<lambda>path. print_path fuel E path verbosity_level buf))"

definition debug_storage ::
  "nat \<Rightarrow> externals \<Rightarrow> storage_path \<Rightarrow> nat \<Rightarrow> lines \<Rightarrow> transaction \<Rightarrow> database \<Rightarrow> (lines, transaction_error) result \<times> transaction \<times> database" where
  "debug_storage fuel E s verbosity_level buf =
     run_unwrap (bindE (liftE (raw_path_of_storage s)) (\<lambda>path. print_path fuel E path verbosity_level buf))"

subsection \<open>Nodes and links\<close>

text \<open>A node, given by its page and cell, and the places its pointers lead to.\<close>

inductive linked :: "externals \<Rightarrow> world \<Rightarrow> page_id \<times> nat \<Rightarrow> page_id \<times> nat \<Rightarrow> bool" for E w where
  linkedI: "get_value (node_ops E) (pg_data (page_at p w)) i = Ok n \<Longrightarrow> ptr \<in> node_pointers n \<Longrightarrow> child_at w p ptr = Some y \<Longrightarrow> linked E w (p, i) y"

inductive_cases linkedE: "linked E w (p, i) y"

definition newer :: "world \<Rightarrow> page_id \<Rightarrow> page_id \<Rightarrow> bool" where
  "newer w p q \<longleftrightarrow> (\<exists>s s'. page_snapshot_id (page_at p w) = Ok s \<and> page_snapshot_id (page_at q w) = Ok s' \<and> s' \<le> s)"

definition linked_pages :: "externals \<Rightarrow> world \<Rightarrow> page_id \<times> nat \<Rightarrow> page_id set" where
  "linked_pages E w x = fst ` {y. (linked E w)\<^sup>*\<^sup>* x y}"

text \<open>No node of \<open>V\<close> is below \<open>x\<close>, and from \<open>x\<close> on snapshots never increase and there is no cycle.\<close>

definition sound_below :: "externals \<Rightarrow> world \<Rightarrow> (page_id \<times> nat) set \<Rightarrow> page_id \<times> nat \<Rightarrow> bool" where
  "sound_below E w V x \<longleftrightarrow>
     (\<forall>y. (linked E w)\<^sup>*\<^sup>* x y \<longrightarrow>
        y \<notin> V \<and> (\<forall>z. linked E w y z \<longrightarrow> newer w (fst y) (fst z)) \<and> \<not> (linked E w)\<^sup>+\<^sup>+ y y)"

lemma rtranclp_children: "r\<^sup>*\<^sup>* x y \<longleftrightarrow> y = x \<or> (\<exists>c. r x c \<and> r\<^sup>*\<^sup>* c y)"
  by (metis converse_rtranclpE converse_rtranclp_into_rtranclp rtranclp.rtrancl_refl)

lemma linked_pages_step: "linked_pages E w x = insert (fst x) (\<Union>c \<in> {c. linked E w x c}. linked_pages E w c)"
proof -
  have "{y. (linked E w)\<^sup>*\<^sup>* x y} = insert x (\<Union>c \<in> {c. linked E w x c}. {y. (linked E w)\<^sup>*\<^sup>* c y})"
    using rtranclp_children [of "linked E w" x] by auto
  then show ?thesis unfolding linked_pages_def by auto
qed

lemma sound_step:
  assumes "x \<notin> V" and "\<And>c. linked E w x c \<Longrightarrow> sound_below E w (insert x V) c \<and> newer w (fst x) (fst c)"
  shows "sound_below E w V x"
  unfolding sound_below_def
proof (intro allI impI)
  fix y
  assume "(linked E w)\<^sup>*\<^sup>* x y"
  then consider "y = x" | c where "linked E w x c" "(linked E w)\<^sup>*\<^sup>* c y" using rtranclp_children [of "linked E w" x y] by blast
  then show "y \<notin> V \<and> (\<forall>z. linked E w y z \<longrightarrow> newer w (fst y) (fst z)) \<and> \<not> (linked E w)\<^sup>+\<^sup>+ y y"
  proof cases
    case 1
    have "\<not> (linked E w)\<^sup>+\<^sup>+ x x"
    proof
      assume "(linked E w)\<^sup>+\<^sup>+ x x"
      then obtain c where "linked E w x c" "(linked E w)\<^sup>*\<^sup>* c x" by (auto dest: tranclpD)
      then show False using assms(2) unfolding sound_below_def by blast
    qed
    then show ?thesis using 1 assms by blast
  next
    case 2
    then show ?thesis using assms(2) [OF 2(1)] unfolding sound_below_def by blast
  qed
qed

subsection \<open>The check is exact\<close>

lemma pm_get_same: "pm_get pm p = Ok q \<Longrightarrow> q = p"
  by (auto simp: pm_get_def page_from_ptr_def split: if_splits page_state.splits)

lemma map_err_eq_Ok: "map_err g r = Ok x \<longleftrightarrow> r = Ok x"
  by (cases r) auto

lemma page_and_index:
  "get_slotted_page_and_index ptr p w = (case child_at w p ptr of Some y \<Rightarrow> (Ok y, w) | None \<Rightarrow> get_slotted_page_and_index ptr p w)"
  "get_slotted_page_and_index ptr p w = (Ok y, w') \<Longrightarrow> child_at w p ptr = Some y \<and> w' = w"
proof -
  show "get_slotted_page_and_index ptr p w = (Ok y, w') \<Longrightarrow> child_at w p ptr = Some y \<and> w' = w"
    by (auto simp: get_slotted_page_and_index_def child_at_def pointer_page_id_def action_simps location_page_id_def bind_state_eq_Ok map_err_eq_Ok
        split: option.splits result.splits if_splits dest: pm_get_same)
  show "get_slotted_page_and_index ptr p w = (case child_at w p ptr of Some y \<Rightarrow> (Ok y, w) | None \<Rightarrow> get_slotted_page_and_index ptr p w)"
    using follow_child [of w p ptr _ _ "\<lambda>q i. returnE (q, i)"]
    by (auto simp: get_slotted_page_and_index_def action_simps split: option.split)
qed

lemma set_child_pointers: "set (child_pointers kids) = {ptr. Some ptr \<in> set kids}"
proof -
  have "snd ` set (List.map_filter (\<lambda>(i, c). map_option (\<lambda>p. (i, p)) c) (List.enumerate n kids)) = {ptr. Some ptr \<in> set kids}" for n
    by (induction kids arbitrary: n) (auto simp: List.map_filter_simps split: option.splits)
  then show ?thesis by (simp add: child_pointers_def some_children_def)
qed

text \<open>What a successful check of the node \<open>(q, j)\<close> shows, for nodes whose parent page has snapshot \<open>sn\<close>.\<close>

definition check_spec :: "externals \<Rightarrow> world \<Rightarrow> snapshot_id \<Rightarrow> (page_id \<Rightarrow> nat \<Rightarrow> check_state \<Rightarrow> check_state action) \<Rightarrow> bool" where
  "check_spec E w sn check \<longleftrightarrow>
     (\<forall>q j R V s' w'. q \<in> R \<and> check q j (R, V) w = (Ok s', w') \<longrightarrow>
        w' = w \<and> snd s' = V \<and> sound_below E w V (q, j) \<and> (\<exists>s. page_snapshot_id (page_at q w) = Ok s \<and> s \<le> sn) \<and>
        fst s' = R \<union> linked_pages E w (q, j))"

definition child_checked :: "externals \<Rightarrow> world \<Rightarrow> snapshot_id \<Rightarrow> (page_id \<times> nat) set \<Rightarrow> page_id \<Rightarrow> pointer \<Rightarrow> bool" where
  "child_checked E w sn V p ptr \<longleftrightarrow>
     (\<exists>y. child_at w p ptr = Some y \<and> sound_below E w V y \<and> (\<exists>s. page_snapshot_id (page_at (fst y) w) = Ok s \<and> s \<le> sn))"

definition pages_behind :: "externals \<Rightarrow> world \<Rightarrow> page_id \<Rightarrow> pointer \<Rightarrow> page_id set" where
  "pages_behind E w p ptr = (case child_at w p ptr of None \<Rightarrow> {} | Some y \<Rightarrow> linked_pages E w y)"

lemma check_child_spec:
  assumes "check_spec E w sn check" and "p \<in> R" and "check_child check p ptr (R, V) w = (Ok s', w')"
  shows "w' = w \<and> snd s' = V \<and> child_checked E w sn V p ptr \<and> fst s' = R \<union> pages_behind E w p ptr"
proof -
  obtain q j where g: "get_slotted_page_and_index ptr p w = (Ok (q, j), w)" and c: "child_at w p ptr = Some (q, j)"
    using assms(3) page_and_index(2) [of ptr p w] by (auto simp: check_child_def action_simps bind_state_eq_Ok)
  have here: "q \<in> linked_pages E w (q, j)" unfolding linked_pages_def by force
  have run: "check q j (if q \<noteq> p then insert q R else R, V) w = (Ok s', w')"
    using assms(3) g by (auto simp: check_child_def action_simps split: if_splits)
  have mem: "q \<in> (if q \<noteq> p then insert q R else R)" using assms(2) by simp
  from assms(1) [unfolded check_spec_def, rule_format, OF conjI [OF mem run]] here show ?thesis
    unfolding child_checked_def pages_behind_def c by auto
qed

lemma check_children_spec:
  assumes "check_spec E w sn check" and "p \<in> R" and "check_children check p ptrs (R, V) w = (Ok s', w')"
  shows "w' = w \<and> snd s' = V \<and> (\<forall>ptr \<in> set ptrs. child_checked E w sn V p ptr) \<and> fst s' = R \<union> (\<Union>ptr \<in> set ptrs. pages_behind E w p ptr)"
  using assms(2,3)
proof (induction ptrs arbitrary: R)
  case (Cons ptr ptrs)
  from Cons(3) obtain s1 w1 where s1: "check_child check p ptr (R, V) w = (Ok s1, w1)" "check_children check p ptrs s1 w1 = (Ok s', w')"
    by (auto simp: action_simps bind_state_eq_Ok)
  note c = check_child_spec [OF assms(1) Cons(2) s1(1)]
  then have "check_children check p ptrs (fst s1, V) w = (Ok s', w')" using s1(2) by (metis prod.collapse)
  from Cons(1) [OF _ this] c Cons(2) show ?case by auto
qed (auto simp: action_simps)

lemma kind_checked:
  assumes "check_spec E w sn check" and "p \<in> R"
    and "(case node_kind n of
        AccountLeaf _ _ _ root \<Rightarrow> (case root of Some child \<Rightarrow> check_child check p child (R, V) | None \<Rightarrow> returnE (R, V))
      | Branch kids \<Rightarrow> check_children check p (child_pointers kids) (R, V)
      | StorageLeaf _ \<Rightarrow> returnE (R, V)) w = (Ok s', w')"
  shows "w' = w \<and> snd s' = V \<and> (\<forall>ptr \<in> node_pointers n. child_checked E w sn V p ptr) \<and> fst s' = R \<union> (\<Union>ptr \<in> node_pointers n. pages_behind E w p ptr)"
proof (cases "node_kind n")
  case (AccountLeaf nonce bal code root)
  then show ?thesis
    using assms(3) check_child_spec [OF assms(1,2)] by (cases root) (auto simp: node_pointers_def action_simps)
next
  case (Branch kids)
  then show ?thesis using assms(3) check_children_spec [OF assms(1,2), of "child_pointers kids" V s' w'] by (simp add: node_pointers_def set_child_pointers)
qed (use assms(3) in \<open>auto simp: node_pointers_def action_simps\<close>)

lemma helper_checked: "check_spec E w sn (\<lambda>q j. consistency_check_helper fuel E q j sn)"
proof (induction fuel arbitrary: sn)
  case 0
  then show ?case by (simp add: check_spec_def consistency_check_helper.simps action_simps)
next
  case (Suc fuel)
  show ?case
    unfolding check_spec_def
  proof (intro allI impI)
    fix p i R V s' w'
    assume run: "p \<in> R \<and> consistency_check_helper (Suc fuel) E p i sn (R, V) w = (Ok s', w')"
    then obtain s n s1 where new: "(p, i) \<notin> V" and s: "page_snapshot_id (page_at p w) = Ok s" "s \<le> sn"
      and n: "get_value (node_ops E) (pg_data (page_at p w)) i = Ok n"
      and k: "(case node_kind n of
          AccountLeaf _ _ _ root \<Rightarrow> (case root of Some child \<Rightarrow> check_child (\<lambda>q j. consistency_check_helper fuel E q j s) p child (R, insert (p, i) V) | None \<Rightarrow> returnE (R, insert (p, i) V))
        | Branch kids \<Rightarrow> check_children (\<lambda>q j. consistency_check_helper fuel E q j s) p (child_pointers kids) (R, insert (p, i) V)
        | StorageLeaf _ \<Rightarrow> returnE (R, insert (p, i) V)) w = (Ok s1, w')"
      and s': "s' = (fst s1, snd s1 - {(p, i)})"
      by (auto simp: consistency_check_helper.simps(2) action_simps bind_state_eq_Ok map_err_eq_Ok Let_def not_less dest!: pm_get_same split: if_splits)
    have links: "linked E w (p, i) y \<longleftrightarrow> (\<exists>ptr \<in> node_pointers n. child_at w p ptr = Some y)" for y
      using n by (auto elim!: linkedE intro: linkedI)
    from run have spec: "w' = w" "snd s1 = insert (p, i) V" "\<forall>ptr \<in> node_pointers n. child_checked E w s (insert (p, i) V) p ptr"
      "fst s1 = R \<union> (\<Union>ptr \<in> node_pointers n. pages_behind E w p ptr)"
      using kind_checked [OF Suc.IH [of s] _ k] by auto
    have "sound_below E w V (p, i)"
    proof (rule sound_step [OF new])
      fix c
      assume "linked E w (p, i) c"
      then obtain ptr where "ptr \<in> node_pointers n" "child_at w p ptr = Some c" using links by blast
      then have "sound_below E w (insert (p, i) V) c \<and> (\<exists>s'. page_snapshot_id (page_at (fst c) w) = Ok s' \<and> s' \<le> s)"
        using spec(3) unfolding child_checked_def by fastforce
      then show "sound_below E w (insert (p, i) V) c \<and> newer w (fst (p, i)) (fst c)"
        using s(1) unfolding newer_def by auto
    qed
    moreover have "fst s1 = R \<union> linked_pages E w (p, i)"
    proof -
      have "(\<Union>ptr \<in> node_pointers n. pages_behind E w p ptr) = (\<Union>c \<in> {c. linked E w (p, i) c}. linked_pages E w c)"
        unfolding links pages_behind_def by (auto split: option.splits) force+
      then show ?thesis using spec(4) run by (subst linked_pages_step) auto
    qed
    ultimately show "w' = w \<and> snd s' = V \<and> sound_below E w V (p, i) \<and> (\<exists>s. page_snapshot_id (page_at p w) = Ok s \<and> s \<le> sn) \<and>
        fst s' = R \<union> linked_pages E w (p, i)"
      using spec(1,2) s s' new by auto
  qed
qed

subsection \<open>The check accepts stored tries\<close>

lemma holds_unique: "holds E w S p i t \<Longrightarrow> holds E w S p i t' \<Longrightarrow> t' = t"
proof (induction arbitrary: t' rule: holds.induct)
  case (holds_storage_leaf p i n r v)
  from holds_storage_leaf(5) show ?case by cases (use holds_storage_leaf in auto)
next
  case (holds_account_leaf p i n nonce bal code root a sub)
  from holds_account_leaf(6) show ?case
  proof cases
    case (holds_account_leaf n' nonce' bal' code' root' a' sub')
    then have same: "n' = n" "root' = root" "a' = a" using \<open>node_at E w p i = Some n\<close> \<open>node_kind n = AccountLeaf nonce bal code root\<close> \<open>node_value E n = Ok (TAccount a)\<close> by auto
    have "sub' = sub" using holds_account_leaf(6) \<open>root' = root\<close>
      \<open>(root = None \<and> sub = None) \<or> (\<exists>ptr t q j. root = Some ptr \<and> sub = Some t \<and> child_at w p ptr = Some (q, j) \<and> holds E w S q j t \<and> (\<forall>t'. holds E w S q j t' \<longrightarrow> t' = t))\<close>
      by auto
    then show ?thesis using same holds_account_leaf(1) by simp
  qed (use holds_account_leaf in auto)
next
  case (holds_branch p i n cs ts)
  from holds_branch(6) show ?case
  proof cases
    case b: (holds_branch n' cs' ts')
    then have same: "n' = n" "cs' = cs" using holds_branch(2,3) by auto
    have "ts' = ts"
    proof (rule nth_equalityI)
      show "length ts' = length ts" using b(5) holds_branch(4) same by simp
      fix k
      assume k: "k < length ts'"
      then have k': "k < length ts" using b(5) holds_branch(4) same by simp
      show "ts' ! k = ts ! k"
      proof (cases "cs ! k")
        case None
        then show ?thesis using b(6) [rule_format, OF k] holds_branch(5) [rule_format, OF k'] same by simp
      next
        case (Some ptr)
        obtain t q j where t: "ts ! k = Some t" "child_at w p ptr = Some (q, j)" "\<And>t'. holds E w S q j t' \<Longrightarrow> t' = t"
          using holds_branch(5) [rule_format, OF k'] Some by auto
        moreover obtain u where "ts' ! k = Some u" "holds E w S q j u" using b(6) [rule_format, OF k] same Some t(2) by auto
        ultimately show ?thesis by simp
      qed
    qed
    then show ?thesis using same b(1) by simp
  qed (use holds_branch in auto)
qed

text \<open>The nodes of \<open>V\<close> hold tries that are larger than \<open>t\<close>.\<close>

definition larger :: "externals \<Rightarrow> world \<Rightarrow> page_id set \<Rightarrow> trie \<Rightarrow> (page_id \<times> nat) set \<Rightarrow> bool" where
  "larger E w S t V \<longleftrightarrow> (\<forall>v \<in> V. \<exists>t'. holds E w S (fst v) (snd v) t' \<and> size t < size t')"

definition snapshots_descend :: "externals \<Rightarrow> world \<Rightarrow> page_id set \<Rightarrow> bool" where
  "snapshots_descend E w S \<longleftrightarrow> (\<forall>p \<in> S. newer w p p \<and> (\<forall>i y. linked E w (p, i) y \<longrightarrow> newer w p (fst y)))"

definition check_passes :: "externals \<Rightarrow> world \<Rightarrow> page_id set \<Rightarrow> page_id \<Rightarrow> nat \<Rightarrow> trie \<Rightarrow> bool" where
  "check_passes E w S p i t \<longleftrightarrow>
     (\<forall>fuel sn R V. size t < fuel \<and> pm_get (se_pages w) p = Ok p \<and> larger E w S t V \<and>
        (\<exists>s. page_snapshot_id (page_at p w) = Ok s \<and> s \<le> sn) \<longrightarrow>
        (\<exists>R'. consistency_check_helper fuel E p i sn (R, V) w = (Ok (R', V), w)))"

lemma larger_child: "larger E w S t V \<Longrightarrow> holds E w S p i t \<Longrightarrow> size u < size t \<Longrightarrow> larger E w S u (insert (p, i) V)"
  unfolding larger_def by (metis fst_conv insertE less_trans snd_conv)

lemma larger_fresh: "larger E w S t V \<Longrightarrow> holds E w S p i t \<Longrightarrow> (p, i) \<notin> V"
  unfolding larger_def using holds_unique by fastforce

lemma check_child_passes:
  assumes "snapshots_descend E w S" and "p \<in> S" and "node_at E w p i = Some n" and "ptr \<in> node_pointers n" and "child_at w p ptr = Some (q, j)"
    and "check_passes E w S q j u" and "size u < fuel" and "larger E w S u V" and "pm_get (se_pages w) p = Ok p" and "page_snapshot_id (page_at p w) = Ok sn"
  shows "\<exists>R'. check_child (\<lambda>q i. consistency_check_helper fuel E q i sn) p ptr (R, V) w = (Ok (R', V), w)"
proof -
  have "linked E w (p, i) (q, j)" using assms(3-5) by (auto intro!: linkedI simp: node_at_def split: result.splits if_splits)
  then have "\<exists>s. page_snapshot_id (page_at q w) = Ok s \<and> s \<le> sn"
    using assms(1,2,10) unfolding snapshots_descend_def newer_def by fastforce
  moreover have "pm_get (se_pages w) q = Ok q" by (rule child_at_get [OF assms(5,9)])
  ultimately have "\<exists>R'. consistency_check_helper fuel E q j sn (R1, V) w = (Ok (R', V), w)" for R1
    using assms(6-8) unfolding check_passes_def by blast
  then show ?thesis using page_and_index(1) [of ptr p w] assms(5) by (auto simp: check_child_def action_simps)
qed

lemma check_children_pass:
  assumes "\<And>ptr R. ptr \<in> set ptrs \<Longrightarrow> \<exists>R'. check_child check p ptr (R, V) w = (Ok (R', V), w)"
  shows "\<exists>R'. check_children check p ptrs (R, V) w = (Ok (R', V), w)"
  using assms
proof (induction ptrs arbitrary: R)
  case (Cons ptr ptrs)
  obtain R1 where "check_child check p ptr (R, V) w = (Ok (R1, V), w)" using Cons(2) [of ptr R] by auto
  then show ?case using Cons(1) [of R1] Cons(2) by (simp add: action_simps)
qed (simp add: action_simps)

text \<open>One call, when the calls for the children pass.\<close>

lemma check_node:
  assumes "holds E w S p i t" and "node_at E w p i = Some n" and "snapshots_descend E w S"
    and "\<And>ptr. ptr \<in> node_pointers n \<Longrightarrow> \<exists>q j u. child_at w p ptr = Some (q, j) \<and> check_passes E w S q j u \<and> size u < size t"
  shows "check_passes E w S p i t"
  unfolding check_passes_def
proof (intro allI impI, elim conjE exE)
  fix fuel sn R V s
  assume a: "size t < fuel" "pm_get (se_pages w) p = Ok p" "larger E w S t V" "page_snapshot_id (page_at p w) = Ok s" "s \<le> sn"
  then obtain f where f: "fuel = Suc f" by (cases fuel) auto
  let ?check = "\<lambda>q i. consistency_check_helper f E q i s" and ?V = "insert (p, i) V"
  have child: "\<exists>R'. check_child ?check p ptr (R, ?V) w = (Ok (R', ?V), w)" if m: "ptr \<in> node_pointers n" for ptr R
  proof -
    obtain q j u where u: "child_at w p ptr = Some (q, j)" "check_passes E w S q j u" "size u < size t" using assms(4) [OF m] by blast
    have "size u < f" using u(3) a(1) f by simp
    from check_child_passes [OF assms(3) holds_in [OF assms(1)] assms(2) m u(1,2) this larger_child [OF a(3) assms(1) u(3)] a(2,4)]
    show ?thesis .
  qed
  have "\<exists>R'. (case node_kind n of
      AccountLeaf _ _ _ root \<Rightarrow> (case root of Some child \<Rightarrow> check_child ?check p child (R, ?V) | None \<Rightarrow> returnE (R, ?V))
    | Branch kids \<Rightarrow> check_children ?check p (child_pointers kids) (R, ?V)
    | StorageLeaf _ \<Rightarrow> returnE (R, ?V)) w = (Ok (R', ?V), w)"
  proof (cases "node_kind n")
    case (AccountLeaf nonce bal code root)
    then show ?thesis using child by (cases root) (auto simp: node_pointers_def action_simps)
  next
    case (Branch kids)
    have "\<exists>R'. check_children ?check p (child_pointers kids) (R, ?V) w = (Ok (R', ?V), w)"
      by (rule check_children_pass) (use child Branch in \<open>auto simp: node_pointers_def set_child_pointers\<close>)
    then show ?thesis using Branch by simp
  qed (auto simp: action_simps)
  then obtain R' where k: "(case node_kind n of
      AccountLeaf _ _ _ root \<Rightarrow> (case root of Some child \<Rightarrow> check_child ?check p child (R, ?V) | None \<Rightarrow> returnE (R, ?V))
    | Branch kids \<Rightarrow> check_children ?check p (child_pointers kids) (R, ?V)
    | StorageLeaf _ \<Rightarrow> returnE (R, ?V)) w = (Ok (R', ?V), w)" ..
  have n: "get_node E p i w = (Ok n, w)" using node_at_apply [OF assms(2)] by simp
  have new: "(p, i) \<notin> V" by (rule larger_fresh [OF a(3) assms(1)])
  have "\<not> sn < s" using a(5) by simp
  then have "consistency_check_helper fuel E p i sn (R, V) w = (Ok (R', ?V - {(p, i)}), w)"
    using f new a(2,4) n k by (simp add: consistency_check_helper.simps(2) bindE_apply get_page_apply Let_def returnE_apply)
  then show "\<exists>R'. consistency_check_helper fuel E p i sn (R, V) w = (Ok (R', V), w)" using new by auto
qed

lemma stored_passes: "holds E w S p i t \<Longrightarrow> snapshots_descend E w S \<Longrightarrow> check_passes E w S p i t"
proof (induction rule: holds.induct)
  case (holds_storage_leaf p i n r v)
  then show ?case by (intro check_node [OF holds.holds_storage_leaf]) (auto simp: node_pointers_def)
next
  case (holds_account_leaf p i n nonce bal code root a sub)
  have h: "holds E w S p i (ALeaf (node_prefix n) a sub)" using holds_account_leaf(1-5) by (intro holds.holds_account_leaf) blast+
  show ?case
  proof (rule check_node [OF h holds_account_leaf(2,6)])
    fix ptr
    assume "ptr \<in> node_pointers n"
    then obtain u q j where u: "sub = Some u" "child_at w p ptr = Some (q, j)" "check_passes E w S q j u"
      using holds_account_leaf(3,5,6) by (auto simp: node_pointers_def)
    then show "\<exists>q j u. child_at w p ptr = Some (q, j) \<and> check_passes E w S q j u \<and> size u < size (ALeaf (node_prefix n) a sub)"
      by (intro exI [of _ q] exI [of _ j] exI [of _ u]) simp
  qed
next
  case (holds_branch p i n cs ts)
  have h: "holds E w S p i (Br (node_prefix n) ts)" using holds_branch(1-5) by (intro holds.holds_branch) blast+
  show ?case
  proof (rule check_node [OF h holds_branch(2,6)])
    fix ptr
    assume "ptr \<in> node_pointers n"
    then obtain k where k: "k < length ts" "cs ! k = Some ptr" using holds_branch(3,4) by (auto simp: node_pointers_def in_set_conv_nth)
    then obtain u q j where u: "ts ! k = Some u" "child_at w p ptr = Some (q, j)" "check_passes E w S q j u"
      using holds_branch(5) [rule_format, OF k(1)] holds_branch(6) by auto
    have "size u < size (Br (node_prefix n) ts)" using size_child [OF k(1) u(1)] by simp
    then show "\<exists>q j u. child_at w p ptr = Some (q, j) \<and> check_passes E w S q j u \<and> size u < size (Br (node_prefix n) ts)" using u by blast
  qed
qed

subsection \<open>The printed tree\<close>

fun trie_values :: "trie \<Rightarrow> trie_value list" where
  "trie_values (SLeaf pre v) = [TStorage v]"
| "trie_values (ALeaf pre a root) = TAccount a # (case root of None \<Rightarrow> [] | Some t \<Rightarrow> trie_values t)"
| "trie_values (Br pre cs) = concat (map (\<lambda>c. case c of None \<Rightarrow> [] | Some t \<Rightarrow> trie_values t) cs)"

fun shown :: "lines \<Rightarrow> trie_value list" where
  "shown [] = []"
| "shown (l # ls) = (case l of AccountLine _ a _ \<Rightarrow> [TAccount a] | StorageLine _ v _ \<Rightarrow> [TStorage v] | _ \<Rightarrow> []) @ shown ls"

lemma shown_append [simp]: "shown (xs @ ys) = shown xs @ shown ys"
  by (induction xs) auto

lemma child_pointers_eq: "child_pointers kids = concat (map (\<lambda>c. case c of None \<Rightarrow> [] | Some ptr \<Rightarrow> [ptr]) kids)"
proof -
  have "map snd (List.map_filter (\<lambda>(i, c). map_option (\<lambda>p. (i, p)) c) (List.enumerate n kids)) = concat (map (\<lambda>c. case c of None \<Rightarrow> [] | Some ptr \<Rightarrow> [ptr]) kids)" for n
    by (induction kids arbitrary: n) (auto simp: List.map_filter_simps split: option.splits)
  then show ?thesis by (simp add: child_pointers_def some_children_def)
qed

definition prints :: "(lines \<Rightarrow> lines action) \<Rightarrow> world \<Rightarrow> trie_value list \<Rightarrow> bool" where
  "prints m w vs \<longleftrightarrow> (\<forall>buf. \<exists>ls. m buf w = (Ok (buf @ ls), w) \<and> shown ls = vs)"

lemma print_children_prints:
  assumes "list_all2 (\<lambda>c t. (c = None \<and> t = None) \<or>
      (\<exists>ptr u q j. c = Some ptr \<and> t = Some u \<and> child_at w p ptr = Some (q, j) \<and> prints (print q j) w (trie_values u))) cs ts"
  shows "prints (print_children print p ind True (child_pointers cs)) w (concat (map (\<lambda>c. case c of None \<Rightarrow> [] | Some t \<Rightarrow> trie_values t) ts))"
  using assms
proof (induction cs ts)
  case Nil
  then show ?case by (simp add: prints_def child_pointers_eq action_simps)
next
  case (Cons c cs t ts)
  show ?case
  proof (cases c)
    case None
    then show ?thesis using Cons by (simp add: child_pointers_eq)
  next
    case (Some ptr)
    then obtain u q j where u: "t = Some u" "child_at w p ptr = Some (q, j)" "prints (print q j) w (trie_values u)" using Cons(1) by auto
    show ?thesis
      unfolding prints_def
    proof
      fix buf
      obtain l1 where l1: "print q j buf w = (Ok (buf @ l1), w)" "shown l1 = trie_values u" using u(3) unfolding prints_def by blast
      obtain l2 where l2: "print_children print p ind True (child_pointers cs) (buf @ l1) w = (Ok ((buf @ l1) @ l2), w)"
        "shown l2 = concat (map (\<lambda>c. case c of None \<Rightarrow> [] | Some t \<Rightarrow> trie_values t) ts)" using Cons(3) unfolding prints_def by blast
      then show "\<exists>ls. print_children print p ind True (child_pointers (c # cs)) buf w = (Ok (buf @ ls), w) \<and>
          shown ls = concat (map (\<lambda>c. case c of None \<Rightarrow> [] | Some t \<Rightarrow> trie_values t) (t # ts))"
        using Some u(1,2) l1 page_and_index(1) [of ptr p w]
        by (intro exI [of _ "l1 @ l2"]) (simp add: child_pointers_eq action_simps)
    qed
  qed
qed

lemma print_stored:
  assumes "holds E w S p i t" and "size t < fuel"
  shows "prints (print_page_helper fuel E p i ind True) w (trie_values t)"
  using assms
proof (induction arbitrary: fuel ind rule: holds.induct)
  case (holds_storage_leaf p i n r v)
  then obtain f where f: "fuel = Suc f" by (cases fuel) auto
  then show ?case
    using holds_storage_leaf node_at_apply [OF holds_storage_leaf(2)]
    by (simp add: prints_def print_page_helper.simps(2) bindE_apply write_node_value_def node_value_def returnE_apply)
next
  case (holds_account_leaf p i n nonce bal code root a sub)
  then obtain f where f: "fuel = Suc f" by (cases fuel) auto
  have n: "get_node E p i w = (Ok n, w)" using node_at_apply [OF holds_account_leaf(2)] by simp
  note run = print_page_helper.simps(2) bindE_apply write_node_value_def returnE_apply
  show ?case
  proof (cases root)
    case None
    then have "sub = None" using holds_account_leaf(5) by auto
    then show ?thesis using None f n holds_account_leaf(3,4) by (simp add: prints_def run)
  next
    case (Some ptr)
    then obtain u q j where u: "sub = Some u" "child_at w p ptr = Some (q, j)" "\<And>fuel ind. size u < fuel \<Longrightarrow> prints (print_page_helper fuel E q j ind True) w (trie_values u)"
      using holds_account_leaf(5) by auto
    have below: "prints (print_page_helper f E q j (ind + 1) True) w (trie_values u)" using u(1,3) holds_account_leaf(6) f by simp
    show ?thesis
      unfolding prints_def
    proof
      fix buf
      let ?line = "AccountLine ind a (x_pack_to E (node_prefix n))"
      obtain l where "print_page_helper f E q j (ind + 1) True (buf @ [?line]) w = (Ok ((buf @ [?line]) @ l), w)" "shown l = trie_values u"
        using below unfolding prints_def by blast
      then show "\<exists>ls. print_page_helper fuel E p i ind True buf w = (Ok (buf @ ls), w) \<and> shown ls = trie_values (ALeaf (node_prefix n) a sub)"
        using Some f n holds_account_leaf(3,4) u(1,2) page_and_index(1) [of ptr p w]
        by (intro exI [of _ "?line # l"]) (simp add: run)
    qed
  qed
next
  case (holds_branch p i n cs ts)
  then obtain f where f: "fuel = Suc f" by (cases fuel) auto
  have n: "get_node E p i w = (Ok n, w)" using node_at_apply [OF holds_branch(2)] by simp
  let ?print = "\<lambda>q i. print_page_helper f E q i (ind + 1) True"
  have kids: "list_all2 (\<lambda>c t. (c = None \<and> t = None) \<or>
      (\<exists>ptr u q j. c = Some ptr \<and> t = Some u \<and> child_at w p ptr = Some (q, j) \<and> prints (?print q j) w (trie_values u))) cs ts"
    unfolding list_all2_conv_all_nth
  proof (intro conjI allI impI)
    fix k
    assume k: "k < length cs"
    then have k': "k < length ts" using holds_branch(4) by simp
    show "(cs ! k = None \<and> ts ! k = None) \<or>
      (\<exists>ptr u q j. cs ! k = Some ptr \<and> ts ! k = Some u \<and> child_at w p ptr = Some (q, j) \<and> prints (?print q j) w (trie_values u))"
    proof (cases "ts ! k")
      case (Some u)
      have "size u < f" using size_child [OF k' Some] holds_branch(6) f by simp
      then show ?thesis using holds_branch(5) [rule_format, OF k'] Some by auto
    qed (use holds_branch(5) [rule_format, OF k'] in auto)
  qed (use holds_branch(4) in simp)
  show ?case
    unfolding prints_def
  proof
    fix buf
    let ?line = "BranchLine ind p (map fst (some_children cs)) (x_pack_to E (node_prefix n))"
    obtain l where "print_children ?print p (ind + 1) True (child_pointers cs) (buf @ [?line]) w = (Ok ((buf @ [?line]) @ l), w)"
      "shown l = trie_values (Br (node_prefix n) ts)"
      using print_children_prints [OF kids, of "ind + 1"] unfolding prints_def trie_values.simps by blast
    then show "\<exists>ls. print_page_helper fuel E p i ind True buf w = (Ok (buf @ ls), w) \<and> shown ls = trie_values (Br (node_prefix n) ts)"
      using f n holds_branch(3)
      by (intro exI [of _ "?line # l"]) (simp add: print_page_helper.simps(2) bindE_apply write_node_value_def returnE_apply)
  qed
qed

subsection \<open>What the debugger misses\<close>

text \<open>Printing a single page stops at the first child on another page: the children after it are not printed, also those on the page.\<close>

lemma print_page_skips_siblings:
  assumes "child_at w p ptr = Some (q, 0)" and "pointer_cell_index ptr = None" and "q \<noteq> p"
  shows "print_children print p ind False (ptr # kids) buf w = (Ok (buf @ [ChildOnNewPage ind q]), w)"
proof -
  have "pointer_page_id ptr w = (Ok q, w)"
    using assms(1,2) by (auto simp: child_at_def pointer_page_id_def action_simps location_page_id_def split: option.splits result.splits if_splits)
  then show ?thesis using assms(1,3) page_and_index(1) [of ptr p w] by (simp add: action_simps)
qed

text \<open>The consistency check looks for leaked pages among all ids but the last.\<close>

lemma last_page_unchecked: "all_page_ids n = Ok A \<Longrightarrow> n \<notin> A"
  by (auto simp: all_page_ids_def Let_def unat_of_nat take_bit_nat_eq_self split: if_splits dest!: arg_cong [of n _ unat])

lemma leaked_last_page_passes:
  assumes "open_metadata True E w = (Ok (Ok mm), w1)" and "root_node_page_id (hs_meta (active_slot mm)) = None" and "orphan_page_ids mm = Ok []"
    and "pm_size (se_pages w1) = 1" and "pm_is_dirty (se_pages w1) 1 = Ok False"
  shows "database_consistency_check fuel E True buf w = (Ok (buf @ [CheckPassed], Ok ()), w1)"
proof -
  have "page_id_new 1 = Some 1" by (simp add: page_id_new_def page_id_is_valid_def PAGE_ID_MIN_def PAGE_ID_MAX_def)
  then have "get_dirty_pages w1 = (Ok {}, w1)" using assms(4,5) by (simp add: get_dirty_pages_def action_simps)
  moreover have "all_page_ids 1 = Ok {}" by (simp add: all_page_ids_def)
  moreover have "consistency_check fuel E None w1 = (Ok {}, w1)" by (simp add: consistency_check_def action_simps)
  ultimately show ?thesis
    using assms(1-4) by (simp add: database_consistency_check_def bindE_apply liftE_apply asks_apply returnE_apply Let_def)
qed

lemma open_metadata_resets:
  assumes "mm_inv E (se_meta w)" and "verify_integrity E (dirty_slot (se_meta w)) \<noteq> Ok ()"
    and "unat (ms_snapshot_id (hs_meta (active_slot (se_meta w)))) + 1 < 2 ^ 64"
  shows "\<exists>mm. open_metadata True E w = (Ok (Ok mm), w\<lparr>se_meta := mm\<rparr>) \<and> mm_inv E mm \<and> active_slot mm = active_slot (se_meta w) \<and>
    current_orphans mm = committed_orphans (se_meta w) \<and>
    hs_meta (dirty_slot mm) = (hs_meta (active_slot (se_meta w)))\<lparr>ms_snapshot_id := ms_snapshot_id (hs_meta (active_slot (se_meta w))) + 1\<rparr>"
proof -
  let ?m = "se_meta w"
  have act: "mm_active ?m \<le> 1" "verify_integrity E (active_slot ?m) = Ok ()" using assms(1) by (simp_all add: mm_inv_def)
  obtain mm where mm: "mm_reopen E ?m = Ok mm" "active_slot mm = active_slot ?m" "mm_list mm = mm_list ?m" "mm_active mm = mm_active ?m"
    "dirty_slot mm = (active_slot ?m)\<lparr>hs_meta := (hs_meta (active_slot ?m))\<lparr>ms_snapshot_id := ms_snapshot_id (hs_meta (active_slot ?m)) + 1\<rparr>\<rparr>"
    "current_orphans mm = queue_of (hs_meta (active_slot ?m)) (mm_list ?m)"
    using reopen_at [OF latest_active [OF act assms(2)] act(1) active_slot_def assms(3)] by blast
  have "?m\<lparr>mm_slot0 := mm_slot0 mm, mm_slot1 := mm_slot1 mm\<rparr> = mm" using mm(3,4) by (cases ?m, cases mm) simp
  then have "open_metadata True E w = (Ok (Ok mm), w\<lparr>se_meta := mm\<rparr>)" using mm(1) by (simp add: open_metadata_def)
  moreover have "mm_inv E mm" using assms(1) mm(2-5) act by (simp add: mm_inv_def range_ok_def)
  ultimately show ?thesis using mm by (intro exI [of _ mm]) (simp add: committed_orphans_def)
qed

lemma orphans_iter_ok: "mm_inv E mm \<Longrightarrow> orphans_iter mm = Ok (current_orphans mm)"
  by (simp add: orphans_iter_def actual_orphans_range_def slice_range_def mm_inv_def range_ok_def current_orphans_def queue_of_def word_le_nat_alt)

subsection \<open>Properties\<close>

text \<open>
  C26. The consistency check of a trie is exact. When it accepts, the set it returns is that of the pages
  of all nodes reached from the root, no page has a later snapshot than the page that points to it, and
  there is no cycle. It accepts every stored trie whose snapshots descend, given fuel above the number of
  its nodes, and changes nothing.
\<close>

theorem consistency_check_exact:
  "(consistency_check fuel E (Some r) w = (Ok R, w') \<longrightarrow> w' = w \<and> R = linked_pages E w (r, 0) \<and> sound_below E w {} (r, 0)) \<and>
   (reads E w S t \<and> cx_root_node_page_id (w_cx w) = Some r \<and> snapshots_descend E w S \<and> size t < fuel \<longrightarrow>
      consistency_check fuel E (Some r) w = (Ok (linked_pages E w (r, 0)), w))"
proof -
  have sound: "w' = w \<and> R = linked_pages E w (r, 0) \<and> sound_below E w {} (r, 0)" if "consistency_check fuel E (Some r) w = (Ok R, w')" for R w'
  proof -
    from that obtain s s' where run: "r \<in> {r} \<and> consistency_check_helper fuel E r 0 s ({r}, {}) w = (Ok s', w')" "R = fst s'"
      by (auto simp: consistency_check_def action_simps bind_state_eq_Ok)
    have "r \<in> linked_pages E w (r, 0)" unfolding linked_pages_def by force
    then show ?thesis using helper_checked [of E w s fuel, unfolded check_spec_def, rule_format, OF run(1)] run(2) by auto
  qed
  have passes: "\<exists>R. consistency_check fuel E (Some r) w = (Ok R, w)"
    if stored: "reads E w S t" "cx_root_node_page_id (w_cx w) = Some r" "snapshots_descend E w S" "size t < fuel"
  proof -
    have h: "holds E w S r 0 t" "pm_get (se_pages w) r = Ok r" using stored(1,2) by (auto simp: reads_def)
    obtain s where s: "page_snapshot_id (page_at r w) = Ok s" using stored(3) holds_in [OF h(1)] by (auto simp: snapshots_descend_def newer_def)
    have "larger E w S t {}" by (simp add: larger_def)
    then obtain R where "consistency_check_helper fuel E r 0 s ({r}, {}) w = (Ok (R, {}), w)"
      using stored_passes [OF h(1) stored(3)] stored(4) h(2) s unfolding check_passes_def by blast
    then show ?thesis using h(2) s by (simp add: consistency_check_def action_simps)
  qed
  show ?thesis using sound passes by blast
qed

theorem consistency_check_exact_witness:
  "consistency_check 10 sample_externals (Some 1) sample_world = (Ok {1}, sample_world)"
proof -
  have leaf: "n = sample_leaf" if "get_value (node_ops sample_externals) (pg_data (page_at 1 sample_world)) i = Ok n" for i n
    using that sample_get_leaf sample_get_other [of i] by (cases "i = 0") (auto simp: page_at_def sample_world_def)
  have none: "\<not> linked sample_externals sample_world (1, i) y" for i y
    by (auto elim!: linkedE dest!: leaf simp: node_pointers_def sample_leaf_def node_new_def)
  have "page_snapshot_id (page_at 1 sample_world) = Ok 1"
    by (simp add: page_snapshot_id_def page_at_def sample_world_def raw_state_load_def page_state_of_u64_def page_state_snapshot_id_def DIRTY_MASK_def)
  then have "snapshots_descend sample_externals sample_world {1}" using none by (simp add: snapshots_descend_def newer_def)
  moreover have "cx_root_node_page_id (w_cx sample_world) = Some 1" by (simp add: sample_world_def)
  ultimately have "reads sample_externals sample_world {1} (ALeaf (replicate 64 0) sample_account None) \<and>
      cx_root_node_page_id (w_cx sample_world) = Some 1 \<and> snapshots_descend sample_externals sample_world {1} \<and>
      size (ALeaf (replicate 64 0) sample_account None) < 10" using sample_reads by simp
  note run = mp [OF conjunct2 [OF consistency_check_exact] this]
  have "linked_pages sample_externals sample_world (1, 0) = {1}" using none by (subst linked_pages_step) auto
  then show ?thesis using run by (rule subst)
qed

text \<open>
  C27. Inspection undoes an open transaction. \<open>root_page_info\<close> opens the metadata file that the engine has
  mapped; opening copies the committed slot over the dirty one. The orphan list of an open writer is
  then the committed one again: the pages it orphaned are forgotten, and a page that it has already taken
  from the list is handed out a second time.
\<close>

theorem inspection_discards_writer:
  assumes "mm_inv E (se_meta w)" and "verify_integrity E (dirty_slot (se_meta w)) \<noteq> Ok ()"
    and "unat (ms_snapshot_id (hs_meta (active_slot (se_meta w)))) + 1 < 2 ^ 64"
  shows "\<exists>out w'. root_page_info E True buf w = (Ok out, w') \<and> se_pages w' = se_pages w \<and>
    current_orphans (se_meta w') = committed_orphans (se_meta w) \<and>
    (\<forall>x xs t. committed_orphans (se_meta w) = x # xs \<and> op_orphaned_at x \<le> t \<longrightarrow>
       fst (orphans_pop t (se_meta w')) = Ok (Some x))"
proof -
  obtain mm where mm: "open_metadata True E w = (Ok (Ok mm), w\<lparr>se_meta := mm\<rparr>)" "mm_inv E mm" "current_orphans mm = committed_orphans (se_meta w)"
    using open_metadata_resets [OF assms] by blast
  have "\<exists>out. root_page_info E True buf w = (Ok out, w\<lparr>se_meta := mm\<rparr>)"
    using mm(1) orphans_iter_ok [OF mm(2)] by (simp add: root_page_info_def action_simps Let_def)
  moreover have "fst (orphans_pop t mm) = Ok (Some x)" if "committed_orphans (se_meta w) = x # xs" "op_orphaned_at x \<le> t" for x xs t
    using orphans_pop_ok [OF mm(2), of t] that mm(3) by auto
  ultimately show ?thesis using mm(3) by auto
qed

text \<open>The writer has orphaned page 7; after the inspection its list is empty.\<close>

theorem inspection_discards_writer_witness:
  "\<exists>mm out w'. fst (orphans_push (\<lambda>_. True) (orphan_page_new 7 1) sample_meta) = Ok () \<and>
     mm = snd (orphans_push (\<lambda>_. True) (orphan_page_new 7 1) sample_meta) \<and> current_orphans mm = [orphan_page_new 7 1] \<and>
     root_page_info sample_externals True [] (sample_world\<lparr>se_meta := mm\<rparr>) = (Ok out, w') \<and> current_orphans (se_meta w') = []"
proof -
  define mm where "mm = snd (orphans_push (\<lambda>_. True) (orphan_page_new 7 1) sample_meta)"
  have push: "fst (orphans_push (\<lambda>_. True) (orphan_page_new 7 1) sample_meta) = Ok ()"
    by (simp add: orphans_push_def push_within_capacity_def actual_orphans_range_def zero_slot_def Let_def)
  have mm: "mm = \<lparr>mm_slot0 = zero_slot, mm_slot1 = zero_slot\<lparr>hs_meta := (hs_meta zero_slot)\<lparr>ms_snapshot_id := 1, ms_orphan_pages_len := 1\<rparr>\<rparr>,
      mm_list = [orphan_page_new 7 1, zero_orphan, zero_orphan, zero_orphan], mm_active = 0\<rparr>"
    by (simp add: mm_def orphans_push_def push_within_capacity_def actual_orphans_range_def zero_slot_def Let_def set_dirty_slot_def sample_meta_def
        dirty_slot_def numeral_eq_Suc)
  have "mm_inv sample_externals mm" "current_orphans mm = [orphan_page_new 7 1]" "committed_orphans mm = []" "unat (ms_snapshot_id (hs_meta (active_slot mm))) = 0"
    using zero_slot_empty
    by (simp_all add: mm mm_inv_def range_ok_def verify_integrity_def zero_slot_def active_slot_def dirty_slot_def current_orphans_def committed_orphans_def
        queue_of_def subl_def)
  moreover have "verify_integrity sample_externals (dirty_slot mm) \<noteq> Ok ()"
    unfolding mm dirty_slot_def by code_simp
  ultimately show ?thesis
    using inspection_discards_writer [of sample_externals "sample_world\<lparr>se_meta := mm\<rparr>" "[]"] push mm_def by auto
qed

text \<open>
  C28. Printing the whole database shows every account and every slot of the stored trie, each once and in
  the order of the keys, an account before its slots, and changes nothing.
\<close>

theorem print_page_complete:
  assumes "reads E w S t" and "size t < fuel"
  shows "\<exists>ls. print_page fuel E None buf w = (Ok (buf @ ls), w) \<and> shown ls = trie_values t"
proof -
  obtain r where r: "cx_root_node_page_id (w_cx w) = Some r" "pm_get (se_pages w) r = Ok r" "holds E w S r 0 t" using assms(1) by (auto simp: reads_def)
  obtain ls where "print_page_helper fuel E r 0 0 True buf w = (Ok (buf @ ls), w)" "shown ls = trie_values t"
    using print_stored [OF r(3) assms(2), of 0] unfolding prints_def by blast
  then show ?thesis using r(1,2) by (simp add: print_page_def action_simps)
qed

theorem print_page_complete_witness:
  "\<exists>ls. print_page 10 sample_externals None [] sample_world = (Ok ls, sample_world) \<and> shown ls = [TAccount sample_account]"
  using print_page_complete [OF sample_reads, of 10 "[]"] by auto
end
