(* ===== verification/Futures.thy ===== *)
theory Futures
  imports Prelude
begin

text \<open>
  Futures and executors (\<open>src/src/executor\<close>). All clones of a future share one \<open>OnceLock\<close>, which is empty
  until it is set and then never changes. A closure is given by its outcome: a value or a panic.
\<close>

subsection \<open>Futures\<close>

datatype 'a future_status = Completed 'a | Poisoned

type_synonym 'a future_cell = "'a future_status option"

datatype ready_error = ReadyError

datatype poison_error = PoisonError

text \<open>\<open>OnceLock::set\<close>.\<close>

definition once_set :: "'a future_status \<Rightarrow> 'a future_cell \<Rightarrow> (unit, 'a future_status) result \<times> 'a future_cell" where
  "once_set s c = (case c of None \<Rightarrow> (Ok (), Some s) | Some _ \<Rightarrow> (Err s, c))"

definition future_pending :: "'a future_cell" where
  "future_pending = None"

definition future_try_complete :: "'a \<Rightarrow> 'a future_cell \<Rightarrow> (unit, ready_error) result \<times> 'a future_cell" where
  "future_try_complete v c = (case once_set (Completed v) c of (r, c) \<Rightarrow> (map_err (\<lambda>_. ReadyError) r, c))"

definition future_complete :: "'a \<Rightarrow> 'a future_cell \<Rightarrow> (unit, ready_error) result \<times> 'a future_cell" where
  "future_complete v c = (case future_try_complete v c of (r, c) \<Rightarrow> (unwrap r, c))"

definition future_ready :: "'a \<Rightarrow> (unit, ready_error) result \<times> 'a future_cell" where
  "future_ready v = future_complete v future_pending"

definition future_try_poison :: "'a future_cell \<Rightarrow> (unit, ready_error) result \<times> 'a future_cell" where
  "future_try_poison c = (case once_set Poisoned c of (r, c) \<Rightarrow> (map_err (\<lambda>_. ReadyError) r, c))"

definition future_try_get :: "'a future_cell \<Rightarrow> ('a, poison_error) result option" where
  "future_try_get c = (case c of None \<Rightarrow> None | Some (Completed v) \<Rightarrow> Some (Ok v) | Some Poisoned \<Rightarrow> Some (Err PoisonError))"

definition future_get :: "'a future_cell \<Rightarrow> ('a, poison_error) result option" where
  "future_get c = map_option unwrap (future_try_get c)"

text \<open>\<open>wait\<close>; the value \<open>None\<close> means that the caller is still blocked.\<close>

definition future_wait :: "'a future_cell \<Rightarrow> ('a, poison_error) result option" where
  "future_wait c = (case c of None \<Rightarrow> None | Some (Completed v) \<Rightarrow> Some (Ok v) | Some Poisoned \<Rightarrow> Some Panic)"

subsection \<open>Executors\<close>

text \<open>The task that \<open>defer\<close> spawns: the guard poisons the future when the closure, or setting its value, panics.\<close>

definition panic_guard_drop :: "bool \<Rightarrow> 'a future_cell \<Rightarrow> 'a future_cell" where
  "panic_guard_drop panicking c = (if panicking then snd (future_try_poison c) else c)"

definition deferred_task :: "('a, ready_error) result \<Rightarrow> 'a future_cell \<Rightarrow> 'a future_cell" where
  "deferred_task f c =
     (case bind_state (f, c) future_complete of (r, c) \<Rightarrow> panic_guard_drop (r = Panic) c)"

definition inline_defer :: "('a, ready_error) result \<Rightarrow> ('a future_cell, ready_error) result" where
  "inline_defer f = bind_result f (\<lambda>v. case future_ready v of (r, c) \<Rightarrow> bind_result r (\<lambda>_. Ok c))"

lemmas future_defs = once_set_def future_pending_def future_try_complete_def future_complete_def future_ready_def
  future_try_poison_def future_try_get_def future_get_def future_wait_def panic_guard_drop_def deferred_task_def inline_defer_def

subsection \<open>What a client sees\<close>

text \<open>The calls on a shared future, in any order: clients read, the task may try to set it.\<close>

inductive future_step :: "'a future_cell \<Rightarrow> 'a future_cell \<Rightarrow> bool" where
  step_complete: "future_step c (snd (future_try_complete v c))"
| step_poison: "future_step c (snd (future_try_poison c))"
| step_task: "future_step c (deferred_task f c)"

lemma set_once: "snd (future_try_complete v (Some s)) = Some s" "snd (future_try_poison (Some s)) = Some s" "deferred_task f (Some s) = Some s"
  by (simp_all add: future_defs) (cases f; simp add: future_defs)

lemma future_settled: "future_step\<^sup>*\<^sup>* c c' \<Longrightarrow> c = Some s \<Longrightarrow> c' = Some s"
proof (induction rule: rtranclp_induct)
  case (step c1 c2)
  then have "c1 = Some s" by simp
  with step(2) show ?case by cases (simp_all add: set_once)
qed

text \<open>A value that one client has seen is what every client sees from then on.\<close>

lemma future_value_stable:
  assumes "future_step\<^sup>*\<^sup>* c c'" and "future_try_get c = Some r"
  shows "future_try_get c' = Some r" "future_wait c' = Some (case r of Ok v \<Rightarrow> Ok v | _ \<Rightarrow> Panic)"
proof -
  obtain s where s: "c = Some s" using assms(2) by (cases c) (auto simp: future_try_get_def)
  have "c' = Some s" by (rule future_settled [OF assms(1) s])
  then show "future_try_get c' = Some r" "future_wait c' = Some (case r of Ok v \<Rightarrow> Ok v | _ \<Rightarrow> Panic)"
    using assms(2) s by (auto simp: future_try_get_def future_wait_def split: future_status.splits)
qed

text \<open>A deferred closure that returns or panics always releases the waiting clients, with its value or with a panic.\<close>

lemma deferred_released:
  "future_wait (deferred_task (Ok v) future_pending) = Some (Ok v)"
  "future_wait (deferred_task Panic future_pending) = Some Panic"
  by (simp_all add: future_defs)

lemma inline_equals_deferred: "inline_defer (Ok v) = Ok (deferred_task (Ok v) future_pending)"
  by (simp add: future_defs)

end
