(* ===== verification/Spec2Isabelle.thy ===== *)
theory Spec2Isabelle
  imports Slotted_Page_Spec Raw_Path Page_Manager Metadata Transaction_Queries Debugger Futures
begin

text \<open>
  A verification of TrieDB, an on-disk store for the Ethereum state trie with snapshots.

  \<^bold>\<open>The program.\<close> A database is a file of pages and a metadata file. Nodes of the trie are stored in
  slotted pages; a transaction writes a new snapshot by copying the pages it changes, orphans the old
  copies, and commits by switching between two metadata slots. Orphaned pages are reused once no open
  transaction can read them.

  \<^bold>\<open>The theories and the sources they model\<close> (paths below \<open>src/src\<close>):
  \<^item> \<open>Prelude\<close>: machine integers, outcomes of Rust calls, slices, big-endian integers.
  \<^item> \<open>Raw_Path\<close>: \<open>path.rs\<close>. Paths are padded arrays of nibbles; the operations are shown to be the list
    operations on the nibbles, the derived order the lexicographic one.
  \<^item> \<open>Externals\<close>: the library functions the crate calls, as a record of parameters, and the laws assumed of
    them with an instance that satisfies these laws.
  \<^item> \<open>Value_Codec\<close>: the \<open>Value\<close> trait of \<open>storage/value.rs\<close> as a record and a locale.
  \<^item> \<open>Pointer\<close>: page ids, locations and pointers (\<open>page.rs\<close>, \<open>location.rs\<close>, \<open>pointer.rs\<close>).
  \<^item> \<open>Node\<close>: \<open>node.rs\<close> and \<open>account.rs\<close>, with the round trip of the on-page encoding and the
    bounds of the buffers that the RLP encoding is written into.
  \<^item> \<open>Cell_Pointer\<close>, \<open>Slotted_Page\<close>, \<open>Slotted_Page_Alloc\<close>, \<open>Slotted_Page_Spec\<close>: \<open>page/slotted_page.rs\<close> and its
    cell pointers. A page is a finite map from indices to cells, and every operation is the expected
    update of this map; defragmentation and allocation terminate.
  \<^item> \<open>Page\<close>: the atomic page state and the page handles (\<open>page/state.rs\<close>, \<open>page/page.rs\<close>).
  \<^item> \<open>Page_Manager\<close>: the memory-mapped page file (\<open>page/manager/mmap.rs\<close>, \<open>options.rs\<close>).
  \<^item> \<open>Metadata\<close>: \<open>meta/mod.rs\<close>, the two metadata slots and the list of orphaned pages, with commit,
    compaction and recovery after a crash.
  \<^item> \<open>Storage_Engine\<close>: the transaction context and the page operations of the engine (\<open>context.rs\<close>,
    \<open>storage/engine/\<close> \<open>engine.rs\<close>, \<open>helpers.rs\<close>, \<open>page_ops.rs\<close>) as actions on a \<open>world\<close>.
  \<^item> \<open>Engine_Read\<close>: \<open>storage/engine/read.rs\<close>, shown to be the lookup in an abstract trie.
  \<^item> \<open>Engine_Write\<close>: \<open>storage/engine/write.rs\<close> and \<open>handlers.rs\<close>.
  \<^item> \<open>Write_Protocol\<close>, \<open>Copy_On_Write\<close>: what the write path leaves untouched, and snapshot isolation.
  \<^item> \<open>Transactions\<close>: \<open>transaction/manager.rs\<close>, \<open>transaction.rs\<close> and \<open>database.rs\<close>: the list of open snapshots, the
    calls of readers and writers, opening a database.
  \<^item> \<open>Transaction_System\<close>: all clients of a database as a step relation. Its invariant relates the open
    transactions, the metadata and the reclamation threshold; readers keep their snapshot, pages are
    reclaimed, and two races between the locks of \<open>begin_ro\<close> and \<open>begin_rw\<close> are shown to be possible.
  \<^item> \<open>Overlay\<close>: \<open>overlay.rs\<close>. A frozen overlay is a sorted list of changes; lookups and slices, which use the
    binary searches of the standard library, are shown to be the expected operations on this list.
  \<^item> \<open>Overlay_Root\<close>: \<open>storage/overlay_root.rs\<close>, the state root of a snapshot with an overlay. The hash builder
    of alloy-trie is a parameter, a function of the sequence of calls made on it.
  \<^item> \<open>Root_Items\<close>, \<open>Storage_Root\<close>, \<open>State_Root\<close>: the calls made on the hash builder stand for the stored trie with
    the overlay applied, a stored subtrie by the hash in a pointer that a node has to it. The locale \<open>trie_layer\<close> has the argument for one trie; it is interpreted for
    storage tries and, on top of it, for the state trie.
  \<^item> \<open>Proofs\<close>: \<open>storage/proofs.rs\<close>. The entries of a Merkle proof lead from the state root to the leaf.
  \<^item> \<open>Transaction_Queries\<close>: the calls of \<open>transaction.rs\<close> for proofs and for the root with an overlay.
  \<^item> \<open>Debugger\<close>: \<open>storage/debug.rs\<close>. The consistency check returns exactly the pages reached from the root of an
    acyclic trie and accepts every stored one; printing shows all values; three defects are shown.
  \<^item> \<open>Futures\<close>: \<open>executor/futures.rs\<close>, \<open>inline.rs\<close> and the task of \<open>threadpool.rs\<close>. A future is set at most once, so all
    clients see the same value, and a deferred closure releases its waiters also when it panics.

  \<^bold>\<open>How the code is modelled.\<close> A Rust function becomes a function of the same name (with a prefix where
  HOL has the name). A \<open>Result\<close> is \<open>Ok\<close> or \<open>Err\<close>, a panic is \<open>Panic\<close>, exhausted fuel is \<open>Diverge\<close>; an
  operation on a mutable object returns the object also when it fails. The release profile is modelled:
  arithmetic wraps around and \<open>debug_assert!\<close> is not evaluated. The file system appears as the outcomes of its
  calls; a crash leaves the memory-mapped contents as they are at that moment.

  \<^bold>\<open>Fuel and bounds.\<close> Cell allocation needs two rounds (\<open>allocate_fuel\<close>), a search in the trie, also for a
  proof, at most 130 nodes (\<open>READ_FUEL\<close>), adding an overlay three levels (\<open>OVERLAY_FUEL\<close>); all are proved sufficient.
  Traversals inside one page use 256 (\<open>page_fuel\<close>), more than a page has cells. The traversal for a root
  with an overlay and those of the debugger take their fuel as an argument; for every stored trie and
  overlay an amount is shown to exist from which on they end. The write path takes its fuel as an argument; its properties hold for
  every amount.

  \<^bold>\<open>What is assumed.\<close> The hash function, RLP, nibble packing and the hash builder are parameters with
  named laws. Stored tries are given by \<open>holds\<close>: pages whose nodes form a trie of accounts with their
  storage. That pointers carry the hash of their target is the hypothesis \<open>hash_linked\<close> of the proofs.

  \<^bold>\<open>Not modelled.\<close> Thread scheduling inside one operation, metrics, the building of the thread pool,
  opening and flushing of files, the wording of printed output and the command line tools.
\<close>

end
